(* ===== verification/Prelude.thy ===== *)
theory Prelude
  imports Main "HOL-Library.Word" "HOL-Library.Monad_Syntax"
begin

text \<open>
  The part of the library every component shares: the names of the machine's integer types,
  the kernel's \<open>assert\<close>, address regions with their separation predicate, byte memory with
  64-bit loads and stores on it, and the arithmetic of alignment. Memory is the machine's
  physical memory, one byte per 64-bit address; every pointer structure of the kernel lives in
  it at the offsets the C compiler gives its fields on RV64.
\<close>

unbundle bit_operations_syntax

named_theorems mem_simps \<open>reads of a memory after a write to it\<close>
named_theorems sep_intros \<open>rules that separate two address regions\<close>
named_theorems frame_intros \<open>rules that bound what a piece of code writes\<close>

section \<open>Integer types\<close>

type_synonym u8 = "8 word"
type_synonym u16 = "16 word"
type_synonym u32 = "32 word"
type_synonym u64 = "64 word"
type_synonym ptr = "64 word"
type_synonym memory = "u64 \<Rightarrow> u8"

section \<open>Panic and assert\<close>

text \<open>
  A kernel function that panics prints and then waits for interrupts forever: it never returns
  to its caller. Operations that may panic return an \<open>option\<close>, with \<open>None\<close> for "does not
  return". The macro \<open>assert\<close> of \<^verbatim>\<open>include/kernel/panic.h\<close> panics when its argument is false.
\<close>

definition kassert :: "bool \<Rightarrow> unit option" where
  "kassert b = (if b then Some () else None)"

lemma kassert_simps [simp]:
  "kassert True = Some ()" "kassert False = None"
  by (simp_all add: kassert_def)

lemma kassert_eq_Some [simp]: "kassert b = Some u \<longleftrightarrow> b"
  by (simp add: kassert_def)

lemma bind_kassert_eq_Some [simp]:
  "Option.bind (kassert b) f = Some r \<longleftrightarrow> b \<and> f () = Some r"
  by (simp add: kassert_def)

lemma bind_kassert [simp]: "b \<Longrightarrow> Option.bind (kassert b) f = f ()"
  by simp

section \<open>Words\<close>

lemma unat_plus_one:
  assumes "(i::'a::len word) < n"
  shows "unat (i + 1) = Suc (unat i)"
proof -
  have "unat i + 1 < 2 ^ LENGTH('a)"
    using assms by (metis Suc_eq_plus1 Suc_leI le_less_trans unsigned_less word_less_nat_alt)
  then show ?thesis by (simp add: unat_word_ariths)
qed

lemma word_plus_one_measure:
  "(i::'a::len word) < n \<Longrightarrow> unat n - unat (i + 1) < unat n - unat i"
  by (simp add: unat_plus_one diff_less_mono2 word_less_nat_alt)

lemma word_suc_le_iff:
  assumes "(i::'a::len word) < n"
  shows "i + 1 \<le> y \<or> y = i \<longleftrightarrow> i \<le> y"
proof -
  have "i + 1 \<le> y \<longleftrightarrow> i < y"
    using unat_plus_one [OF assms] by (simp add: word_le_nat_alt word_less_nat_alt Suc_le_eq)
  then show ?thesis by auto
qed

lemma unat_less64: "unat (x::u64) < 2 ^ 64"
  using unsigned_less [of x, where 'a = nat] by simp

lemma unat_minus64: "(u::u64) \<noteq> 0 \<Longrightarrow> unat (- u) = 2 ^ 64 - unat u"
  using unat_sub_if' [of 0 u] by (simp add: unat_eq_zero)

lemma unat_take_bit12: "unat (take_bit 12 (a::u64)) = unat a mod 4096"
proof -
  have "unat (take_bit 12 a) = take_bit 12 (unat a)" by (simp add: unsigned_take_bit_eq)
  then show ?thesis by (simp add: take_bit_eq_mod)
qed

section \<open>Alignment\<close>

abbreviation PAGE_SIZE :: u64 where "PAGE_SIZE \<equiv> 4096"
abbreviation PAGE_MASK :: u64 where "PAGE_MASK \<equiv> 4095"

text \<open>
  The static helpers \<open>align_up\<close> and \<open>align_down\<close>, which \<^verbatim>\<open>page.c\<close>, \<^verbatim>\<open>kmalloc.c\<close>,
  \<^verbatim>\<open>pgtable.c\<close>, \<^verbatim>\<open>task.c\<close> and \<^verbatim>\<open>exec.c\<close> each repeat verbatim, and \<open>page_aligned\<close> of
  \<^verbatim>\<open>page.c\<close>.
\<close>

definition align_up :: "u64 \<Rightarrow> u64 \<Rightarrow> u64" where
  "align_up value align = (value + align - 1) AND NOT (align - 1)"

definition align_down :: "u64 \<Rightarrow> u64 \<Rightarrow> u64" where
  "align_down value align = value AND NOT (align - 1)"

definition page_aligned :: "u64 \<Rightarrow> bool" where
  "page_aligned value \<longleftrightarrow> value AND PAGE_MASK = 0"

lemma and_page_mask: "a AND PAGE_MASK = take_bit 12 a"
  by (simp add: take_bit_eq_mask mask_numeral)

lemma page_aligned_iff: "page_aligned a \<longleftrightarrow> 4096 dvd unat a"
proof -
  have "a AND PAGE_MASK = 0 \<longleftrightarrow> unat (take_bit 12 a) = 0"
    unfolding and_page_mask by (metis unat_eq_zero)
  then show ?thesis by (simp add: page_aligned_def unat_take_bit12 dvd_eq_mod_eq_0)
qed

lemma page_aligned_0 [simp]: "page_aligned 0"
  by (simp add: page_aligned_iff)

lemma and_not_mask_mod: "unat (x AND NOT (mask n :: u64)) = unat x - unat x mod 2 ^ n"
proof -
  have "x AND NOT (mask n) = push_bit n (drop_bit n x)"
    by (rule bit_word_eqI) (auto simp: bit_simps)
  also have "\<dots> = x - take_bit n x" using bits_ident [of n x] by (metis add_diff_cancel_right')
  finally have e: "x AND NOT (mask n) = x - take_bit n x" .
  have t: "unat (take_bit n x) = unat x mod 2 ^ n"
    by (simp add: unsigned_take_bit_eq flip: take_bit_eq_mod)
  then have "take_bit n x \<le> x" by (simp add: word_le_nat_alt)
  then show ?thesis unfolding e by (simp add: unat_sub t)
qed

lemma unat_align_down: "unat (align_down v (2 ^ n)) = unat v - unat v mod 2 ^ n"
proof -
  have "(2 ^ n - 1 :: u64) = mask n" by (simp add: mask_eq_exp_minus_1)
  then show ?thesis by (simp add: align_down_def and_not_mask_mod)
qed

lemma unat_align_up:
  assumes "unat v + 2 ^ n - 1 < 2 ^ 64" "n < 64"
  shows "unat (align_up v (2 ^ n)) = (unat v + 2 ^ n - 1) div 2 ^ n * 2 ^ n"
proof -
  have ge: "1 \<le> (2::nat) ^ n" by simp
  have "of_nat (unat v + 2 ^ n - 1) = (of_nat (unat v + 2 ^ n) - of_nat 1 :: u64)"
    by (rule of_nat_diff) (use ge in linarith)
  then have "v + 2 ^ n - 1 = of_nat (unat v + 2 ^ n - 1)" by simp
  then have u: "unat (v + 2 ^ n - 1) = unat v + 2 ^ n - 1"
    using assms(1) by (simp add: unat_of_nat)
  have "(2 ^ n - 1 :: u64) = mask n" by (simp add: mask_eq_exp_minus_1)
  then show ?thesis
    by (simp only: align_up_def and_not_mask_mod u minus_mod_eq_div_mult)
qed

lemmas unat_align_up_page = unat_align_up [of _ 12, simplified]
  and unat_align_down_page = unat_align_down [of _ 12, simplified]

lemma unat_page_mult: "4096 * k < 2 ^ 64 \<Longrightarrow> unat (4096 * of_nat k :: u64) = 4096 * k"
proof -
  assume "4096 * k < 2 ^ 64"
  moreover have "4096 * of_nat k = (of_nat (4096 * k) :: u64)" by simp
  ultimately show ?thesis by (simp only: unat_of_nat) simp
qed

section \<open>Address regions\<close>

text \<open>
  \<open>region a n\<close> is the block of \<open>n\<close> bytes from \<open>a\<close>, modulo the address width, so it needs
  no overflow side condition. \<open>sep a n b k\<close> says that two blocks do not overlap, as two
  inequalities between words, which the simplifier decides at numeral offsets.
\<close>

definition region :: "u64 \<Rightarrow> u64 \<Rightarrow> u64 set" where
  "region a n = {x. x - a < n}"

definition sep :: "u64 \<Rightarrow> u64 \<Rightarrow> u64 \<Rightarrow> u64 \<Rightarrow> bool" where
  "sep a n b k \<longleftrightarrow> n \<le> b - a \<and> k \<le> a - b"

lemma region_iff: "x \<in> region a n \<longleftrightarrow> x - a < n"
  by (simp add: region_def)

lemma sep_sym: "sep a n b k \<Longrightarrow> sep b k a n"
  by (simp add: sep_def)

lemma sep_notin: "sep a n b k \<Longrightarrow> x \<in> region a n \<Longrightarrow> x \<notin> region b k"
  unfolding sep_def region_def mem_Collect_eq by uint_arith

lemma sep_notin': "sep a n b k \<Longrightarrow> x \<in> region b k \<Longrightarrow> x \<notin> region a n"
  using sep_notin by blast

lemma sep_disjoint: "sep a n b k \<Longrightarrow> region a n \<inter> region b k = {}"
  using sep_notin by blast

lemma sep_off_arith:
  assumes "n \<le> u" "k \<le> - (u::u64)" "c \<le> n" "0 < n'" "n' \<le> n - c"
    "d \<le> k" "0 < k'" "k' \<le> k - d"
  shows "n' \<le> u - c + d"
proof -
  have cu: "c \<le> u" using assms by auto
  have n': "n' \<le> u - c" using assms by uint_arith
  have u0: "u \<noteq> 0" using assms by auto
  have dk: "unat d < unat k" using assms by unat_arith
  have "unat k \<le> 2 ^ 64 - unat u" using assms u0 by (metis unat_minus64 word_le_nat_alt)
  then have "unat (u - c) + unat d < 2 ^ 64"
    using dk cu by (simp add: unat_sub)
  then have "unat (u - c + d) = unat (u - c) + unat d"
    by (simp add: unat_word_ariths)
  then show ?thesis using n' by (simp add: word_le_nat_alt)
qed

lemma sep_off:
  assumes "sep a n b k" "c \<le> n" "0 < n'" "n' \<le> n - c" "d \<le> k" "0 < k'" "k' \<le> k - d"
  shows "sep (a + c) n' (b + d) k'"
proof -
  have e: "b + d - (a + c) = (b - a) - c + d" "a + c - (b + d) = (a - b) - d + c" by simp_all
  show ?thesis
    unfolding sep_def e using assms
    by (auto simp: sep_def intro: sep_off_arith [where u = "b - a" and n = n and k = k]
        sep_off_arith [where u = "a - b" and n = k and k = n])
qed

lemmas sep_off0 = sep_off [where c = 0, simplified]
  and sep_off0' = sep_off [where d = 0, simplified]
  and sep_shrink = sep_off [where c = 0 and d = 0, simplified]

lemma region_offset_subset: "c \<le> n \<Longrightarrow> n' \<le> n - c \<Longrightarrow> region (a + c) n' \<subseteq> region a n"
proof
  fix x assume c: "c \<le> n" "n' \<le> n - c" "x \<in> region (a + c) n'"
  then have "x - a - c < n - c" by (auto simp: region_def algebra_simps)
  then have "x - a < n" using c by uint_arith
  then show "x \<in> region a n" by (simp add: region_def)
qed

lemma region_mono: "n \<le> k \<Longrightarrow> region a n \<subseteq> region a k"
  by (auto simp: region_def)

lemma sep_below:
  assumes "unat h + unat k \<le> unat q" "unat q + unat n < 2 ^ 64" "0 < k"
  shows "sep h k q n"
proof -
  have k: "0 < unat k" using assms(3) by (simp add: unat_gt_0 word_gt_0)
  then have "h \<le> q" "h \<noteq> q" using assms by (auto simp: word_le_nat_alt)
  then have u: "unat (q - h) = unat q - unat h" by (simp add: unat_sub)
  moreover have "unat (h - q) = 2 ^ 64 - unat (q - h)"
    using unat_minus64 [of "q - h"] \<open>h \<noteq> q\<close> by simp
  ultimately show ?thesis using assms(1,2) unfolding sep_def word_le_nat_alt by linarith
qed

lemma page_aligned_sep:
  assumes "page_aligned a" "page_aligned b" "a \<noteq> b"
  shows "sep a 4096 b 4096"
proof -
  have half: "4096 \<le> b - a" if "4096 dvd unat a" "4096 dvd unat b" "a \<noteq> b" for a b :: u64
  proof -
    have "unat (b - a) \<noteq> 0" using that by (metis right_minus_eq unat_eq_zero)
    moreover have "4096 dvd unat (b - a)"
    proof (cases "a \<le> b")
      case True then show ?thesis using that by (simp add: unat_sub)
    next
      case False
      then have "unat (b - a) = 2 ^ 64 - unat (a - b)"
        using that unat_minus64 [of "a - b"] by auto
      moreover have "unat (a - b) = unat a - unat b" using False by (simp add: unat_sub)
      moreover have "4096 dvd (2::nat) ^ 64" by simp
      ultimately show ?thesis using that by (metis dvd_diff_nat)
    qed
    ultimately have "4096 \<le> unat (b - a)" by (meson dvd_imp_le not_gr_zero)
    then show ?thesis by (simp add: word_le_nat_alt)
  qed
  from assms show ?thesis
    unfolding sep_def by (auto simp: page_aligned_iff intro: half)
qed

lemma region_split: "c \<le> N \<Longrightarrow> region b N = region b c \<union> region (b + c) (N - c)"
proof -
  assume c: "c \<le> N"
  have "u < N \<longleftrightarrow> u < c \<or> u - c < N - c" for u :: u64
    using c by uint_arith
  then show ?thesis unfolding region_def set_eq_iff by (simp add: algebra_simps diff_diff_eq)
qed

lemma sep_split: "0 < c \<Longrightarrow> c < N \<Longrightarrow> sep b c (b + c) (N - c)"
proof -
  assume c: "0 < c" "c < N"
  then have "c \<noteq> 0" by auto
  then have "unat (- c) = 2 ^ 64 - unat c" by (rule unat_minus64)
  moreover have "unat (N - c) = unat N - unat c" using c by (simp add: unat_sub)
  ultimately have "N - c \<le> - c"
    using c unat_less64 [of N] unfolding word_le_nat_alt word_less_nat_alt by linarith
  then show ?thesis by (simp add: sep_def)
qed

lemma sep_join:
  assumes "sep b p d k" "sep (b + p) q d k" "0 < p" "0 < q" "0 < k"
  shows "sep b (p + q) d k"
proof -
  define u where "u = d - b"
  have u: "p \<le> u" "q \<le> u - p" "k \<le> - u"
    using assms by (simp_all add: sep_def u_def algebra_simps)
  have "unat (u - p) = unat u - unat p" using u(1) by (simp add: unat_sub)
  then have s: "unat p + unat q \<le> unat u" using u by (simp add: word_le_nat_alt)
  then have "unat (p + q) = unat p + unat q"
    using unat_less64 [of u] by (simp add: unat_word_ariths)
  with s u(3) show ?thesis by (simp add: sep_def word_le_nat_alt u_def)
qed

lemma sep_adjacent_sum: "sep b p (b + p) q \<Longrightarrow> p \<noteq> 0 \<Longrightarrow> unat p + unat q \<le> 2 ^ 64"
  using unat_minus64 [of p] unat_less64 [of p] by (simp add: sep_def word_le_nat_alt)

lemma dvd_unat_add: "2 ^ k dvd unat x \<Longrightarrow> 2 ^ k dvd unat y \<Longrightarrow> k \<le> 64 \<Longrightarrow> 2 ^ k dvd unat (x + y :: u64)"
proof -
  assume "2 ^ k dvd unat x" "2 ^ k dvd unat y" "k \<le> 64"
  moreover from calculation have "(2::nat) ^ k dvd 2 ^ 64" by (intro le_imp_power_dvd)
  ultimately have "2 ^ k dvd (unat x + unat y) mod 2 ^ 64" by (intro dvd_mod dvd_add)
  then show ?thesis by (simp add: unat_word_ariths)
qed

lemmas dvd16_add = dvd_unat_add [of 4, simplified]

lemma region_cover: "c \<noteq> 0 \<Longrightarrow> 0 - (b + c) < - c \<or> 0 - b < (c :: u64)"
proof (cases "- b < c")
  case False
  assume c: "c \<noteq> 0"
  have "unat (- b - c) = unat (- b) - unat c" using False by (simp add: unat_sub)
  moreover have "unat c \<le> unat (- b)" using False by (simp only: word_less_nat_alt not_less)
  ultimately have "unat (- b - c) < unat (- c)"
    using unat_minus64 [OF c] unat_less64 [of "- b"] by simp
  then show ?thesis by (simp add: word_less_nat_alt diff_diff_eq algebra_simps)
qed simp

lemma left_of_notin:
  fixes c :: "'b::zero"
  shows "c \<in> set X \<Longrightarrow> distinct (X @ Z @ Y) \<Longrightarrow> 0 \<notin> set X \<Longrightarrow>
     c \<notin> set Z \<and> c \<noteq> hd (Y @ [0])"
  by (cases Y) auto

lemma right_of_notin:
  "c \<in> set Y \<Longrightarrow> distinct (Z @ y # Y) \<Longrightarrow> c \<notin> set Z \<and> c \<noteq> y"
  by auto

lemma disjoint_sep: "region a n \<inter> region b k = {} \<Longrightarrow> 0 < n \<Longrightarrow> 0 < k \<Longrightarrow> sep a n b k"
proof -
  assume d: "region a n \<inter> region b k = {}" "0 < n" "0 < k"
  then have "a \<in> region a n" "b \<in> region b k" by (simp_all add: region_iff)
  with d(1) have "b \<notin> region a n" "a \<notin> region b k" by auto
  then have "\<not> b - a < n" "\<not> a - b < k" by (simp_all only: region_iff not_False_eq_True)
  then show ?thesis unfolding sep_def not_less by blast
qed

section \<open>Byte memory with 64-bit accesses\<close>

text \<open>RV64 is little endian: byte \<open>i\<close> of a stored word is at offset \<open>i\<close>.\<close>

definition store64 :: "u64 \<Rightarrow> u64 \<Rightarrow> memory \<Rightarrow> memory" where
  "store64 a v m =
     (\<lambda>x. if x - a < 8 then ucast (drop_bit (8 * unat (x - a)) v) else m x)"

definition load64 :: "memory \<Rightarrow> u64 \<Rightarrow> u64" where
  "load64 m a =
     ucast (m a) OR push_bit 8 (ucast (m (a + 1))) OR
     push_bit 16 (ucast (m (a + 2))) OR push_bit 24 (ucast (m (a + 3))) OR
     push_bit 32 (ucast (m (a + 4))) OR push_bit 40 (ucast (m (a + 5))) OR
     push_bit 48 (ucast (m (a + 6))) OR push_bit 56 (ucast (m (a + 7)))"

definition load16 :: "memory \<Rightarrow> u64 \<Rightarrow> u16" where
  "load16 m a = ucast (m a) OR push_bit 8 (ucast (m (a + 1)))"

definition load32 :: "memory \<Rightarrow> u64 \<Rightarrow> u32" where
  "load32 m a =
     ucast (m a) OR push_bit 8 (ucast (m (a + 1))) OR
     push_bit 16 (ucast (m (a + 2))) OR push_bit 24 (ucast (m (a + 3)))"

definition store32 :: "u64 \<Rightarrow> u32 \<Rightarrow> memory \<Rightarrow> memory" where
  "store32 a v m =
     (\<lambda>x. if x - a < 4 then ucast (drop_bit (8 * unat (x - a)) v) else m x)"

lemma bit_u8_high: "8 \<le> j \<Longrightarrow> \<not> bit (b::u8) j"
  using bit_imp_le_length [of b j] by auto

lemma bit_byte_in_u64:
  "bit (push_bit k (ucast (b::u8)) :: u64) n \<longleftrightarrow> k \<le> n \<and> n < 64 \<and> n - k < 8 \<and> bit b (n - k)"
  "bit (ucast (b::u8) :: u64) n \<longleftrightarrow> n < 8 \<and> bit b n"
  by (auto simp: bit_simps dest: bit_u8_high) (meson bit_u8_high not_le)+

lemma bit_byte_in_u32:
  "bit (push_bit k (ucast (b::u8)) :: u32) n \<longleftrightarrow> k \<le> n \<and> n < 32 \<and> n - k < 8 \<and> bit b (n - k)"
  "bit (ucast (b::u8) :: u32) n \<longleftrightarrow> n < 8 \<and> bit b n"
  by (auto simp: bit_simps dest: bit_u8_high) (meson bit_u8_high not_le)+

lemma bit_load64:
  assumes "n < 64"
  shows "bit (load64 m a) n = bit (m (a + of_nat (n div 8))) (n mod 8)"
proof -
  define k r where "k = n div 8" and "r = n mod 8"
  have n: "n = 8 * k + r" "r < 8" "k < 8" using assms by (auto simp: k_def r_def)
  then consider "k = 0" | "k = 1" | "k = 2" | "k = 3" | "k = 4" | "k = 5" | "k = 6" | "k = 7"
    by linarith
  then show ?thesis unfolding k_def [symmetric] r_def [symmetric] unfolding n(1) using n(2)
    by cases (simp_all add: load64_def bit_or_iff bit_byte_in_u64)
qed

lemma bit_load32:
  assumes "n < 32"
  shows "bit (load32 m a) n = bit (m (a + of_nat (n div 8))) (n mod 8)"
proof -
  define k r where "k = n div 8" and "r = n mod 8"
  have n: "n = 8 * k + r" "r < 8" "k < 4" using assms by (auto simp: k_def r_def)
  then consider "k = 0" | "k = 1" | "k = 2" | "k = 3" by linarith
  then show ?thesis unfolding k_def [symmetric] r_def [symmetric] unfolding n(1) using n(2)
    by cases (simp_all add: load32_def bit_or_iff bit_byte_in_u32)
qed

lemma load64_store64_same [simp]: "load64 (store64 a v m) a = v"
proof (rule bit_word_eqI)
  fix n assume "n < LENGTH(64)"
  then have n: "n < 64" by simp
  have k: "n div 8 < 8" using n by auto
  then have "of_nat (n div 8) < (8::u64)"
    by (simp add: word_less_nat_alt unat_of_nat)
  then show "bit (load64 (store64 a v m) a) n = bit v n"
    using k n by (simp add: bit_load64 store64_def bit_simps unat_of_nat)
qed

lemma load32_store32_same [simp]: "load32 (store32 a v m) a = v"
proof (rule bit_word_eqI)
  fix n assume "n < LENGTH(32)"
  then have n: "n < 32" by simp
  have k: "n div 8 < 4" using n by auto
  then have "of_nat (n div 8) < (4::u64)"
    by (simp add: word_less_nat_alt unat_of_nat)
  then show "bit (load32 (store32 a v m) a) n = bit v n"
    using k n by (simp add: bit_load32 store32_def bit_simps unat_of_nat)
qed

lemma load64_cong: "(\<And>x. x \<in> region a 8 \<Longrightarrow> m x = m' x) \<Longrightarrow> load64 m a = load64 m' a"
  by (auto simp: load64_def region_def)

lemma load32_cong: "(\<And>x. x \<in> region a 4 \<Longrightarrow> m x = m' x) \<Longrightarrow> load32 m a = load32 m' a"
  by (auto simp: load32_def region_def)

lemma store64_other: "x \<notin> region a 8 \<Longrightarrow> store64 a v m x = m x"
  by (simp add: store64_def region_def)

lemma store32_other: "x \<notin> region a 4 \<Longrightarrow> store32 a v m x = m x"
  by (simp add: store32_def region_def)

lemma load64_store64_sep: "sep a 8 b 8 \<Longrightarrow> load64 (store64 a v m) b = load64 m b"
  by (rule load64_cong) (metis sep_notin store64_other)

lemma load64_store32_sep: "sep a 4 b 8 \<Longrightarrow> load64 (store32 a v m) b = load64 m b"
  by (rule load64_cong) (metis sep_notin store32_other)

lemma load32_store64_sep: "sep a 8 b 4 \<Longrightarrow> load32 (store64 a v m) b = load32 m b"
  by (rule load32_cong) (metis sep_notin store64_other)

lemma load32_store32_sep: "sep a 4 b 4 \<Longrightarrow> load32 (store32 a v m) b = load32 m b"
  by (rule load32_cong) (metis sep_notin store32_other)

lemmas load_store_sep [mem_simps] =
  load64_store64_sep load64_store32_sep load32_store64_sep load32_store32_sep

text \<open>
  A field of an object: two objects of \<open>n\<close> bytes that are equal or disjoint, and two fields at
  offsets that are equal or disjoint.
\<close>

lemma load64_store64_field:
  assumes "x = y \<or> sep x n y n" "i \<le> n" "8 \<le> n - i" "j \<le> n" "8 \<le> n - j"
    and "i = j \<or> sep i 8 j 8"
  shows "load64 (store64 (x + i) v m) (y + j) = (if x = y \<and> i = j then v else load64 m (y + j))"
proof (cases "x = y")
  case True
  then show ?thesis using assms(6) by (auto simp: sep_def intro!: load64_store64_sep)
next
  case False
  then have "sep (x + i) 8 (y + j) 8" using assms by (auto intro!: sep_off [of x n y n])
  with False show ?thesis by (simp add: load64_store64_sep)
qed

section \<open>Frames\<close>

text \<open>\<open>only_changes S m m'\<close>: going from \<open>m\<close> to \<open>m'\<close> writes bytes of \<open>S\<close> only.\<close>

definition only_changes :: "u64 set \<Rightarrow> memory \<Rightarrow> memory \<Rightarrow> bool" where
  "only_changes S m m' \<longleftrightarrow> (\<forall>x. x \<notin> S \<longrightarrow> m' x = m x)"

lemma only_changesI: "(\<And>x. x \<notin> S \<Longrightarrow> m' x = m x) \<Longrightarrow> only_changes S m m'"
  by (simp add: only_changes_def)

lemma only_changesD: "only_changes S m m' \<Longrightarrow> x \<notin> S \<Longrightarrow> m' x = m x"
  by (simp add: only_changes_def)

lemma only_changes_refl [simp]: "only_changes S m m"
  by (simp add: only_changes_def)

lemma only_changes_mono: "only_changes S m m' \<Longrightarrow> S \<subseteq> T \<Longrightarrow> only_changes T m m'"
  by (auto simp: only_changes_def)

lemma only_changes_trans:
  "only_changes S m m' \<Longrightarrow> only_changes T m' m'' \<Longrightarrow> only_changes (S \<union> T) m m''"
  by (auto simp: only_changes_def)

lemma only_changes_trans':
  "only_changes S m m' \<Longrightarrow> only_changes S m' m'' \<Longrightarrow> only_changes S m m''"
  by (auto simp: only_changes_def)

lemma only_changes_store64 [frame_intros]:
  "region a 8 \<subseteq> S \<Longrightarrow> only_changes S m m' \<Longrightarrow> only_changes S m (store64 a v m')"
  by (metis only_changes_def store64_other subsetD)

lemma only_changes_store32 [frame_intros]:
  "region a 4 \<subseteq> S \<Longrightarrow> only_changes S m m' \<Longrightarrow> only_changes S m (store32 a v m')"
  by (metis only_changes_def store32_other subsetD)

lemma only_changes_load64:
  "only_changes S m m' \<Longrightarrow> region a 8 \<inter> S = {} \<Longrightarrow> load64 m' a = load64 m a"
  by (rule load64_cong) (auto simp: only_changes_def)

lemma only_changes_load32:
  "only_changes S m m' \<Longrightarrow> region a 4 \<inter> S = {} \<Longrightarrow> load32 m' a = load32 m a"
  by (rule load32_cong) (auto simp: only_changes_def)

end
