(* ===== verification/Machine.thy ===== *)
theory Machine
  imports Prelude
begin

text \<open>
  The machine under the kernel: physical memory, the 16550 UART of \<^verbatim>\<open>drivers/uart.c\<close>, the
  control registers of \<^verbatim>\<open>include/arch/riscv/csr.h\<close>, the calls into the SBI firmware of
  \<^verbatim>\<open>kernel/sbi.c\<close> and the byte loops \<open>mem_zero\<close> and \<open>mem_copy\<close>. The record
  \<open>machine\<close> is extended by each component's own state, so an operation of a lower
  component applies unchanged to the whole kernel's state.
\<close>

section \<open>State\<close>

record sbi_call =
  sbi_ext :: u64
  sbi_fid :: u64
  sbi_args :: "u64 list"

record sbiret =
  sbi_error :: u64
  sbi_value :: u64

text \<open>
  \<open>uart_rx\<close> is the receive buffer, \<open>uart_in\<close> what the terminal has still to send and
  \<open>uart_tx\<close> everything written to the transmit register so far. The firmware is not part of
  the repository: \<open>sbi_calls\<close> records the calls made to it and \<open>sbi_reply\<close> is a parameter,
  the function that answers them.
\<close>

record machine =
  mem :: memory
  uart_tx :: "u8 list"
  uart_rx :: "u8 list"
  uart_in :: "u8 list"
  csr_satp :: u64
  csr_sstatus :: u64
  csr_stvec :: u64
  csr_sie :: u64
  csr_scause :: u64
  csr_stval :: u64
  csr_sepc :: u64
  csr_time :: u64
  sbi_calls :: "sbi_call list"
  sbi_reply :: "sbi_call \<Rightarrow> sbiret"

section \<open>Control registers\<close>

definition SSTATUS_SPIE :: u64 where "SSTATUS_SPIE = push_bit 5 1"
definition SSTATUS_SUM :: u64 where "SSTATUS_SUM = push_bit 18 1"
definition SIE_STIE :: u64 where "SIE_STIE = push_bit 5 1"
definition SCAUSE_INTERRUPT :: u64 where "SCAUSE_INTERRUPT = push_bit 63 1"
definition SCAUSE_USER_ECALL :: u64 where "SCAUSE_USER_ECALL = 8"
definition SCAUSE_SUPERVISOR_TIMER :: u64 where "SCAUSE_SUPERVISOR_TIMER = 5"
definition SATP_MODE_SV39 :: u64 where "SATP_MODE_SV39 = push_bit 60 8"

definition csr_read_scause :: "'a machine_scheme \<Rightarrow> u64" where
  "csr_read_scause s = csr_scause s"

definition csr_read_sepc :: "'a machine_scheme \<Rightarrow> u64" where
  "csr_read_sepc s = csr_sepc s"

definition csr_write_sepc :: "u64 \<Rightarrow> 'a machine_scheme \<Rightarrow> 'a machine_scheme" where
  "csr_write_sepc v s = s\<lparr>csr_sepc := v\<rparr>"

definition csr_read_stval :: "'a machine_scheme \<Rightarrow> u64" where
  "csr_read_stval s = csr_stval s"

definition csr_write_stvec :: "ptr \<Rightarrow> 'a machine_scheme \<Rightarrow> 'a machine_scheme" where
  "csr_write_stvec a s = s\<lparr>csr_stvec := a\<rparr>"

definition csr_read_time :: "'a machine_scheme \<Rightarrow> u64" where
  "csr_read_time s = csr_time s"

definition csr_read_sstatus :: "'a machine_scheme \<Rightarrow> u64" where
  "csr_read_sstatus s = csr_sstatus s"

definition csr_write_sstatus :: "u64 \<Rightarrow> 'a machine_scheme \<Rightarrow> 'a machine_scheme" where
  "csr_write_sstatus v s = s\<lparr>csr_sstatus := v\<rparr>"

definition csr_read_sie :: "'a machine_scheme \<Rightarrow> u64" where
  "csr_read_sie s = csr_sie s"

definition csr_write_sie :: "u64 \<Rightarrow> 'a machine_scheme \<Rightarrow> 'a machine_scheme" where
  "csr_write_sie v s = s\<lparr>csr_sie := v\<rparr>"

definition csr_read_satp :: "'a machine_scheme \<Rightarrow> u64" where
  "csr_read_satp s = csr_satp s"

definition csr_write_satp :: "u64 \<Rightarrow> 'a machine_scheme \<Rightarrow> 'a machine_scheme" where
  "csr_write_satp v s = s\<lparr>csr_satp := v\<rparr>"

lemmas csr_defs =
  csr_read_scause_def csr_read_sepc_def csr_write_sepc_def csr_read_stval_def
  csr_write_stvec_def csr_read_time_def csr_read_sstatus_def csr_write_sstatus_def
  csr_read_sie_def csr_write_sie_def csr_read_satp_def csr_write_satp_def

section \<open>UART\<close>

definition uart_putc :: "u8 \<Rightarrow> 'a machine_scheme \<Rightarrow> 'a machine_scheme" where
  "uart_putc c s = s\<lparr>uart_tx := uart_tx s @ [c]\<rparr>"

text \<open>The string is the list of its bytes before the terminating NUL.\<close>

fun uart_puts :: "u8 list \<Rightarrow> 'a machine_scheme \<Rightarrow> 'a machine_scheme" where
  "uart_puts [] s = s"
| "uart_puts (c # cs) s =
     uart_puts cs (uart_putc c (if c = 10 then uart_putc 13 s else s))"

definition uart_has_data :: "'a machine_scheme \<Rightarrow> bool" where
  "uart_has_data s \<longleftrightarrow> uart_rx s \<noteq> []"

text \<open>The terminal sends its next byte, if it has one.\<close>

definition uart_deliver :: "'a machine_scheme \<Rightarrow> 'a machine_scheme" where
  "uart_deliver s =
     (case uart_in s of [] \<Rightarrow> s
      | c # cs \<Rightarrow> s\<lparr>uart_rx := uart_rx s @ [c], uart_in := cs\<rparr>)"

text \<open>
  \<open>uart_getc\<close> spins until the receive buffer is not empty. The loop ends when the terminal
  sends a byte; with nothing left to arrive it spins forever, which is \<open>None\<close>.
\<close>

definition uart_getc :: "'a machine_scheme \<Rightarrow> (u8 \<times> 'a machine_scheme) option" where
  "uart_getc s =
     (let s' = (if uart_has_data s then s else uart_deliver s)
      in case uart_rx s' of [] \<Rightarrow> None
         | c # cs \<Rightarrow> Some (c, s'\<lparr>uart_rx := cs\<rparr>))"

section \<open>SBI\<close>

definition sbi_ecall :: "u64 \<Rightarrow> u64 \<Rightarrow> u64 list \<Rightarrow> 'a machine_scheme \<Rightarrow> sbiret \<times> 'a machine_scheme" where
  "sbi_ecall ext fid args s =
     (let c = \<lparr>sbi_ext = ext, sbi_fid = fid, sbi_args = args\<rparr>
      in (sbi_reply s c, s\<lparr>sbi_calls := sbi_calls s @ [c]\<rparr>))"

definition sbi_shutdown :: "'a machine_scheme \<Rightarrow> 'a machine_scheme" where
  "sbi_shutdown s = snd (sbi_ecall 0x53525354 0 [0, 0, 0, 0, 0, 0] s)"

definition sbi_set_timer :: "u64 \<Rightarrow> 'a machine_scheme \<Rightarrow> 'a machine_scheme" where
  "sbi_set_timer stime_value s = snd (sbi_ecall 0x54494D45 0 [stime_value, 0, 0, 0, 0, 0] s)"

section \<open>Byte loops\<close>

function mem_zero_from :: "ptr \<Rightarrow> u64 \<Rightarrow> u64 \<Rightarrow> memory \<Rightarrow> memory" where
  "mem_zero_from p n i m =
     (if i < n then mem_zero_from p n (i + 1) (m(p + i := 0)) else m)"
  by pat_completeness auto
termination
  by (relation "measure (\<lambda>(p, n, i, m). unat n - unat i)") (auto intro: word_plus_one_measure)

declare mem_zero_from.simps [simp del]

definition mem_zero :: "ptr \<Rightarrow> u64 \<Rightarrow> memory \<Rightarrow> memory" where
  "mem_zero dst n m = mem_zero_from dst n 0 m"

function mem_copy_from :: "ptr \<Rightarrow> ptr \<Rightarrow> u64 \<Rightarrow> u64 \<Rightarrow> memory \<Rightarrow> memory" where
  "mem_copy_from d s n i m =
     (if i < n then mem_copy_from d s n (i + 1) (m(d + i := m (s + i))) else m)"
  by pat_completeness auto
termination
  by (relation "measure (\<lambda>(d, s, n, i, m). unat n - unat i)")
    (auto intro: word_plus_one_measure)

declare mem_copy_from.simps [simp del]

definition mem_copy :: "ptr \<Rightarrow> ptr \<Rightarrow> u64 \<Rightarrow> memory \<Rightarrow> memory" where
  "mem_copy dst src n m = mem_copy_from dst src n 0 m"

lemma mem_zero_from_eq:
  "i \<le> n \<Longrightarrow>
   mem_zero_from p n i m = (\<lambda>x. if i \<le> x - p \<and> x - p < n then 0 else m x)"
proof (induction p n i m rule: mem_zero_from.induct)
  case (1 p n i m)
  show ?case
  proof (cases "i < n")
    case True
    then have le: "i + 1 \<le> n" by (simp add: word_le_nat_alt unat_plus_one word_less_nat_alt)
    have "i + 1 \<le> x - p \<or> x = p + i \<longleftrightarrow> i \<le> x - p" for x
      using word_suc_le_iff [OF True, of "x - p"] by (auto simp: algebra_simps)
    with True show ?thesis
      unfolding mem_zero_from.simps [of p n i m] if_P [OF True] 1(1) [OF True le]
      by (intro ext) auto
  next
    case False
    with 1(2) show ?thesis
      unfolding mem_zero_from.simps [of p n i m] if_not_P [OF False] by (intro ext) auto
  qed
qed

lemma mem_zero_eq: "mem_zero p n m = (\<lambda>x. if x \<in> region p n then 0 else m x)"
  by (simp add: mem_zero_def mem_zero_from_eq region_iff)

lemma mem_copy_from_eq:
  "i \<le> n \<Longrightarrow> region d n \<inter> region s n = {} \<Longrightarrow>
   mem_copy_from d s n i m =
     (\<lambda>x. if i \<le> x - d \<and> x - d < n then m (s + (x - d)) else m x)"
proof (induction d s n i m rule: mem_copy_from.induct)
  case (1 d s n i m)
  show ?case
  proof (cases "i < n")
    case True
    then have le: "i + 1 \<le> n" by (simp add: word_le_nat_alt unat_plus_one word_less_nat_alt)
    have step: "i + 1 \<le> x - d \<or> x = d + i \<longleftrightarrow> i \<le> x - d" for x
      using word_suc_le_iff [OF True, of "x - d"] by (auto simp: algebra_simps)
    have src: "s + (x - d) \<noteq> d + i" if "x - d < n" for x
    proof
      assume e: "s + (x - d) = d + i"
      have d:  "d + i \<in> region d n" using True by (simp add: region_iff)
      have "s + (x - d) \<in> region s n"
        unfolding region_iff using that by (simp only: add_diff_cancel_left')
      with d show False using 1(3) unfolding e by (metis disjoint_iff)
    qed
    show ?thesis
      unfolding mem_copy_from.simps [of d s n i m] if_P [OF True] 1(1) [OF True le 1(3)]
    proof (rule ext, goal_cases)
      case (1 x)
      show ?case
      proof (cases "x - d < n")
        case lt: True
        show ?thesis using step [of x] src [OF lt] lt by (cases "x = d + i") simp_all
      next
        case False
        with True have "x \<noteq> d + i" by auto
        with False show ?thesis by simp
      qed
    qed
  next
    case False
    with 1(2) show ?thesis
      unfolding mem_copy_from.simps [of d s n i m] if_not_P [OF False] by (intro ext) auto
  qed
qed

lemma mem_copy_eq:
  "region d n \<inter> region s n = {} \<Longrightarrow>
   mem_copy d s n m = (\<lambda>x. if x \<in> region d n then m (s + (x - d)) else m x)"
  by (simp add: mem_copy_def mem_copy_from_eq region_iff)

lemma only_changes_mem_zero [frame_intros]:
  "region p n \<subseteq> S \<Longrightarrow> only_changes S m m' \<Longrightarrow> only_changes S m (mem_zero p n m')"
  by (auto simp: only_changes_def mem_zero_eq)

lemma mem_copy_from_changes:
  "only_changes (region d n) m (mem_copy_from d s n i m)"
proof (induction d s n i m rule: mem_copy_from.induct)
  case (1 d s n i m)
  show ?case
  proof (cases "i < n")
    case True
    have "only_changes (region d n) m (m(d + i := m (s + i)))"
      using True by (auto simp: only_changes_def region_iff)
    from only_changes_trans' [OF this 1 [OF True]] True show ?thesis
      by (simp only: mem_copy_from.simps [of d s n i m] if_True)
  qed (simp add: mem_copy_from.simps [of d s n i m])
qed

lemma only_changes_mem_copy [frame_intros]:
  assumes "region d n \<subseteq> S" "only_changes S m m'"
  shows "only_changes S m (mem_copy d s n m')"
  unfolding mem_copy_def
  by (rule only_changes_trans' [OF assms(2) only_changes_mono [OF mem_copy_from_changes assms(1)]])

end
