(* ===== verification/Printk.thy ===== *)
theory Printk
  imports Machine
begin

text \<open>
  \<^verbatim>\<open>kernel/printk.c\<close>: the decimal and hexadecimal printers and the format interpreter. A
  format string is the list of its characters before the NUL; the variable arguments are a
  list whose elements carry the type the caller passed, and a conversion that fetches an
  argument of another type, or one that is not there, is undefined behaviour in C and \<open>None\<close>
  here. The locale \<open>byte_sink\<close> is what the printers need of the routine they print with; it is
  shared with the user library's \<open>printf\<close>.
\<close>

section \<open>Byte sinks\<close>

abbreviation ch :: "char \<Rightarrow> u8" where "ch c \<equiv> of_char c"

locale byte_sink =
  fixes putc :: "u8 \<Rightarrow> 's \<Rightarrow> 's"
    and out :: "'s \<Rightarrow> u8 list"
  assumes out_putc: "out (putc c s) = out s @ [c]"
begin

lemma out_fold_putc: "out (fold putc cs s) = out s @ cs"
  by (induction cs arbitrary: s) (simp_all add: out_putc)

lemma fold_putc_extends: "\<exists>t. out (fold putc cs s) = out s @ t"
  using out_fold_putc by blast

end

interpretation uart: byte_sink uart_putc uart_tx
  by unfold_locales (simp add: uart_putc_def)

section \<open>Numbers\<close>

text \<open>
  The digits of \<open>x\<close> go into \<open>buf\<close> from the least significant one; the second loop of
  \<open>print_dec\<close> and \<open>print_udec\<close> prints the buffer backwards. \<open>buf\<close> has room for 20
  characters in C; \<open>length_dec_digits\<close> shows that it never holds more.
\<close>

function dec_digits :: "u64 \<Rightarrow> u8 list \<Rightarrow> u8 list" where
  "dec_digits x buf =
     (if x > 0 then dec_digits (x div 10) (buf @ [ucast (48 + x mod 10)]) else buf)"
  by pat_completeness auto
termination
  by (relation "measure (\<lambda>(x, buf). unat x)") (auto simp: unat_div word_gt_0 unat_gt_0)

declare dec_digits.simps [simp del]

definition print_udec :: "u64 \<Rightarrow> 'a machine_scheme \<Rightarrow> 'a machine_scheme" where
  "print_udec x s =
     (if x = 0 then uart_putc (ch CHR ''0'') s
      else fold uart_putc (rev (dec_digits x [])) s)"

definition print_dec :: "u64 \<Rightarrow> 'a machine_scheme \<Rightarrow> 'a machine_scheme" where
  "print_dec value s =
     (let s = (if value <s 0 then uart_putc (ch CHR ''-'') s else s);
          x = (if value <s 0 then - value else value)
      in if x = 0 then uart_putc (ch CHR ''0'') s
         else fold uart_putc (rev (dec_digits x [])) s)"

definition hex_digits :: "char list" where
  "hex_digits = ''0123456789abcdef''"

text \<open>\<open>print_hex_from i started x\<close> is the loop of \<open>print_hex\<close> from index \<open>i - 1\<close> down to 0.\<close>

fun print_hex_from :: "nat \<Rightarrow> bool \<Rightarrow> u64 \<Rightarrow> 'a machine_scheme \<Rightarrow> 'a machine_scheme" where
  "print_hex_from 0 started x s = s"
| "print_hex_from (Suc i) started x s =
     (let nibble = drop_bit (i * 4) x AND 0xf
      in if nibble \<noteq> 0 \<or> started \<or> i = 0
         then print_hex_from i True x (uart_putc (ch (hex_digits ! unat nibble)) s)
         else print_hex_from i started x s)"

definition print_hex :: "u64 \<Rightarrow> 'a machine_scheme \<Rightarrow> 'a machine_scheme" where
  "print_hex x s = print_hex_from 16 False x s"

section \<open>The format interpreter\<close>

datatype parg =
    AInt u32
  | ALong u64
  | APtr u64
  | AStr "u8 list option"

text \<open>\<open>(long)va_arg(args, int)\<close> sign-extends, \<open>(unsigned long)va_arg(args, unsigned int)\<close> does not.\<close>

definition null_string :: "u8 list" where
  "null_string = map ch ''(null)''"

fun printk_loop :: "string \<Rightarrow> parg list \<Rightarrow> 'a machine_scheme \<Rightarrow> 'a machine_scheme option" where
  "printk_loop [] args s = Some s"
| "printk_loop (c # fmt) args s =
     (if c \<noteq> CHR ''%'' then printk_loop fmt args (uart_putc (ch c) s)
      else case fmt of
        [] \<Rightarrow> Some (uart_putc (ch CHR ''%'') s)
      | d # rest \<Rightarrow>
        (if d = CHR ''%'' then printk_loop rest args (uart_putc (ch CHR ''%'') s)
         else if d = CHR ''c'' then
           (case args of AInt v # as \<Rightarrow> printk_loop rest as (uart_putc (ucast v) s) | _ \<Rightarrow> None)
         else if d = CHR ''s'' then
           (case args of AStr v # as \<Rightarrow>
              printk_loop rest as (uart_puts (case v of Some t \<Rightarrow> t | None \<Rightarrow> null_string) s)
            | _ \<Rightarrow> None)
         else if d = CHR ''d'' then
           (case args of AInt v # as \<Rightarrow> printk_loop rest as (print_dec (scast v) s) | _ \<Rightarrow> None)
         else if d = CHR ''u'' then
           (case args of AInt v # as \<Rightarrow> printk_loop rest as (print_udec (ucast v) s) | _ \<Rightarrow> None)
         else if d = CHR ''x'' then
           (case args of AInt v # as \<Rightarrow> printk_loop rest as (print_hex (ucast v) s) | _ \<Rightarrow> None)
         else if d = CHR ''l'' then
           (case rest of
              [] \<Rightarrow> None
            | e # rest' \<Rightarrow>
              (if e = CHR ''d'' then
                 (case args of ALong v # as \<Rightarrow> printk_loop rest' as (print_dec v s) | _ \<Rightarrow> None)
               else if e = CHR ''u'' then
                 (case args of ALong v # as \<Rightarrow> printk_loop rest' as (print_udec v s) | _ \<Rightarrow> None)
               else if e = CHR ''x'' then
                 (case args of ALong v # as \<Rightarrow> printk_loop rest' as (print_hex v s) | _ \<Rightarrow> None)
               else printk_loop rest' args
                 (uart_putc (ch e) (uart_putc (ch CHR ''l'') (uart_putc (ch CHR ''%'') s)))))
         else if d = CHR ''p'' then
           (case args of APtr v # as \<Rightarrow>
              printk_loop rest as (print_hex v (uart_puts (map ch ''0x'') s))
            | _ \<Rightarrow> None)
         else printk_loop rest args (uart_putc (ch d) (uart_putc (ch CHR ''%'') s))))"

text \<open>
  A format that ends in \<open>%l\<close> makes the C code print the terminating NUL and continue past
  the end of the string, which is undefined: \<open>None\<close>.
\<close>

definition printk :: "string \<Rightarrow> parg list \<Rightarrow> 'a machine_scheme \<Rightarrow> 'a machine_scheme option" where
  "printk fmt args s = printk_loop fmt args s"

declare printk_loop.simps(2) [simp del]

section \<open>What is printed, and reading it back\<close>

text \<open>
  The text a number is printed as, and the value a reader gives a text: the printers are
  correct when the second undoes the first.
\<close>

definition dec_text :: "u64 \<Rightarrow> u8 list" where
  "dec_text x = (if x = 0 then [ch CHR ''0''] else rev (dec_digits x []))"

definition dec_value :: "u8 list \<Rightarrow> nat" where
  "dec_value ds = foldl (\<lambda>a d. 10 * a + (unat d - 48)) 0 ds"

definition sdec_text :: "u64 \<Rightarrow> u8 list" where
  "sdec_text v = (if v <s 0 then ch CHR ''-'' # dec_text (- v) else dec_text v)"

definition hexval :: "u8 \<Rightarrow> nat" where
  "hexval d = (if unat d \<le> 57 then unat d - 48 else unat d - 87)"

definition hex_value :: "u8 list \<Rightarrow> nat" where
  "hex_value ds = foldl (\<lambda>a d. 16 * a + hexval d) 0 ds"

fun hex_text_from :: "nat \<Rightarrow> bool \<Rightarrow> u64 \<Rightarrow> u8 list" where
  "hex_text_from 0 started x = []"
| "hex_text_from (Suc i) started x =
     (let nibble = drop_bit (i * 4) x AND 0xf
      in if nibble \<noteq> 0 \<or> started \<or> i = 0
         then ch (hex_digits ! unat nibble) # hex_text_from i True x
         else hex_text_from i started x)"
definition hex_text :: "u64 \<Rightarrow> u8 list" where
  "hex_text x = hex_text_from 16 False x"

definition sdec_value :: "u8 list \<Rightarrow> int" where
  "sdec_value t =
     (case t of c # ds \<Rightarrow> if c = ch CHR ''-'' then - int (dec_value ds) else int (dec_value t)
      | [] \<Rightarrow> 0)"

text \<open>\<open>uart_puts\<close> writes a carriage return before each newline.\<close>

definition crlf :: "u8 list \<Rightarrow> u8 list" where
  "crlf cs = concat (map (\<lambda>c. if c = 10 then [13, 10] else [c]) cs)"

text \<open>\<open>prints s s'\<close>: the only thing that happened is that bytes were transmitted.\<close>

definition prints :: "'a machine_scheme \<Rightarrow> 'a machine_scheme \<Rightarrow> bool" where
  "prints s s' \<longleftrightarrow> (\<exists>t. s' = s\<lparr>uart_tx := uart_tx s @ t\<rparr>)"

section \<open>Decimal and hexadecimal\<close>

lemma unat_div10_less: "(x::u64) > 0 \<Longrightarrow> unat (x div 10) < unat x"
  by (simp add: unat_div unat_gt_0 word_gt_0)

lemma dec_digits_append: "dec_digits x buf = buf @ dec_digits x []"
proof (induction "unat x" arbitrary: x buf rule: less_induct)
  case less
  show ?case
  proof (cases "x > 0")
    case True
    note IH = less [OF unat_div10_less [OF True]]
    show ?thesis
      unfolding dec_digits.simps [of x buf] dec_digits.simps [of x "[]"] if_P [OF True]
        IH [of "buf @ _"] IH [of "[] @ _"] by simp
  next
    case False then show ?thesis by (simp add: dec_digits.simps)
  qed
qed

lemma dec_digits_step: "x > 0 \<Longrightarrow> dec_digits x [] = ucast (48 + x mod 10) # dec_digits (x div 10) []"
  by (subst dec_digits.simps, subst dec_digits_append) simp

lemma unat_digit: "unat (ucast (48 + x mod 10 :: u64) :: u8) = 48 + unat x mod 10"
proof -
  define d where "d = unat x mod 10"
  have d: "d < 10" unfolding d_def by (rule mod_less_divisor) simp
  have e: "unat (48 + x mod 10 :: u64) = 48 + d"
    using d by (simp add: unat_word_ariths unat_mod flip: d_def)
  show ?thesis using d by (simp add: unsigned_ucast_eq e take_bit_eq_mod flip: d_def)
qed

lemma dec_value_rev_digits: "dec_value (rev (dec_digits x [])) = unat x"
proof (induction "unat x" arbitrary: x rule: less_induct)
  case less
  show ?case
  proof (cases "x > 0")
    case True
    from less [OF unat_div10_less [OF True]] show ?thesis
      by (simp add: dec_digits_step [OF True] dec_value_def unat_digit unat_div)
  next
    case False
    then have "x = 0" by (simp add: word_gt_0)
    then show ?thesis by (simp add: dec_digits.simps dec_value_def)
  qed
qed

lemma dec_value_text: "dec_value (dec_text x) = unat x"
proof (cases "x = 0")
  case True then show ?thesis by (simp add: dec_text_def dec_value_def)
next
  case False then show ?thesis by (simp add: dec_text_def dec_value_rev_digits)
qed

lemma length_dec_digits_le: "unat x < 10 ^ k \<Longrightarrow> length (dec_digits x []) \<le> k"
proof (induction k arbitrary: x)
  case 0 then show ?case by (simp add: dec_digits.simps unat_eq_zero)
next
  case (Suc k)
  show ?case
  proof (cases "x > 0")
    case True
    have "unat (x div 10) < 10 ^ k" using Suc.prems by (simp add: unat_div less_mult_imp_div_less mult.commute)
    from Suc.IH [OF this] show ?thesis by (simp add: dec_digits_step [OF True])
  next
    case False then show ?thesis by (simp add: dec_digits.simps)
  qed
qed

lemma length_dec_digits: "length (dec_digits x []) \<le> 20"
proof (rule length_dec_digits_le)
  have "unat x < 2 ^ 64" using unsigned_less [of x] by simp
  then show "unat x < 10 ^ 20" by (rule less_trans) simp
qed

lemma dec_digits_range: "d \<in> set (dec_digits x []) \<Longrightarrow> 48 \<le> unat d \<and> unat d \<le> 57"
proof (induction "unat x" arbitrary: x rule: less_induct)
  case less
  show ?case
  proof (cases "x > 0")
    case True
    have "unat x mod 10 \<le> 9" by (simp add: less_Suc_eq_le [symmetric])
    then show ?thesis using less.prems less.hyps [OF unat_div10_less [OF True]]
      by (auto simp: dec_digits_step [OF True] unat_digit)
  next
    case False then show ?thesis using less.prems by (simp add: dec_digits.simps)
  qed
qed

lemma dec_text_digits: "d \<in> set (dec_text x) \<Longrightarrow> 48 \<le> unat d \<and> unat d \<le> 57"
  by (auto simp: dec_text_def dest: dec_digits_range split: if_splits)

lemma dec_digits_last:
  "x \<noteq> 0 \<Longrightarrow> dec_digits x [] \<noteq> [] \<and> last (dec_digits x []) \<noteq> ch CHR ''0''"
proof (induction "unat x" arbitrary: x rule: less_induct)
  case less
  then have pos: "x > 0" by (simp add: word_gt_0)
  show ?case
  proof (cases "x div 10 = 0")
    case True
    then have "unat x div 10 = 0" using unat_div [of x 10] by simp
    then have "unat x < 10" by simp
    then have nz: "unat x mod 10 \<noteq> 0" using less.prems by (simp add: unat_eq_zero)
    have "ucast (48 + x mod 10) \<noteq> (48::u8)"
    proof
      assume "ucast (48 + x mod 10) = (48::u8)"
      then have "48 + unat x mod 10 = unat (48::u8)" using unat_digit [of x] by simp
      with nz show False by simp
    qed
    then show ?thesis using True by (simp add: dec_digits_step [OF pos] dec_digits.simps [of 0])
  next
    case False
    from less.hyps [OF unat_div10_less [OF pos] False] show ?thesis
      by (simp add: dec_digits_step [OF pos])
  qed
qed

lemma dec_text_no_leading_zero: "x \<noteq> 0 \<Longrightarrow> hd (dec_text x) \<noteq> ch CHR ''0''"
  using dec_digits_last [of x] by (simp add: dec_text_def hd_rev)

lemma fold_uart_putc: "fold uart_putc cs s = s\<lparr>uart_tx := uart_tx s @ cs\<rparr>"
  by (induction cs arbitrary: s) (simp_all add: uart_putc_def)

lemma print_udec_eq: "print_udec x s = s\<lparr>uart_tx := uart_tx s @ dec_text x\<rparr>"
  by (simp add: print_udec_def dec_text_def fold_uart_putc uart_putc_def)

lemma print_dec_eq: "print_dec v s = s\<lparr>uart_tx := uart_tx s @ sdec_text v\<rparr>"
  by (simp add: print_dec_def sdec_text_def dec_text_def fold_uart_putc uart_putc_def Let_def)

lemma print_hex_from_eq:
  "print_hex_from i started x s = s\<lparr>uart_tx := uart_tx s @ hex_text_from i started x\<rparr>"
  by (induction i started x s rule: print_hex_from.induct) (simp_all add: Let_def uart_putc_def)

lemma unat_nibble: "unat (drop_bit (i * 4) x AND 0xf :: u64) = unat x div 16 ^ i mod 16"
proof -
  have "drop_bit (i * 4) x AND 0xf = take_bit 4 (drop_bit (i * 4) x)"
    by (simp add: take_bit_eq_mask mask_numeral)
  then have "unat (drop_bit (i * 4) x AND 0xf) = take_bit 4 (unat (drop_bit (i * 4) x))"
    by (simp add: unsigned_take_bit_eq)
  also have "unat (drop_bit (i * 4) x) = unat x div 2 ^ (i * 4)"
    by (simp only: unat_drop_bit_eq) (simp only: drop_bit_eq_div)
  also have "(2::nat) ^ (i * 4) = 16 ^ i"
    by (simp only: mult.commute [of i 4] power_mult) simp
  finally show ?thesis by (simp add: take_bit_eq_mod)
qed

lemma hexval_digit: "k < 16 \<Longrightarrow> hexval (ch (hex_digits ! k)) = k"
proof -
  assume "k < 16"
  then have "k \<in> set [0..<16]" by simp
  moreover have "\<forall>k\<in>set [0..<16]. hexval (ch (hex_digits ! k)) = k"
    by (simp add: upt_rec hexval_def hex_digits_def)
  ultimately show ?thesis by blast
qed

lemma hex_step: "a * (16::nat) ^ Suc i + n mod 16 ^ Suc i = (16 * a + n div 16 ^ i mod 16) * 16 ^ i + n mod 16 ^ i"
  using mod_mult2_eq [of n "16 ^ i" 16] by (simp add: algebra_simps)

lemma hex_value_started:
  "foldl (\<lambda>a d. 16 * a + hexval d) a (hex_text_from i True x) = a * 16 ^ i + unat x mod 16 ^ i"
proof (induction i arbitrary: a)
  case (Suc i)
  show ?case
    by (simp only: hex_text_from.simps Let_def simp_thms if_True foldl.simps Suc.IH hex_step)
      (simp add: unat_nibble hexval_digit)
qed simp

lemma hex_value_skip:
  "hex_value (hex_text_from i False x) = unat x mod 16 ^ i"
proof (induction i)
  case (Suc i)
  let ?n = "drop_bit (i * 4) x AND 0xf"
  show ?case
  proof (cases "?n \<noteq> 0 \<or> i = 0")
    case True
    then have "hex_value (hex_text_from (Suc i) False x) = hexval (ch (hex_digits ! unat ?n)) * 16 ^ i + unat x mod 16 ^ i"
      using hex_value_started [of "hexval (ch (hex_digits ! unat ?n))" i x] by (simp add: hex_value_def Let_def)
    then show ?thesis using hex_step [of 0 i "unat x"] by (simp add: unat_nibble hexval_digit)
  next
    case False
    then have "unat ?n = 0" by simp
    then have "unat x div 16 ^ i mod 16 = 0" by (simp only: unat_nibble)
    with hex_step [of 0 i "unat x"] False Suc.IH show ?thesis by (simp add: Let_def)
  qed
qed (simp add: hex_value_def)

lemma hex_value_text: "hex_value (hex_text x) = unat x"
proof -
  have "unat x < 2 ^ 64" using unsigned_less [of x] by simp
  then have "unat x < 16 ^ 16" by simp
  then show ?thesis unfolding hex_text_def hex_value_skip by (rule mod_less)
qed

lemma length_hex_text_from: "length (hex_text_from i st x) \<le> i"
  by (induction i st x rule: hex_text_from.induct) (auto simp: Let_def)

lemma uart_puts_eq: "uart_puts cs s = s\<lparr>uart_tx := uart_tx s @ crlf cs\<rparr>"
  by (induction cs s rule: uart_puts.induct) (simp_all add: uart_putc_def crlf_def)

lemma print_hex_eq: "print_hex x s = s\<lparr>uart_tx := uart_tx s @ hex_text x\<rparr>"
  by (simp add: print_hex_def hex_text_def print_hex_from_eq)

lemma printsI: "prints s (s\<lparr>uart_tx := uart_tx s @ t\<rparr>)"
  by (auto simp: prints_def)
lemma prints_refl: "prints s s"
  unfolding prints_def by (rule exI [of _ "[]"]) simp
lemma prints_trans: "prints s s' \<Longrightarrow> prints s' s'' \<Longrightarrow> prints s s''"
  unfolding prints_def by auto
lemma prints_ops:
  "prints s (uart_putc c s)" "prints s (uart_puts cs s)" "prints s (print_dec v s)"
  "prints s (print_udec v s)" "prints s (print_hex v s)"
  by (simp_all add: uart_putc_def uart_puts_eq print_dec_eq print_udec_eq print_hex_eq printsI)

lemmas prints_before = prints_ops [THEN prints_trans]

lemma printk_loop_prints: "printk_loop fmt args s = Some s' \<Longrightarrow> prints s s'"
proof (induction fmt arbitrary: args s rule: length_induct)
  case (1 fmt)
  have IH: "prints t s'" if "printk_loop f a t = Some s'" "length f < length fmt" for f a t
    using 1 that by blast
  show ?case
  proof (cases fmt)
    case Nil
    then show ?thesis using 1 by (simp add: prints_refl)
  next
    case (Cons c rest)
    show ?thesis
      using "1.prems" unfolding Cons printk_loop.simps(2)
      by (auto split: if_splits list.splits parg.splits simp: Cons dest!: IH intro: prints_ops dest: prints_before)
  qed
qed
lemma uint_neg_sless: "(v::u64) <s 0 \<Longrightarrow> uint (- v) = - sint v"
proof -
  assume "v <s 0"
  then have neg: "sint v < 0" by (simp add: word_sless_alt)
  have "- v = word_of_int (- sint v)" by simp
  then have "uint (- v) = (- sint v) mod 2 ^ 64" using uint_word_of_int [of "- sint v", where 'a = 64] by simp
  moreover have "- sint v < 2 ^ 64" using sint_ge [of v] by simp
  ultimately show ?thesis using neg by simp
qed

lemma uint_not_sless: "\<not> (v::u64) <s 0 \<Longrightarrow> uint v = sint v"
proof -
  assume "\<not> v <s 0"
  then have nn: "0 \<le> sint v" by (simp add: word_sless_alt)
  have "v = word_of_int (sint v)" by simp
  then have "uint v = sint v mod 2 ^ 64" using uint_word_of_int [of "sint v", where 'a = 64] by simp
  moreover have "sint v < 2 ^ 64" using sint_lt [of v] by simp
  ultimately show ?thesis using nn by simp
qed

lemma dec_text_hd: "\<exists>c ds. dec_text x = c # ds \<and> c \<noteq> ch CHR ''-''"
proof -
  have ne: "dec_text x \<noteq> []" using dec_digits_last [of x] by (simp add: dec_text_def)
  then obtain c ds where t: "dec_text x = c # ds" by (cases "dec_text x") auto
  with dec_text_digits [of c x] have "48 \<le> unat c" by simp
  then show ?thesis using t by auto
qed

lemma sdec_value_text: "sdec_value (sdec_text v) = sint v"
proof (cases "v <s 0")
  case True
  then show ?thesis by (simp add: sdec_value_def sdec_text_def dec_value_text uint_neg_sless)
next
  case False
  obtain c ds where t: "dec_text v = c # ds" "c \<noteq> ch CHR ''-''" using dec_text_hd by blast
  then have "sdec_value (dec_text v) = int (dec_value (dec_text v))" by (simp add: sdec_value_def)
  with False show ?thesis by (simp add: sdec_text_def dec_value_text uint_not_sless)
qed

section \<open>Properties\<close>


text \<open>
  C26: the digit loop of the decimal printers stores at most 20 characters, so \<open>char buf[20]\<close>
  never overflows, and it stores decimal digits only, the last of them (printed first) not a zero.
\<close>

theorem dec_buffer_bound:
  "length (dec_digits x []) \<le> 20 \<and>
   (x = 0 \<or> last (dec_digits x []) \<noteq> ch CHR ''0'') \<and>
   set (dec_digits x []) \<subseteq> {d. 48 \<le> unat d \<and> unat d \<le> 57}"
  using length_dec_digits [of x] dec_digits_last [of x] dec_digits_range [of _ x] by auto

theorem dec_buffer_bound_witness:
  "length (dec_digits 0xffffffffffffffff []) \<le> 20 \<and>
   last (dec_digits 0xffffffffffffffff []) \<noteq> ch CHR ''0''"
  using dec_buffer_bound [of "0xffffffffffffffff"] by simp

text \<open>
  C25: \<open>print_hex\<close> transmits at most 16 hexadecimal digits, whose value is the argument.
\<close>

theorem print_hex_roundtrip:
  "print_hex x s = s\<lparr>uart_tx := uart_tx s @ hex_text x\<rparr> \<and> hex_value (hex_text x) = unat x \<and>
   length (hex_text x) \<le> 16"
  using length_hex_text_from [of 16 False x] hex_value_text [of x]
  by (simp add: print_hex_eq hex_text_def)


text \<open>A machine that is off: no output, no input, zero memory.\<close>

definition idle_machine :: machine where
  "idle_machine =
     \<lparr>mem = (\<lambda>_. 0), uart_tx = [], uart_rx = [], uart_in = [], csr_satp = 0, csr_sstatus = 0,
      csr_stvec = 0, csr_sie = 0, csr_scause = 0, csr_stval = 0, csr_sepc = 0, csr_time = 0,
      sbi_calls = [], sbi_reply = (\<lambda>_. \<lparr>sbi_error = 0, sbi_value = 0\<rparr>)\<rparr>"


end
