(* ===== verification/Format.thy ===== *)
theory Format
  imports Printk
begin

text \<open>
  The text a format and its arguments stand for, as one function \<open>fmt_text\<close>, and the proof that
  \<open>printk\<close> transmits exactly this text. The user library's \<open>printf\<close> is compared with the same
  function; the two differ in what they do with a newline inside a string argument, the
  parameter \<open>nl\<close>.
\<close>

section \<open>The text of a format\<close>

definition conv :: "(u8 list \<Rightarrow> u8 list) \<Rightarrow> char \<Rightarrow> parg list \<Rightarrow> (u8 list \<times> parg list) option" where
  "conv nl d args =
     (if d = CHR ''%'' then Some ([ch CHR ''%''], args)
      else if d = CHR ''c'' then (case args of AInt v # as \<Rightarrow> Some ([ucast v], as) | _ \<Rightarrow> None)
      else if d = CHR ''s''
      then (case args of AStr v # as \<Rightarrow> Some (nl (case v of Some t \<Rightarrow> t | None \<Rightarrow> null_string), as) | _ \<Rightarrow> None)
      else if d = CHR ''d'' then (case args of AInt v # as \<Rightarrow> Some (sdec_text (scast v), as) | _ \<Rightarrow> None)
      else if d = CHR ''u'' then (case args of AInt v # as \<Rightarrow> Some (dec_text (ucast v), as) | _ \<Rightarrow> None)
      else if d = CHR ''x'' then (case args of AInt v # as \<Rightarrow> Some (hex_text (ucast v), as) | _ \<Rightarrow> None)
      else if d = CHR ''p'' then (case args of APtr v # as \<Rightarrow> Some (map ch ''0x'' @ hex_text v, as) | _ \<Rightarrow> None)
      else Some ([ch CHR ''%'', ch d], args))"

definition lconv :: "char \<Rightarrow> parg list \<Rightarrow> (u8 list \<times> parg list) option" where
  "lconv e args =
     (if e = CHR ''d'' then (case args of ALong v # as \<Rightarrow> Some (sdec_text v, as) | _ \<Rightarrow> None)
      else if e = CHR ''u'' then (case args of ALong v # as \<Rightarrow> Some (dec_text v, as) | _ \<Rightarrow> None)
      else if e = CHR ''x'' then (case args of ALong v # as \<Rightarrow> Some (hex_text v, as) | _ \<Rightarrow> None)
      else Some ([ch CHR ''%'', ch CHR ''l'', ch e], args))"

fun fmt_text :: "(u8 list \<Rightarrow> u8 list) \<Rightarrow> string \<Rightarrow> parg list \<Rightarrow> u8 list option" where
  "fmt_text nl [] args = Some []"
| "fmt_text nl (c # fmt) args =
     (if c \<noteq> CHR ''%'' then map_option (Cons (ch c)) (fmt_text nl fmt args)
      else case fmt of
        [] \<Rightarrow> Some [ch CHR ''%'']
      | d # rest \<Rightarrow>
        (if d = CHR ''l'' then
           (case rest of [] \<Rightarrow> None
            | e # rest' \<Rightarrow> do { (t, as) \<leftarrow> lconv e args; map_option ((@) t) (fmt_text nl rest' as) })
         else do { (t, as) \<leftarrow> conv nl d args; map_option ((@) t) (fmt_text nl rest as) }))"

declare fmt_text.simps(2) [simp del]

abbreviation emit :: "'a machine_scheme \<Rightarrow> u8 list \<Rightarrow> 'a machine_scheme" where
  "emit s t \<equiv> s\<lparr>uart_tx := uart_tx s @ t\<rparr>"

section \<open>printk\<close>

lemmas emit_ops = uart_putc_def uart_puts_eq print_dec_eq print_udec_eq print_hex_eq

lemma printk_conv:
  assumes "d \<noteq> CHR ''l''"
  shows "printk_loop (CHR ''%'' # d # rest) args s =
    (case conv crlf d args of None \<Rightarrow> None | Some (t, as) \<Rightarrow> printk_loop rest as (emit s t))"
proof -
  note defs = printk_loop.simps(2) conv_def emit_ops
  consider "d = CHR ''%''" | "d = CHR ''c''" | "d = CHR ''s''" | "d = CHR ''d''" | "d = CHR ''u''" | "d = CHR ''x''"
    | "d = CHR ''p''" | "d \<notin> set ''%csduxpl''" using assms by auto
  then show ?thesis
    by cases (auto simp: defs crlf_def split: list.split parg.split)
qed

lemma printk_lconv:
  "printk_loop (CHR ''%'' # CHR ''l'' # e # rest) args s =
    (case lconv e args of None \<Rightarrow> None | Some (t, as) \<Rightarrow> printk_loop rest as (emit s t))"
proof -
  note defs = printk_loop.simps(2) lconv_def emit_ops
  consider "e = CHR ''d''" | "e = CHR ''u''" | "e = CHR ''x''" | "e \<notin> set ''dux''" by auto
  then show ?thesis by cases (auto simp: defs split: list.split parg.split)
qed

lemma printk_plain: "c \<noteq> CHR ''%'' \<Longrightarrow> printk_loop (c # fmt) args s = printk_loop fmt args (emit s [ch c])"
  by (simp add: printk_loop.simps(2) uart_putc_def)

lemma printk_ends:
  "printk_loop ''%'' args s = Some (emit s [ch CHR ''%''])" "printk_loop ''%l'' args s = None"
  by (simp_all add: printk_loop.simps(2) uart_putc_def)

lemma fmt_text_cases:
  "c \<noteq> CHR ''%'' \<Longrightarrow> fmt_text nl (c # fmt) args = map_option (Cons (ch c)) (fmt_text nl fmt args)"
  "fmt_text nl ''%'' args = Some [ch CHR ''%'']"
  "fmt_text nl ''%l'' args = None"
  "fmt_text nl (CHR ''%'' # CHR ''l'' # e # rest) args =
     do { (t, as) \<leftarrow> lconv e args; map_option ((@) t) (fmt_text nl rest as) }"
  "d \<noteq> CHR ''l'' \<Longrightarrow> fmt_text nl (CHR ''%'' # d # rest) args =
     do { (t, as) \<leftarrow> conv nl d args; map_option ((@) t) (fmt_text nl rest as) }"
  by (simp_all add: fmt_text.simps(2))

lemma fmt_split:
  obtains "fmt = []" | c r where "fmt = c # r" "c \<noteq> CHR ''%''" | "fmt = ''%''" | "fmt = ''%l''"
    | e r where "fmt = CHR ''%'' # CHR ''l'' # e # r" | d r where "fmt = CHR ''%'' # d # r" "d \<noteq> CHR ''l''"
proof (cases fmt)
  case c: (Cons c r)
  show ?thesis
  proof (cases r)
    case Nil then show ?thesis using c that(2,3) by (cases "c = CHR ''%''") simp_all
  next
    case d: (Cons d r')
    then show ?thesis using c that(2,4,5,6) by (cases "c = CHR ''%''"; cases "d = CHR ''l''"; cases r') simp_all
  qed
qed (rule that)

lemma printk_emits:
  fixes s :: "'a machine_scheme"
  shows "printk fmt args s = map_option (emit s) (fmt_text crlf fmt args)"
  unfolding printk_def
proof (induction fmt arbitrary: args s rule: length_induct)
  case (1 fmt)
  have IH: "printk_loop f a t = map_option (emit t) (fmt_text crlf f a)" if "length f < length fmt"
    for f a and t :: "'a machine_scheme"
    using 1 [THEN spec, THEN mp, OF that] by simp
  show ?case
    by (cases fmt rule: fmt_split)
      (simp_all add: printk_conv printk_lconv printk_plain printk_ends fmt_text_cases IH option.map_comp comp_def
        split: option.split prod.split)
qed

text \<open>
  C20: \<open>printk\<close> transmits the text that the format and the arguments stand for, with a carriage
  return before each newline of a string argument, and does nothing else; it is undefined exactly
  when the format asks for an argument that is missing or of another type, or ends in \<open>%l\<close>.
\<close>

theorem printk_text:
  fixes s :: "'a machine_scheme"
  shows "printk fmt args s = map_option (emit s) (fmt_text crlf fmt args)"
  by (rule printk_emits)

end
