(* ===== verification/List_Head.thy ===== *)
theory List_Head
  imports Prelude
begin

text \<open>
  The intrusive doubly linked list of \<^verbatim>\<open>include/kernel/list.h\<close>, in memory: a \<open>list_head\<close> is
  16 bytes, \<open>prev\<close> at offset 0 and \<open>next\<close> at offset 8. \<open>dlist m h ns\<close> says that the circular
  list with head \<open>h\<close> holds exactly the nodes \<open>ns\<close> in this order. The locale \<open>intrusive_list\<close>
  is the contract the page allocator's free list and the task queues rely on; its
  interpretation on the code's operations closes the theory.
\<close>

section \<open>Operations\<close>

definition lprev :: "memory \<Rightarrow> ptr \<Rightarrow> ptr" where
  "lprev m n = load64 m n"

definition lnext :: "memory \<Rightarrow> ptr \<Rightarrow> ptr" where
  "lnext m n = load64 m (n + 8)"

definition set_prev :: "ptr \<Rightarrow> ptr \<Rightarrow> memory \<Rightarrow> memory" where
  "set_prev n v m = store64 n v m"

definition set_next :: "ptr \<Rightarrow> ptr \<Rightarrow> memory \<Rightarrow> memory" where
  "set_next n v m = store64 (n + 8) v m"

definition INIT_LIST_HEAD :: "ptr \<Rightarrow> memory \<Rightarrow> memory" where
  "INIT_LIST_HEAD l m = set_prev l l (set_next l l m)"

definition list_add_between :: "ptr \<Rightarrow> ptr \<Rightarrow> ptr \<Rightarrow> memory \<Rightarrow> memory" where
  "list_add_between node prv nxt m =
     set_next prv node (set_prev node prv (set_next node nxt (set_prev nxt node m)))"

definition list_add :: "ptr \<Rightarrow> ptr \<Rightarrow> memory \<Rightarrow> memory" where
  "list_add node head m = list_add_between node head (lnext m head) m"

definition list_add_tail :: "ptr \<Rightarrow> ptr \<Rightarrow> memory \<Rightarrow> memory" where
  "list_add_tail node head m = list_add_between node (lprev m head) head m"

definition list_del_between :: "ptr \<Rightarrow> ptr \<Rightarrow> memory \<Rightarrow> memory" where
  "list_del_between prv nxt m = set_next prv nxt (set_prev nxt prv m)"

definition list_del :: "ptr \<Rightarrow> memory \<Rightarrow> memory" where
  "list_del entry m =
     (let m1 = list_del_between (lprev m entry) (lnext m entry) m
      in set_prev entry entry (set_next entry entry m1))"

definition list_empty :: "memory \<Rightarrow> ptr \<Rightarrow> bool" where
  "list_empty m head \<longleftrightarrow> lnext m head = head"

text \<open>\<open>container_of\<close>, \<open>list_entry\<close> and \<open>list_first_entry\<close> subtract the member's offset.\<close>

definition list_entry :: "ptr \<Rightarrow> u64 \<Rightarrow> ptr" where
  "list_entry p offset = p - offset"

definition list_first_entry :: "memory \<Rightarrow> ptr \<Rightarrow> u64 \<Rightarrow> ptr" where
  "list_first_entry m head offset = list_entry (lnext m head) offset"

section \<open>Nodes that do not overlap\<close>

definition nsep :: "ptr \<Rightarrow> ptr \<Rightarrow> bool" where
  "nsep x y \<longleftrightarrow> x = y \<or> sep x 16 y 16"

definition nodes_ok :: "ptr list \<Rightarrow> bool" where
  "nodes_ok ns \<longleftrightarrow> distinct ns \<and> (\<forall>x\<in>set ns. \<forall>y\<in>set ns. nsep x y)"

definition fresh_node :: "ptr \<Rightarrow> ptr list \<Rightarrow> bool" where
  "fresh_node n ns \<longleftrightarrow> (\<forall>x\<in>set ns. sep n 16 x 16)"

definition dlist :: "memory \<Rightarrow> ptr \<Rightarrow> ptr list \<Rightarrow> bool" where
  "dlist m h ns \<longleftrightarrow>
     nodes_ok (h # ns) \<and> map (lnext m) (h # ns) = ns @ [h] \<and> map (lprev m) (ns @ [h]) = h # ns"

definition node_bytes :: "ptr set \<Rightarrow> u64 set" where
  "node_bytes N = (\<Union>n\<in>N. region n 16)"

lemma nsep_refl [simp]: "nsep x x"
  by (simp add: nsep_def)

lemma nsep_sym: "nsep x y \<Longrightarrow> nsep y x"
  by (auto simp: nsep_def sep_sym)

lemma sep16_neq: "sep x 16 y 16 \<Longrightarrow> x \<noteq> y"
  by (auto simp: sep_def)

lemma node_bytes_mono: "A \<subseteq> B \<Longrightarrow> node_bytes A \<subseteq> node_bytes B"
  by (auto simp: node_bytes_def)

lemma link_ops [simp]:
  "nsep x y \<Longrightarrow> lnext (set_next x v m) y = (if x = y then v else lnext m y)"
  "nsep x y \<Longrightarrow> lprev (set_next x v m) y = lprev m y"
  "nsep x y \<Longrightarrow> lprev (set_prev x v m) y = (if x = y then v else lprev m y)"
  "nsep x y \<Longrightarrow> lnext (set_prev x v m) y = lnext m y"
proof -
  assume n: "nsep x y"
  have s: "sep (x + 8) 8 (y + 8) 8" "sep (x + 8) 8 y 8" "sep x 8 y 8" "sep x 8 (y + 8) 8"
    if "sep x 16 y 16"
    using that sep_off [where c = 8 and d = 8 and n' = 8 and k' = 8]
      sep_off0' [where c = 8 and n' = 8 and k' = 8] sep_off0 [where d = 8 and n' = 8 and k' = 8]
      sep_shrink [where n' = 8 and k' = 8] by auto
  have s': "sep (x + 8) 8 x 8" "sep x 8 (x + 8) 8" by (simp_all add: sep_def)
  show "lnext (set_next x v m) y = (if x = y then v else lnext m y)"
    "lprev (set_next x v m) y = lprev m y"
    "lprev (set_prev x v m) y = (if x = y then v else lprev m y)"
    "lnext (set_prev x v m) y = lnext m y"
    using n s s'
    by (auto simp: nsep_def lnext_def lprev_def set_next_def set_prev_def mem_simps sep16_neq)
qed

lemma nodes_ok_Cons:
  "nodes_ok (n # ns) \<longleftrightarrow> nodes_ok ns \<and> fresh_node n ns"
  by (auto simp: nodes_ok_def fresh_node_def nsep_def sep_sym dest: sep16_neq)

lemma nodes_ok_perm: "nodes_ok xs \<Longrightarrow> distinct ys \<Longrightarrow> set ys \<subseteq> set xs \<Longrightarrow> nodes_ok ys"
  by (auto simp: nodes_ok_def)

lemma nodes_okD: "nodes_ok ns \<Longrightarrow> x \<in> set ns \<Longrightarrow> y \<in> set ns \<Longrightarrow> nsep x y"
  by (simp add: nodes_ok_def)

section \<open>What the operations do to a list\<close>

lemma dlist_nodes: "dlist m h ns \<Longrightarrow> nodes_ok (h # ns)"
  by (simp add: dlist_def)

lemma dlist_distinct: "dlist m h ns \<Longrightarrow> distinct (h # ns)"
  by (simp add: dlist_def nodes_ok_def)

lemma dlist_next_head: "dlist m h ns \<Longrightarrow> lnext m h = hd (ns @ [h])"
  by (cases ns) (auto simp: dlist_def)

lemma dlist_prev_head: "dlist m h ns \<Longrightarrow> lprev m h = last (h # ns)"
proof -
  assume "dlist m h ns"
  then have "last (map (lprev m) (ns @ [h])) = last (h # ns)" by (simp only: dlist_def)
  then show ?thesis by simp
qed

lemma dlist_split:
  assumes d: "dlist m h (xs @ ys)" and e: "h # xs = bs @ [p]" "ys @ [h] = q # cs"
  shows "map (lnext m) bs = xs" "lnext m p = q" "map (lnext m) ys = cs"
    "map (lprev m) xs = bs" "lprev m q = p" "map (lprev m) cs = ys"
proof -
  have c: "h # xs @ ys = bs @ p # ys" "(xs @ ys) @ [h] = xs @ q # cs"
    using e by (simp_all flip: append_Cons)
  from d have "map (lnext m) (h # xs @ ys) = (xs @ ys) @ [h]"
    and "map (lprev m) ((xs @ ys) @ [h]) = h # xs @ ys"
    by (simp_all only: dlist_def)
  then have n: "map (lnext m) bs @ lnext m p # map (lnext m) ys = xs @ q # cs"
    and p: "map (lprev m) xs @ lprev m q # map (lprev m) cs = bs @ p # ys"
    unfolding c by simp_all
  have l: "length bs = length xs" using e(1) by (metis length_Cons length_append_singleton nat.inject)
  show "map (lnext m) bs = xs" "lnext m p = q" "map (lnext m) ys = cs"
    using n l by (auto simp: append_eq_append_conv)
  show "map (lprev m) xs = bs" "lprev m q = p" "map (lprev m) cs = ys"
    using p l by (auto simp: append_eq_append_conv)
qed

lemma obtain_ends:
  obtains bs p q cs where "h # xs = bs @ [p]" "ys @ [h] = q # cs"
    "p = last (h # xs)" "q = hd (ys @ [h])"
proof -
  have "h # xs = butlast (h # xs) @ [last (h # xs)]" by simp
  moreover have "ys @ [h] = hd (ys @ [h]) # tl (ys @ [h])" by simp
  ultimately show thesis using that by blast
qed

text \<open>To read a list off its links, it is enough to know them on both sides of a split.\<close>

lemma dlist_join:
  assumes ok: "nodes_ok (h # xs @ ys)" and e: "h # xs = bs @ [p]" "ys @ [h] = q # cs"
    and l: "map (lnext m) bs = xs" "lnext m p = q" "map (lnext m) ys = cs"
    "map (lprev m) xs = bs" "lprev m q = p" "map (lprev m) cs = ys"
  shows "dlist m h (xs @ ys)"
proof -
  have c: "h # xs @ ys = bs @ p # ys" "(xs @ ys) @ [h] = xs @ q # cs"
    using e by (simp_all flip: append_Cons)
  show ?thesis unfolding dlist_def c using ok l by (simp add: c)
qed

lemma dlist_insert_between:
  assumes d: "dlist m h (xs @ ys)" and f: "fresh_node n (h # xs @ ys)"
    and p: "p = last (h # xs)" and q: "q = hd (ys @ [h])"
  shows "dlist (list_add_between n p q m) h (xs @ n # ys)"
proof -
  obtain bs cs where e: "h # xs = bs @ [p]" "ys @ [h] = q # cs"
    using obtain_ends p q by metis
  note s = dlist_split [OF d e]
  have ok: "nodes_ok (n # h # xs @ ys)"
    using dlist_nodes [OF d] f by (simp add: nodes_ok_Cons)
  have c: "h # xs @ ys = bs @ p # ys" "(xs @ ys) @ [h] = xs @ q # cs"
    using e by (simp_all flip: append_Cons)
  have dist: "distinct (n # h # xs @ ys)" using ok by (simp add: nodes_ok_def)
  have D: "distinct (n # bs @ p # ys)" using dist unfolding c .
  have "distinct (n # (xs @ ys) @ [h])" using dist by auto
  then have D': "distinct (n # xs @ q # cs)" unfolding c .
  have S: "set (h # xs @ ys) = set (bs @ p # ys)" "set (h # xs @ ys) = set (xs @ q # cs)"
    unfolding c(1) by (rule refl) (metis c list.set(2) set_append Un_commute Un_insert_left rotate1.simps(2) set_rotate1)
  define m' where "m' = list_add_between n p q m"
  have eff: "lnext m' y = (if y = p then n else if y = n then q else lnext m y)"
    "lprev m' y = (if y = n then p else if y = q then n else lprev m y)"
    if "y \<in> set (n # h # xs @ ys)" for y
  proof -
    have "p \<in> set (h # xs @ ys)" unfolding S(1) by simp
    moreover have "q \<in> set (h # xs @ ys)" unfolding S(2) by simp
    ultimately have "nsep p y" "nsep q y" "nsep n y" using nodes_okD [OF ok _ that] by auto
    then show "lnext m' y = (if y = p then n else if y = n then q else lnext m y)"
      and "lprev m' y = (if y = n then p else if y = q then n else lprev m y)"
      using D D' by (auto simp: m'_def list_add_between_def)
  qed
  have nx: "lnext m' y = (if y = p then n else if y = n then q else lnext m y)"
    if "y \<in> set (n # bs @ p # ys)" for y
    by (rule eff(1)) (use that S(1) in auto)
  have pv: "lprev m' y = (if y = n then p else if y = q then n else lprev m y)"
    if "y \<in> set (n # xs @ q # cs)" for y
    by (rule eff(2)) (use that S(2) in auto)
  show ?thesis
    unfolding m'_def [symmetric]
  proof (rule dlist_join [OF _ e(1), where q = n and cs = "q # cs"])
    show "nodes_ok (h # xs @ n # ys)"
      using nodes_ok_perm [OF ok, of "h # xs @ n # ys"] dist by auto
    show "(n # ys) @ [h] = n # q # cs" using e by simp
    show "map (lnext m') bs = xs" unfolding s(1) [symmetric] using D by (intro map_cong refl) (auto simp: nx)
    show "lnext m' p = n" "lprev m' n = p" using D by (auto simp: nx pv)
    show "map (lnext m') (n # ys) = q # cs" unfolding s(3) [symmetric] using D by (auto simp: nx)
    show "map (lprev m') xs = bs" unfolding s(4) [symmetric] using D' by (intro map_cong refl) (auto simp: pv)
    show "map (lprev m') (q # cs) = n # ys" unfolding s(6) [symmetric] using D' by (auto simp: pv)
  qed
qed

lemma dlist_del:
  assumes d: "dlist m h (xs @ n # ys)"
  shows "dlist (list_del n m) h (xs @ ys)"
proof -
  obtain bs p q cs where e: "h # xs = bs @ [p]" "ys @ [h] = q # cs" by (rule obtain_ends)
  note s = dlist_split [OF d e(1), of n "q # cs", simplified, OF e(2), simplified]
  have ok: "nodes_ok (h # xs @ n # ys)" by (rule dlist_nodes [OF d])
  then have dist: "distinct (n # h # xs @ ys)" by (auto simp: nodes_ok_def)
  have c: "h # xs @ ys = bs @ p # ys" "(xs @ ys) @ [h] = xs @ q # cs"
    using e by (simp_all flip: append_Cons)
  have D: "distinct (n # bs @ p # ys)" using dist unfolding c .
  have "distinct (n # (xs @ ys) @ [h])" using dist by auto
  then have D': "distinct (n # xs @ q # cs)" unfolding c .
  have S: "set (h # xs @ ys) = set (bs @ p # ys)" "set (h # xs @ ys) = set (xs @ q # cs)"
    unfolding c(1) by (rule refl) (metis c list.set(2) set_append Un_commute Un_insert_left rotate1.simps(2) set_rotate1)
  have ends: "lprev m n = p" "lnext m n = q" using s by auto
  define m' where "m' = list_del n m"
  have eff: "lnext m' y = (if y = p then q else lnext m y)"
    "lprev m' y = (if y = q then p else lprev m y)"
    if "y \<in> set (h # xs @ ys)" for y
  proof -
    have "p \<in> set (h # xs @ ys)" unfolding S(1) by simp
    moreover have "q \<in> set (h # xs @ ys)" unfolding S(2) by simp
    ultimately have "nsep p y" "nsep q y" "nsep n y" "y \<noteq> n"
      using nodes_okD [OF ok, of _ y] that dist by auto
    then show "lnext m' y = (if y = p then q else lnext m y)"
      and "lprev m' y = (if y = q then p else lprev m y)"
      using D D' by (auto simp: m'_def list_del_def list_del_between_def ends Let_def)
  qed
  have nx: "lnext m' y = (if y = p then q else lnext m y)" if "y \<in> set (bs @ p # ys)" for y
    by (rule eff(1)) (use that S(1) in auto)
  have pv: "lprev m' y = (if y = q then p else lprev m y)" if "y \<in> set (xs @ q # cs)" for y
    by (rule eff(2)) (use that S(2) in auto)
  show ?thesis
    unfolding m'_def [symmetric]
  proof (rule dlist_join [OF _ e])
    show "nodes_ok (h # xs @ ys)"
      using nodes_ok_perm [OF ok, of "h # xs @ ys"] dist by auto
    show "map (lnext m') bs = xs"
      unfolding s(1) [symmetric] using D by (intro map_cong refl) (auto simp: nx)
    show "lnext m' p = q" "lprev m' q = p" by (auto simp: nx pv)
    show "map (lnext m') ys = cs" using D s by (auto simp: nx)
    show "map (lprev m') xs = bs"
      unfolding s(4) [symmetric] using D' by (intro map_cong refl) (auto simp: pv)
    have "map (lprev m) cs = ys" using s by simp
    then show "map (lprev m') cs = ys" using D' by (auto simp: pv intro!: map_cong)
  qed
qed

lemma list_del_self:
  "lnext (list_del n m) n = n" "lprev (list_del n m) n = n"
  by (simp_all add: list_del_def Let_def)

lemma dlist_init: "dlist (INIT_LIST_HEAD h m) h []"
  by (simp add: dlist_def INIT_LIST_HEAD_def nodes_ok_def)

lemma list_empty_dlist: "dlist m h ns \<Longrightarrow> list_empty m h \<longleftrightarrow> ns = []"
  using dlist_next_head [of m h ns] dlist_distinct [of m h ns]
  by (cases ns) (auto simp: list_empty_def)

lemma node_bytes_links:
  "n \<in> N \<Longrightarrow> region (n + 8) 8 \<subseteq> node_bytes N" "n \<in> N \<Longrightarrow> region n 8 \<subseteq> node_bytes N"
  using region_offset_subset [of 8 16 8 n] region_mono [of 8 16 n] by (auto simp: node_bytes_def)

lemma dlist_cong:
  assumes d: "dlist m h ns" and eq: "\<And>x. x \<in> node_bytes (set (h # ns)) \<Longrightarrow> m' x = m x"
  shows "dlist m' h ns"
proof -
  have r: "lnext m' n = lnext m n" "lprev m' n = lprev m n" if "n \<in> set (h # ns)" for n
    unfolding lnext_def lprev_def
    by (rule load64_cong, rule eq, erule subsetD [OF node_bytes_links(1) [OF that]])
      (rule load64_cong, rule eq, erule subsetD [OF node_bytes_links(2) [OF that]])
  then have "map (lnext m') (h # ns) = map (lnext m) (h # ns)"
    "map (lprev m') (ns @ [h]) = map (lprev m) (ns @ [h])" by auto
  with d show ?thesis by (simp only: dlist_def)
qed

lemma set_link_changes [frame_intros]:
  "n \<in> N \<Longrightarrow> only_changes (node_bytes N) m m' \<Longrightarrow> only_changes (node_bytes N) m (set_next n v m')"
  "n \<in> N \<Longrightarrow> only_changes (node_bytes N) m m' \<Longrightarrow> only_changes (node_bytes N) m (set_prev n v m')"
  unfolding set_next_def set_prev_def
  by (simp_all add: only_changes_store64 node_bytes_links)

lemma list_add_changes:
  "dlist m h ns \<Longrightarrow> only_changes (node_bytes {n, h, hd (ns @ [h])}) m (list_add n h m)"
  using dlist_next_head [of m h ns]
  by (auto simp: list_add_def list_add_between_def intro!: set_link_changes)

lemma list_add_tail_changes:
  "dlist m h ns \<Longrightarrow> only_changes (node_bytes {n, h, last (h # ns)}) m (list_add_tail n h m)"
  using dlist_prev_head [of m h ns]
  by (auto simp: list_add_tail_def list_add_between_def intro!: set_link_changes)

lemma list_del_changes:
  "dlist m h (xs @ n # ys) \<Longrightarrow>
   only_changes (node_bytes {n, last (h # xs), hd (ys @ [h])}) m (list_del n m)"
proof -
  assume d: "dlist m h (xs @ n # ys)"
  obtain bs p q cs where e: "h # xs = bs @ [p]" "ys @ [h] = q # cs"
    "p = last (h # xs)" "q = hd (ys @ [h])" by (rule obtain_ends)
  note s = dlist_split [OF d e(1), of n "q # cs", simplified, OF e(2), simplified]
  have "lprev m n = p" "lnext m n = q" using s by auto
  then show ?thesis
    unfolding e(3,4) [symmetric]
    by (auto simp: list_del_def list_del_between_def Let_def intro!: set_link_changes)
qed

section \<open>The contract\<close>

locale intrusive_list =
  fixes init :: "ptr \<Rightarrow> memory \<Rightarrow> memory"
    and add :: "ptr \<Rightarrow> ptr \<Rightarrow> memory \<Rightarrow> memory"
    and add_tail :: "ptr \<Rightarrow> ptr \<Rightarrow> memory \<Rightarrow> memory"
    and del :: "ptr \<Rightarrow> memory \<Rightarrow> memory"
    and is_empty :: "memory \<Rightarrow> ptr \<Rightarrow> bool"
    and first :: "memory \<Rightarrow> ptr \<Rightarrow> ptr"
    and repr :: "memory \<Rightarrow> ptr \<Rightarrow> ptr list \<Rightarrow> bool"
    and fresh :: "ptr \<Rightarrow> ptr list \<Rightarrow> bool"
  assumes repr_init: "repr (init h m) h []"
    and repr_add: "repr m h ns \<Longrightarrow> fresh n (h # ns) \<Longrightarrow> repr (add n h m) h (n # ns)"
    and repr_add_tail: "repr m h ns \<Longrightarrow> fresh n (h # ns) \<Longrightarrow> repr (add_tail n h m) h (ns @ [n])"
    and repr_del: "repr m h (xs @ n # ys) \<Longrightarrow> repr (del n m) h (xs @ ys)"
    and repr_empty: "repr m h ns \<Longrightarrow> is_empty m h \<longleftrightarrow> ns = []"
    and repr_first: "repr m h (n # ns) \<Longrightarrow> first m h = n"
    and repr_distinct: "repr m h ns \<Longrightarrow> distinct (h # ns)"
    and fresh_append: "fresh n (xs @ ys) \<longleftrightarrow> fresh n xs \<and> fresh n ys"
begin

lemma pop: "repr m h (n # ns) \<Longrightarrow> first m h = n \<and> repr (del n m) h ns"
  using repr_first repr_del [of m h "[]" n ns] by simp

lemma push_pop:
  "repr m h ns \<Longrightarrow> fresh n (h # ns) \<Longrightarrow>
   first (add n h m) h = n \<and> repr (del n (add n h m)) h ns"
  using pop [OF repr_add] .

lemma del_member:
  assumes "repr m h ns" "n \<in> set ns"
  shows "repr (del n m) h (remove1 n ns)"
proof -
  obtain xs ys where ns: "ns = xs @ n # ys" "n \<notin> set xs"
    using assms(2) by (meson split_list_first)
  then have "remove1 n ns = xs @ ys" by (simp add: remove1_append)
  with assms(1) ns show ?thesis by (simp add: repr_del)
qed

lemma rotate_first:
  assumes "repr m h (n # ns)" "fresh n (h # ns)"
  shows "repr (add_tail n h (del n m)) h (ns @ [n])"
  using assms pop repr_add_tail by blast

lemma enqueue_all:
  assumes "repr m h ns" "\<And>i. i < length qs \<Longrightarrow> fresh (qs ! i) (h # ns @ take i qs)"
  shows "repr (fold (\<lambda>n. add_tail n h) qs m) h (ns @ qs)"
  using assms
proof (induction qs arbitrary: m ns)
  case (Cons q qs)
  have "repr (add_tail q h m) h (ns @ [q])"
    using Cons.prems(1) Cons.prems(2) [of 0] by (simp add: repr_add_tail)
  moreover have "fresh (qs ! i) (h # (ns @ [q]) @ take i qs)" if "i < length qs" for i
    using Cons.prems(2) [of "Suc i"] that by simp
  ultimately have "repr (fold (\<lambda>n. add_tail n h) qs (add_tail q h m)) h ((ns @ [q]) @ qs)"
    by (rule Cons.IH)
  then show ?case by simp
qed simp

end

interpretation klist:
  intrusive_list INIT_LIST_HEAD list_add list_add_tail list_del list_empty lnext dlist fresh_node
proof (unfold_locales, goal_cases)
  case (1 h m) show ?case by (rule dlist_init)
next
  case (2 m h ns n)
  then show ?case using dlist_insert_between [of m h "[]" ns n h "lnext m h"] dlist_next_head
    by (simp add: list_add_def)
next
  case (3 m h ns n)
  then show ?case using dlist_insert_between [of m h ns "[]" n "lprev m h" h] dlist_prev_head
    by (simp add: list_add_tail_def)
next
  case (4 m h xs n ys) then show ?case by (rule dlist_del)
next
  case (5 m h ns) then show ?case by (rule list_empty_dlist)
next
  case (6 m h n ns) then show ?case by (simp add: dlist_next_head)
next
  case (7 m h ns) then show ?case by (rule dlist_distinct)
next
  case (8 n xs ys) show ?case by (auto simp: fresh_node_def)
qed

section \<open>Iteration\<close>

text \<open>
  \<open>list_for_each\<close> with a body that leaves the list alone: the nodes its cursor takes on from
  \<open>pos\<close> until it is back at the head. A corrupt list may never lead back, so the loop is an
  \<open>option\<close>.
\<close>

partial_function (option) list_for_each :: "memory \<Rightarrow> ptr \<Rightarrow> ptr \<Rightarrow> ptr list option" where
  "list_for_each m head pos =
     (if pos = head then Some []
      else do { r \<leftarrow> list_for_each m head (lnext m pos); Some (pos # r) })"

lemma list_for_each_suffix:
  assumes "dlist m h (xs @ ys)"
  shows "list_for_each m h (hd (ys @ [h])) = Some ys"
  using assms
proof (induction ys arbitrary: xs)
  case Nil
  then show ?case by (simp add: list_for_each.simps)
next
  case (Cons y ys)
  obtain bs p q cs where e: "h # (xs @ [y]) = bs @ [p]" "ys @ [h] = q # cs" by (rule obtain_ends)
  have d: "dlist m h ((xs @ [y]) @ ys)" using Cons.prems by simp
  have "lnext m y = hd (ys @ [h])" using dlist_split(2) [OF d e] e by (metis last_ConsR last_snoc list.sel(1) snoc_eq_iff_butlast)
  moreover have "y \<noteq> h" using dlist_distinct [OF Cons.prems] by auto
  ultimately show ?case using Cons.IH [OF d] by (simp add: list_for_each.simps [of m h y])
qed

lemma list_for_each_dlist: "dlist m h ns \<Longrightarrow> list_for_each m h (lnext m h) = Some ns"
  using list_for_each_suffix [of m h "[]" ns] by (simp add: dlist_next_head)

section \<open>Properties\<close>


definition two_node_list :: memory where
  "two_node_list = list_add_tail 0x3000 0x1000 (list_add 0x2000 0x1000 (INIT_LIST_HEAD 0x1000 (\<lambda>_. 0)))"

lemma two_node_list: "dlist two_node_list 0x1000 [0x2000, 0x3000]"
proof -
  have "dlist (list_add 0x2000 0x1000 (INIT_LIST_HEAD 0x1000 (\<lambda>_. 0))) 0x1000 [0x2000]"
    by (rule klist.repr_add [OF klist.repr_init]) (simp add: fresh_node_def sep_def)
  from klist.repr_add_tail [OF this, of "0x3000"] show ?thesis
    by (simp add: two_node_list_def fresh_node_def sep_def)
qed


text \<open>
  C23: the operations write only the links of the node itself and of its neighbours: any other byte
  of memory, and so any other list, is untouched.
\<close>

theorem list_ops_frame:
  assumes "dlist m h (xs @ n # ys)" "fresh_node k (h # xs @ n # ys)"
  shows "only_changes (node_bytes {n, last (h # xs), hd (ys @ [h])}) m (list_del n m) \<and>
    only_changes (node_bytes {k, h, hd (xs @ [n])}) m (list_add k h m) \<and>
    only_changes (node_bytes {k, h, last (n # ys)}) m (list_add_tail k h m)"
proof -
  have "last (h # xs @ n # ys) = last (n # ys)" by simp
  moreover have "hd ((xs @ n # ys) @ [h]) = hd (xs @ [n])" by (cases xs) auto
  ultimately show ?thesis
    using list_del_changes [OF assms(1)] list_add_changes [OF assms(1), of k]
      list_add_tail_changes [OF assms(1), of k] by metis
qed

theorem list_ops_frame_witness:
  "only_changes (node_bytes {0x4000, 0x1000, 0x2000}) two_node_list (list_add 0x4000 0x1000 two_node_list)"
proof -
  have "fresh_node 0x4000 (0x1000 # [] @ 0x2000 # [0x3000])" by (simp add: fresh_node_def sep_def)
  with list_ops_frame [of two_node_list "0x1000" "[]" "0x2000" "[0x3000]" "0x4000"] two_node_list
  show ?thesis by simp
qed

end
