(* ===== verification/Page.thy ===== *)
theory Page
  imports Format List_Head
begin

text \<open>
  The page frame allocator of \<^verbatim>\<open>kernel/page.c\<close>: free pages are kept in an intrusive list whose
  nodes are the first 16 bytes of the free pages themselves. \<open>page_inv s ps\<close> says that the free
  list of \<open>s\<close> is \<open>ps\<close>, in allocation order. The locale \<open>frame_allocator\<close> is what the heap, the
  page tables and the task code rely on.
\<close>

section \<open>State\<close>

text \<open>
  The static list head has an address the linker chooses, \<open>free_page_list\<close>, and the symbol
  \<open>__kernel_end\<close> is the end of the kernel image; both are parameters the state carries.
\<close>

record page_state = machine +
  free_page_list :: ptr
  kernel_end :: ptr
  nr_total_pages :: u64
  nr_free_pages :: u64

definition QEMU_VIRT_RAM_END :: u64 where "QEMU_VIRT_RAM_END = 0x88000000"

section \<open>Operations\<close>

definition page_alloc :: "'a page_state_scheme \<Rightarrow> ptr \<times> 'a page_state_scheme" where
  "page_alloc s =
     (if list_empty (mem s) (free_page_list s) then (0, s)
      else let page = list_first_entry (mem s) (free_page_list s) 0
           in (page, s\<lparr>mem := list_del page (mem s), nr_free_pages := nr_free_pages s - 1\<rparr>))"

definition page_free :: "ptr \<Rightarrow> 'a page_state_scheme \<Rightarrow> 'a page_state_scheme option" where
  "page_free addr s =
     do { kassert (addr \<noteq> 0);
          kassert (page_aligned addr);
          Some (s\<lparr>mem := list_add addr (free_page_list s) (INIT_LIST_HEAD addr (mem s)),
                  nr_free_pages := nr_free_pages s + 1\<rparr>) }"

definition page_total_count :: "'a page_state_scheme \<Rightarrow> u64" where
  "page_total_count s = nr_total_pages s"

definition page_free_count :: "'a page_state_scheme \<Rightarrow> u64" where
  "page_free_count s = nr_free_pages s"

definition page_used_count :: "'a page_state_scheme \<Rightarrow> u64" where
  "page_used_count s = nr_total_pages s - nr_free_pages s"

text \<open>
  The loop of \<open>page_init_range\<close>. Its counter can wrap when \<open>end\<close> is close to \<open>2\<^sup>6\<^sup>4\<close>, so the loop
  may not end: an \<open>option\<close>, as for the panics of \<open>page_free\<close>.
\<close>

partial_function (option) page_init_loop ::
  "u64 \<Rightarrow> u64 \<Rightarrow> 'a page_state_scheme \<Rightarrow> 'a page_state_scheme option" where
  "page_init_loop p e s =
     (if p + PAGE_SIZE \<le> e
      then do { s \<leftarrow> page_free p (s\<lparr>nr_total_pages := nr_total_pages s + 1\<rparr>);
                page_init_loop (p + PAGE_SIZE) e s }
      else Some s)"

definition page_init_range :: "u64 \<Rightarrow> u64 \<Rightarrow> 'a page_state_scheme \<Rightarrow> 'a page_state_scheme option" where
  "page_init_range start e s =
     do { let p = align_up start PAGE_SIZE;
          kassert (page_aligned e);
          let s = s\<lparr>mem := INIT_LIST_HEAD (free_page_list s) (mem s),
                    nr_total_pages := 0, nr_free_pages := 0\<rparr>;
          s \<leftarrow> page_init_loop p e s;
          printk ''page allocator: total=%lu free=%lu used=%lu\<newline>''
            [ALong (page_total_count s), ALong (page_free_count s), ALong (page_used_count s)] s }"

definition page_init :: "'a page_state_scheme \<Rightarrow> 'a page_state_scheme option" where
  "page_init s = page_init_range (kernel_end s) QEMU_VIRT_RAM_END s"

section \<open>Invariant\<close>

definition page_ok :: "'a page_state_scheme \<Rightarrow> ptr \<Rightarrow> bool" where
  "page_ok s p \<longleftrightarrow> p \<noteq> 0 \<and> page_aligned p \<and> sep (free_page_list s) 16 p 4096"

definition page_inv :: "'a page_state_scheme \<Rightarrow> ptr list \<Rightarrow> bool" where
  "page_inv s ps \<longleftrightarrow>
     dlist (mem s) (free_page_list s) ps \<and> (\<forall>p\<in>set ps. page_ok s p) \<and>
     nr_free_pages s = of_nat (length ps)"

text \<open>The bytes the free list occupies.\<close>

abbreviation page_foot :: "'a page_state_scheme \<Rightarrow> ptr list \<Rightarrow> u64 set" where
  "page_foot s ps \<equiv> node_bytes (set (free_page_list s # ps))"

text \<open>What an allocator operation may change besides memory.\<close>

definition page_step :: "'a page_state_scheme \<Rightarrow> 'a page_state_scheme \<Rightarrow> bool" where
  "page_step s s' \<longleftrightarrow> (\<exists>m n. s' = s\<lparr>mem := m, nr_free_pages := n\<rparr>)"

lemma page_stepI: "page_step s (s\<lparr>mem := m, nr_free_pages := n\<rparr>)"
  by (auto simp: page_step_def)

lemma page_step_refl [simp]: "page_step s s"
  unfolding page_step_def by (rule exI [of _ "mem s"], rule exI [of _ "nr_free_pages s"]) simp

lemma page_step_trans: "page_step s s' \<Longrightarrow> page_step s' s'' \<Longrightarrow> page_step s s''"
  unfolding page_step_def by (elim exE, hypsubst, simp, blast)

lemma page_step_eq: "page_step s s' \<Longrightarrow> s' = s\<lparr>mem := mem s', nr_free_pages := nr_free_pages s'\<rparr>"
  by (auto simp: page_step_def)

lemma page_ok_sep: "page_ok s p \<Longrightarrow> page_ok s q \<Longrightarrow> p \<noteq> q \<Longrightarrow> sep p 4096 q 4096"
  by (simp add: page_ok_def page_aligned_sep)

lemma page_ok_no_zero: "page_ok s p \<Longrightarrow> 0 \<notin> region p 4096"
proof
  assume p: "page_ok s p" "0 \<in> region p 4096"
  then have nz: "p \<noteq> 0" "4096 dvd unat p" by (auto simp: page_ok_def page_aligned_iff)
  have "unat (0 - p) = 2 ^ 64 - unat p" using unat_minus64 [OF nz(1)] by simp
  moreover have "4096 dvd (2 ^ 64 - unat p :: nat)" using nz(2) by (intro dvd_diff_nat) auto
  moreover have "unat p < 2 ^ 64" by (rule unat_less64)
  ultimately have "4096 \<le> unat (0 - p)" by (metis dvd_imp_le zero_less_diff)
  with p(2) show False by (simp add: region_iff word_less_nat_alt)
qed

lemma page_inv_fresh:
  assumes "page_inv s ps" "page_ok s p" "p \<notin> set ps"
  shows "fresh_node p (free_page_list s # ps)"
  unfolding fresh_node_def
proof
  fix x assume x: "x \<in> set (free_page_list s # ps)"
  show "sep p 16 x 16"
  proof (cases "x \<in> set ps")
    case True
    then have "page_ok s x" "p \<noteq> x" using assms by (auto simp: page_inv_def)
    then show ?thesis using page_ok_sep [OF assms(2)] sep_shrink [of p 4096 x 4096 16 16] by auto
  next
    case False
    with x have [simp]: "x = free_page_list s" by simp
    have "sep (free_page_list s) 16 p 4096" using assms(2) by (simp add: page_ok_def)
    then show ?thesis using sep_shrink [of "free_page_list s" 16 p 4096 16 16] by (simp add: sep_sym)
  qed
qed

lemma page_alloc_empty: "page_inv s [] \<Longrightarrow> page_alloc s = (0, s)"
  using klist.repr_empty [of "mem s" "free_page_list s" "[]"] by (simp add: page_inv_def page_alloc_def)

lemma page_alloc_Cons:
  assumes "page_inv s (p # ps)"
  obtains s' where "page_alloc s = (p, s')" "page_inv s' ps" "page_step s s'"
    "only_changes (page_foot s (p # ps)) (mem s) (mem s')"
proof
  let ?h = "free_page_list s"
  let ?s' = "s\<lparr>mem := list_del p (mem s), nr_free_pages := nr_free_pages s - 1\<rparr>"
  have d: "dlist (mem s) ?h (p # ps)" using assms by (simp add: page_inv_def)
  show "page_alloc s = (p, ?s')"
    using klist.repr_empty [OF d] klist.repr_first [OF d]
    by (simp add: page_alloc_def list_first_entry_def list_entry_def)
  show "page_inv ?s' ps"
    using assms klist.pop [OF d] by (auto simp: page_inv_def page_ok_def)
  show "page_step s ?s'" by (rule page_stepI)
  show "only_changes (page_foot s (p # ps)) (mem s) (mem ?s')"
    using list_del_changes [of "mem s" ?h "[]" p ps] d
    by (cases ps) (auto elim!: only_changes_mono intro!: node_bytes_mono)
qed

lemma page_free_Cons:
  assumes "page_inv s ps" "page_ok s p" "p \<notin> set ps"
  obtains s' where "page_free p s = Some s'" "page_inv s' (p # ps)" "page_step s s'"
    "only_changes (page_foot s (p # ps)) (mem s) (mem s')"
proof
  let ?h = "free_page_list s"
  let ?m = "INIT_LIST_HEAD p (mem s)"
  let ?s' = "s\<lparr>mem := list_add p ?h ?m, nr_free_pages := nr_free_pages s + 1\<rparr>"
  have f: "fresh_node p (?h # ps)" by (rule page_inv_fresh [OF assms])
  have i: "only_changes (node_bytes {p}) (mem s) ?m"
    by (simp add: INIT_LIST_HEAD_def set_link_changes)
  have d: "dlist ?m ?h ps"
  proof (rule dlist_cong)
    show "dlist (mem s) ?h ps" using assms by (simp add: page_inv_def)
    fix x assume "x \<in> node_bytes (set (?h # ps))"
    then obtain n where n: "n \<in> set (?h # ps)" "x \<in> region n 16" by (auto simp: node_bytes_def)
    then have "sep p 16 n 16" using f by (auto simp: fresh_node_def)
    then have "x \<notin> node_bytes {p}" using n sep_notin' by (simp add: node_bytes_def)
    then show "?m x = mem s x" using i by (simp add: only_changes_def)
  qed
  show "page_free p s = Some ?s'"
    using assms by (simp add: page_free_def page_ok_def)
  show "page_inv ?s' (p # ps)"
    using assms klist.repr_add [OF d f] by (auto simp: page_inv_def page_ok_def)
  show "page_step s ?s'" by (rule page_stepI)
  have "only_changes (node_bytes {p, ?h, hd (ps @ [?h])}) (mem s) (list_add p ?h ?m)"
    by (rule only_changes_trans' [OF only_changes_mono [OF i] list_add_changes [OF d]])
      (auto simp: node_bytes_def)
  moreover have "{p, ?h, hd (ps @ [?h])} \<subseteq> set (?h # p # ps)" by (cases ps) auto
  ultimately show "only_changes (page_foot s (p # ps)) (mem s) (mem ?s')"
    using only_changes_mono node_bytes_mono by simp
qed

lemma page_inv_frame:
  assumes "page_inv s ps" "only_changes S (mem s) m" "S \<inter> page_foot s ps = {}"
  shows "page_inv (s\<lparr>mem := m\<rparr>) ps"
proof -
  have "dlist m (free_page_list s) ps"
  proof (rule dlist_cong)
    show "dlist (mem s) (free_page_list s) ps" using assms(1) by (simp add: page_inv_def)
  qed (use assms(2,3) in \<open>auto simp: only_changes_def\<close>)
  with assms(1) show ?thesis by (simp add: page_inv_def page_ok_def)
qed

lemma page_foot_pages:
  assumes "page_inv s ps" "page_ok s p" "p \<notin> set ps"
  shows "region p 4096 \<inter> page_foot s ps = {}"
proof -
  have "region p 4096 \<inter> region n 16 = {}" if "n \<in> set (free_page_list s # ps)" for n
  proof (cases "n \<in> set ps")
    case True
    then have "page_ok s n" "p \<noteq> n" using assms by (auto simp: page_inv_def)
    then have "sep p 4096 n 4096" using page_ok_sep [OF assms(2)] by auto
    from sep_disjoint [OF this] show ?thesis using region_mono [of 16 4096 n] by auto
  next
    case False
    then have "sep n 16 p 4096" using that assms(2) by (simp add: page_ok_def)
    then show ?thesis using sep_disjoint by blast
  qed
  then show ?thesis by (fastforce simp: node_bytes_def)
qed

lemma page_inv_write_page:
  assumes "page_inv s ps" "page_ok s p" "p \<notin> set ps" "only_changes (region p 4096) (mem s) m"
  shows "page_inv (s\<lparr>mem := m\<rparr>) ps"
  using page_inv_frame [OF assms(1,4)] page_foot_pages [OF assms(1-3)] by simp

lemma page_inv_free_count: "page_inv s ps \<Longrightarrow> unat (nr_free_pages s) = length ps"
proof -
  assume inv: "page_inv s ps"
  have "inj_on (\<lambda>p. unat p div 4096) (set ps)"
  proof (rule inj_onI)
    fix p q assume "p \<in> set ps" "q \<in> set ps" "unat p div 4096 = unat q div 4096"
    moreover from calculation inv have "4096 dvd unat p" "4096 dvd unat q"
      by (simp_all add: page_inv_def page_ok_def page_aligned_iff)
    ultimately have "unat p = unat q" by (metis dvd_div_mult_self)
    then show "p = q" by (rule unsigned_word_eqI)
  qed
  moreover have "(\<lambda>p. unat p div 4096) ` set ps \<subseteq> {..<2 ^ 52}"
  proof -
    have "unat p div 4096 < 2 ^ 52" for p :: u64 using unat_less64 [of p] by (simp add: less_mult_imp_div_less)
    then show ?thesis by auto
  qed
  ultimately have "card (set ps) \<le> 2 ^ 52" using card_inj_on_le [of _ "set ps" "{..<2 ^ 52 :: nat}"] by simp
  moreover have "distinct ps" using inv dlist_distinct by (fastforce simp: page_inv_def)
  ultimately have "length ps \<le> 2 ^ 52" by (simp add: distinct_card)
  with inv show ?thesis by (simp add: page_inv_def unat_of_nat)
qed

lemma page_init_loop_inv:
  assumes "page_inv s ps" "unat e = unat p + 4096 * n" "unat e + 4096 < 2 ^ 64"
    and "\<And>i. i < n \<Longrightarrow> page_ok s (p + 4096 * of_nat i) \<and> p + 4096 * of_nat i \<notin> set ps"
  shows "\<exists>s'. page_init_loop p e s = Some s' \<and>
    page_inv s' (rev (map (\<lambda>i. p + 4096 * of_nat i) [0..<n]) @ ps) \<and>
    nr_total_pages s' = nr_total_pages s + of_nat n \<and> free_page_list s' = free_page_list s"
  using assms
proof (induction n arbitrary: p s ps)
  case 0
  then have "e = p" by (auto intro: unsigned_word_eqI)
  moreover have "\<not> e + 4096 \<le> e" using 0 by (simp add: word_le_nat_alt unat_word_ariths)
  ultimately show ?case using 0 by (simp add: page_init_loop.simps)
next
  case (Suc n)
  let ?s = "s\<lparr>nr_total_pages := nr_total_pages s + 1\<rparr>"
  have pe: "unat (p + 4096) = unat p + 4096" using Suc.prems by (simp add: unat_word_ariths)
  then have le: "p + 4096 \<le> e" using Suc.prems by (simp add: word_le_nat_alt)
  have "page_inv ?s ps" "page_ok ?s p" "p \<notin> set ps"
    using Suc.prems(1) Suc.prems(4) [of 0] by (auto simp: page_inv_def page_ok_def)
  then obtain s1 where s1: "page_free p ?s = Some s1" "page_inv s1 (p # ps)" "page_step ?s s1"
    using page_free_Cons by metis
  have fl: "free_page_list s1 = free_page_list s" "nr_total_pages s1 = nr_total_pages s + 1"
    using page_step_eq [OF s1(3)] by (metis page_state.select_convs(1,3) page_state.surjective page_state.update_convs(3,4) machine.update_convs(1))+
  have "\<exists>s'. page_init_loop (p + 4096) e s1 = Some s' \<and>
    page_inv s' (rev (map (\<lambda>i. (p + 4096) + 4096 * of_nat i) [0..<n]) @ (p # ps)) \<and>
    nr_total_pages s' = nr_total_pages s1 + of_nat n \<and> free_page_list s' = free_page_list s1"
  proof (rule Suc.IH [OF s1(2)])
    show "unat e = unat (p + 4096) + 4096 * n" using Suc.prems(2) pe by simp
    fix i assume i: "i < n"
    have "p + 4096 + 4096 * of_nat i = p + 4096 * of_nat (Suc i)" by (simp add: algebra_simps)
    moreover have "unat (4096 * of_nat (Suc i) :: u64) \<noteq> 0"
      using unat_page_mult [of "Suc i"] i Suc.prems(2,3) by simp
    then have "p + 4096 * of_nat (Suc i) \<noteq> p" by auto
    ultimately show "page_ok s1 (p + 4096 + 4096 * of_nat i) \<and> p + 4096 + 4096 * of_nat i \<notin> set (p # ps)"
      using Suc.prems(4) [of "Suc i"] i fl by (auto simp: page_ok_def add.assoc)
  qed (use Suc.prems in simp)
  then obtain s' where s': "page_init_loop (p + 4096) e s1 = Some s'"
    "page_inv s' (rev (map (\<lambda>i. (p + 4096) + 4096 * of_nat i) [0..<n]) @ (p # ps))"
    "nr_total_pages s' = nr_total_pages s1 + of_nat n" "free_page_list s' = free_page_list s1"
    by blast
  have e: "rev (map (\<lambda>i. (p + 4096) + 4096 * of_nat i) [0..<n]) @ (p # ps) =
    rev (map (\<lambda>i. p + 4096 * of_nat i) [0..<Suc n]) @ ps"
    unfolding upt_conv_Cons [OF zero_less_Suc] map_Suc_upt [symmetric] by (simp add: algebra_simps)
  from s' s1 fl le show ?case
    unfolding e by (simp add: page_init_loop.simps [of p e s])
qed

text \<open>The page frames of an address range, in ascending order.\<close>

definition frames :: "u64 \<Rightarrow> u64 \<Rightarrow> ptr list" where
  "frames p e = map (\<lambda>i. p + 4096 * of_nat i) [0..<(unat e - unat p) div 4096]"

lemma page_init_range_inv:
  assumes al: "page_aligned e" and st: "0 < unat start" "unat start \<le> unat e" "unat e + 4096 < 2 ^ 64"
    and head: "unat (free_page_list s) + 16 \<le> unat start"
  shows "\<exists>s'. page_init_range start e s = Some s' \<and>
    page_inv s' (rev (frames (align_up start PAGE_SIZE) e)) \<and>
    nr_total_pages s' = nr_free_pages s' \<and> free_page_list s' = free_page_list s"
proof -
  define p where "p = align_up start PAGE_SIZE"
  have p: "unat p = (unat start + 4095) div 4096 * 4096"
    using st unat_align_up_page [of start] by (simp add: p_def)
  obtain k where k: "unat e = 4096 * k" using al by (auto simp: page_aligned_iff)
  have ple: "unat start \<le> unat p" "unat p \<le> unat e" using p k st by auto
  define n where "n = (unat e - unat p) div 4096"
  have n: "unat e = unat p + 4096 * n" using p k ple by (auto simp: n_def)
  let ?s = "s\<lparr>mem := INIT_LIST_HEAD (free_page_list s) (mem s), nr_total_pages := 0, nr_free_pages := 0\<rparr>"
  have "page_inv ?s []" using klist.repr_init by (simp add: page_inv_def)
  moreover have "page_ok ?s (p + 4096 * of_nat i)" if "i < n" for i
  proof -
    have u: "unat (p + 4096 * of_nat i) = unat p + 4096 * i"
      using unat_page_mult [of i] that n st by (simp add: unat_word_ariths)
    have "sep (free_page_list s) 16 (p + 4096 * of_nat i) 4096"
      by (rule sep_below) (use u that n st head ple in simp_all)
    moreover have "p + 4096 * of_nat i \<noteq> 0" using u ple st by (auto simp: unat_eq_zero)
    ultimately show ?thesis using u p by (simp add: page_ok_def page_aligned_iff)
  qed
  ultimately obtain s' where s': "page_init_loop p e ?s = Some s'"
    "page_inv s' (rev (map (\<lambda>i. p + 4096 * of_nat i) [0..<n]))"
    "nr_total_pages s' = of_nat n" "free_page_list s' = free_page_list s"
    using page_init_loop_inv [of ?s "[]" e p n] n st by auto
  obtain s'' where s'': "printk ''page allocator: total=%lu free=%lu used=%lu\<newline>''
    [ALong (page_total_count s'), ALong (page_free_count s'), ALong (page_used_count s')] s' = Some s''"
    by (simp add: printk_def printk_loop.simps(2))
  have "prints s' s''" using s'' printk_loop_prints by (auto simp: printk_def)
  then have "page_inv s'' (rev (frames p e)) \<and> nr_total_pages s'' = nr_free_pages s'' \<and>
    free_page_list s'' = free_page_list s"
    using s' by (auto simp: prints_def page_inv_def page_ok_def frames_def n_def [symmetric])
  with s' s'' al show ?thesis
    by (simp add: page_init_range_def p_def [symmetric])
qed

lemma page_alloc_cases:
  assumes "page_inv s ps"
  obtains (none) "ps = []" "page_alloc s = (0, s)"
  | (some) p qs s' where "ps = p # qs" "page_alloc s = (p, s')" "page_inv s' qs" "page_step s s'"
      "page_ok s p" "p \<notin> set qs" "only_changes (page_foot s ps) (mem s) (mem s')"
proof (cases ps)
  case Nil
  then show ?thesis using none page_alloc_empty assms by blast
next
  case (Cons p qs)
  then have "page_ok s p" "p \<notin> set qs"
    using assms dlist_distinct by (fastforce simp: page_inv_def)+
  then show ?thesis using some page_alloc_Cons Cons assms by metis
qed

lemma page_step_fields:
  assumes "page_step s s'"
  shows "free_page_list s' = free_page_list s" "nr_total_pages s' = nr_total_pages s"
    "page_ok s' = page_ok s" "kernel_end s' = kernel_end s" "uart_tx s' = uart_tx s"
  using assms by (auto simp: page_step_def page_ok_def fun_eq_iff)

section \<open>The contract\<close>

locale frame_allocator =
  fixes alloc :: "'s \<Rightarrow> ptr \<times> 's"
    and free :: "ptr \<Rightarrow> 's \<Rightarrow> 's option"
    and repr :: "'s \<Rightarrow> ptr list \<Rightarrow> bool"
    and ok :: "'s \<Rightarrow> ptr \<Rightarrow> bool"
    and bytes :: "'s \<Rightarrow> memory"
    and foot :: "'s \<Rightarrow> ptr list \<Rightarrow> u64 set"
  assumes alloc_none: "repr s [] \<Longrightarrow> alloc s = (0, s)"
    and alloc_some: "repr s (p # ps) \<Longrightarrow> \<exists>s'. alloc s = (p, s') \<and> repr s' ps \<and> ok s' = ok s \<and>
      foot s' = foot s \<and> only_changes (foot s (p # ps)) (bytes s) (bytes s')"
    and free_some: "repr s ps \<Longrightarrow> ok s p \<Longrightarrow> p \<notin> set ps \<Longrightarrow>
      \<exists>s'. free p s = Some s' \<and> repr s' (p # ps) \<and> ok s' = ok s \<and> foot s' = foot s \<and>
      only_changes (foot s (p # ps)) (bytes s) (bytes s')"
    and repr_ok: "repr s ps \<Longrightarrow> p \<in> set ps \<Longrightarrow> ok s p"
    and repr_distinct: "repr s ps \<Longrightarrow> distinct ps"
    and ok_nonzero: "ok s p \<Longrightarrow> p \<noteq> 0"
    and ok_sep: "ok s p \<Longrightarrow> ok s q \<Longrightarrow> p \<noteq> q \<Longrightarrow> sep p 4096 q 4096"
    and foot_disjoint: "repr s ps \<Longrightarrow> ok s p \<Longrightarrow> p \<notin> set ps \<Longrightarrow> region p 4096 \<inter> foot s ps = {}"
    and foot_mono: "set ps \<subseteq> set qs \<Longrightarrow> foot s ps \<subseteq> foot s qs"
begin

lemma alloc_null_iff: "repr s ps \<Longrightarrow> fst (alloc s) = 0 \<longleftrightarrow> ps = []"
proof (cases ps)
  case Nil
  then show "repr s ps \<Longrightarrow> ?thesis" using alloc_none by simp
next
  case (Cons p qs)
  then show "repr s ps \<Longrightarrow> ?thesis" using alloc_some repr_ok ok_nonzero by fastforce
qed

lemma alloc_free_inverse:
  assumes "repr s (p # ps)"
  shows "\<exists>s' s''. alloc s = (p, s') \<and> free p s' = Some s'' \<and> repr s'' (p # ps)"
  using alloc_some [OF assms] free_some repr_ok [OF assms] repr_distinct [OF assms] by fastforce

lemma alloc_two:
  assumes "repr s (p # q # ps)"
  shows "\<exists>s' s''. alloc s = (p, s') \<and> alloc s' = (q, s'') \<and> repr s'' ps \<and>
    sep p 4096 q 4096 \<and> only_changes (foot s (p # q # ps)) (bytes s) (bytes s'')"
proof -
  obtain s' where s': "alloc s = (p, s')" "repr s' (q # ps)" "foot s' = foot s"
    "only_changes (foot s (p # q # ps)) (bytes s) (bytes s')" using alloc_some [OF assms] by blast
  obtain s'' where s'': "alloc s' = (q, s'')" "repr s'' ps"
    "only_changes (foot s (q # ps)) (bytes s') (bytes s'')"
    using alloc_some [OF s'(2)] s'(3) by auto
  have "only_changes (foot s (p # q # ps)) (bytes s) (bytes s'')"
    by (rule only_changes_trans' [OF s'(4) only_changes_mono [OF s''(3) foot_mono]]) auto
  moreover have "sep p 4096 q 4096"
    using repr_ok [OF assms] repr_distinct [OF assms] by (auto intro!: ok_sep)
  ultimately show ?thesis using s' s'' by blast
qed

text \<open>What is written to a page in use cannot be seen in the free list, nor the converse.\<close>

lemma alloc_keeps_used:
  assumes "repr s (p # ps)" "ok s q" "q \<notin> set (p # ps)" "x \<in> region q 4096"
  shows "bytes (snd (alloc s)) x = bytes s x"
  using alloc_some [OF assms(1)] foot_disjoint [OF assms(1-3)] assms(4)
  by (auto dest!: only_changesD [of _ _ _ x])

end

interpretation kpage: frame_allocator page_alloc page_free page_inv page_ok mem
  "\<lambda>s ps. page_foot s ps"
proof (unfold_locales, goal_cases)
  case (1 s) then show ?case by (rule page_alloc_empty)
next
  case (2 s p ps)
  then obtain s' where "page_alloc s = (p, s')" "page_inv s' ps" "page_step s s'"
    "only_changes (page_foot s (p # ps)) (mem s) (mem s')" by (rule page_alloc_Cons)
  then show ?case by (intro exI [of _ s']) (simp add: page_step_fields)
next
  case (3 s ps p)
  then obtain s' where "page_free p s = Some s'" "page_inv s' (p # ps)" "page_step s s'"
    "only_changes (page_foot s (p # ps)) (mem s) (mem s')" by (rule page_free_Cons)
  then show ?case by (intro exI [of _ s']) (simp add: page_step_fields)
next
  case (4 s ps p) then show ?case by (simp add: page_inv_def)
next
  case (5 s ps) then show ?case using dlist_distinct by (fastforce simp: page_inv_def)
next
  case (6 s p) then show ?case by (simp add: page_ok_def)
next
  case (7 s p q) then show ?case by (rule page_ok_sep)
next
  case (8 s ps p) then show ?case by (rule page_foot_pages)
next
  case (9 ps qs s) then show ?case by (auto intro!: node_bytes_mono)
qed

section \<open>Properties\<close>

text \<open>A machine with three free pages, on which the properties are exercised.\<close>

definition boot_pages :: page_state where
  "boot_pages =
     \<lparr>mem = (\<lambda>_. 0), uart_tx = [], uart_rx = [], uart_in = [], csr_satp = 0, csr_sstatus = 0,
      csr_stvec = 0, csr_sie = 0, csr_scause = 0, csr_stval = 0, csr_sepc = 0, csr_time = 0,
      sbi_calls = [], sbi_reply = (\<lambda>_. \<lparr>sbi_error = 0, sbi_value = 0\<rparr>),
      free_page_list = 0x80100000, kernel_end = 0x80200000, nr_total_pages = 0, nr_free_pages = 0\<rparr>"

definition three_pages :: page_state where
  "three_pages = the (page_init_range 0x80200000 0x80203000 boot_pages)"

text \<open>
  C21: \<open>page_init_range\<close> returns, and afterwards the free list holds exactly the page frames
  between the rounded-up start and the end of the range, the last frame first; both counters equal
  their number.
\<close>

theorem page_init_range_frees_all:
  assumes "page_aligned e" "0 < unat start" "unat start \<le> unat e" "unat e + 4096 < 2 ^ 64"
    and "unat (free_page_list s) + 16 \<le> unat start"
  shows "\<exists>s'. page_init_range start e s = Some s' \<and>
    page_inv s' (rev (frames (align_up start PAGE_SIZE) e)) \<and>
    page_total_count s' = page_free_count s' \<and> page_used_count s' = 0"
  using page_init_range_inv [OF assms]
  by (auto simp: page_total_count_def page_free_count_def page_used_count_def)

theorem page_init_range_frees_all_witness:
  "\<exists>s'. page_init_range 0x80200000 0x80203000 boot_pages = Some s' \<and>
    page_inv s' [0x80202000, 0x80201000, 0x80200000] \<and> page_used_count s' = 0"
proof -
  have "rev (frames (align_up 0x80200000 PAGE_SIZE) 0x80203000) = [0x80202000, 0x80201000, 0x80200000]"
    by (simp add: frames_def align_up_def upt_rec)
  with page_init_range_frees_all [of "0x80203000" "0x80200000" boot_pages] show ?thesis
    by (auto simp: page_aligned_def boot_pages_def)
qed

lemma three_pages_inv: "page_inv three_pages [0x80202000, 0x80201000, 0x80200000]"
proof -
  have "rev (frames (align_up 0x80200000 PAGE_SIZE) 0x80203000) = [0x80202000, 0x80201000, 0x80200000]"
    by (simp add: frames_def align_up_def upt_rec)
  with page_init_range_inv [of "0x80203000" "0x80200000" boot_pages] show ?thesis
    by (auto simp: page_aligned_def boot_pages_def three_pages_def)
qed

text \<open>
  C12: the allocator is a stack of page frames. \<open>page_alloc\<close> returns null exactly when no page is
  free and otherwise pops the first free page and counts it; freeing a page that is in use pushes
  it back, without a panic, so allocating and freeing restores the free list.
\<close>

theorem page_alloc_free_stack:
  assumes "page_inv s ps"
  shows "(ps = [] \<longrightarrow> page_alloc s = (0, s)) \<and>
    (\<forall>p qs. ps = p # qs \<longrightarrow> (\<exists>s' s''. page_alloc s = (p, s') \<and> p \<noteq> 0 \<and> page_aligned p \<and>
       page_inv s' qs \<and> unat (page_free_count s') = length qs \<and>
       page_free p s' = Some s'' \<and> page_inv s'' ps))"
proof (intro conjI impI allI)
  show "page_alloc s = (0, s)" if "ps = []" using kpage.alloc_none assms that by blast
  fix p qs assume ps: "ps = p # qs"
  then obtain s' s'' where "page_alloc s = (p, s')" "page_free p s' = Some s''" "page_inv s'' ps"
    using kpage.alloc_free_inverse assms by blast
  moreover from this have "page_inv s' qs" using kpage.alloc_some assms ps by fastforce
  moreover have "page_ok s p" using assms ps kpage.repr_ok by fastforce
  ultimately show "\<exists>s' s''. page_alloc s = (p, s') \<and> p \<noteq> 0 \<and> page_aligned p \<and> page_inv s' qs \<and>
    unat (page_free_count s') = length qs \<and> page_free p s' = Some s'' \<and> page_inv s'' ps"
    using page_inv_free_count by (auto simp: page_ok_def page_free_count_def)
qed

theorem page_alloc_free_stack_witness:
  "\<exists>s'. page_alloc three_pages = (0x80202000, s') \<and> page_inv s' [0x80201000, 0x80200000]"
  using page_alloc_free_stack [OF three_pages_inv] by auto

text \<open>
  C17: pages in use are isolated from the allocator: neither allocating another page nor freeing
  one changes a byte of a page \<open>q\<close> that is not free.
\<close>

theorem page_ops_keep_used_pages:
  assumes "page_inv s (p # ps)" "page_ok s q" "q \<notin> set (p # ps)" "x \<in> region q 4096"
    and "page_ok s r" "r \<notin> set (p # ps)" "r \<noteq> q"
  shows "mem (snd (page_alloc s)) x = mem s x \<and>
    (\<exists>s'. page_free r s = Some s' \<and> mem s' x = mem s x)"
proof -
  obtain s' where s': "page_free r s = Some s'"
    "only_changes (page_foot s (r # p # ps)) (mem s) (mem s')" "page_inv s' (r # p # ps)"
    "page_ok s' = page_ok s" "page_foot s' = page_foot s"
    using kpage.free_some [OF assms(1,5,6)] by blast
  have "region q 4096 \<inter> page_foot s' (r # p # ps) = {}"
    by (rule kpage.foot_disjoint [OF s'(3)]) (use assms s' in auto)
  moreover have "page_foot s' (r # p # ps) = page_foot s (r # p # ps)"
    using fun_cong [OF s'(5), of "r # p # ps"] .
  ultimately show ?thesis
    using s' assms kpage.alloc_keeps_used [OF assms(1-4)] by (auto dest!: only_changesD [of _ _ _ x])
qed

theorem page_ops_keep_used_pages_witness:
  "\<exists>s'. page_alloc three_pages = (0x80202000, s') \<and>
     mem (snd (page_alloc s')) 0x80202abc = mem s' 0x80202abc"
proof -
  obtain s' where s': "page_alloc three_pages = (0x80202000, s')" "page_inv s' [0x80201000, 0x80200000]"
    "page_ok s' = page_ok three_pages"
    using kpage.alloc_some [OF three_pages_inv] by blast
  have fl: "free_page_list three_pages = 0x80100000"
    using page_init_range_inv [of "0x80203000" "0x80200000" boot_pages]
    by (auto simp: page_aligned_def boot_pages_def three_pages_def)
  have "page_ok s' 0x80202000" "page_ok s' 0x80203000"
    unfolding s'(3) by (simp_all add: page_ok_def page_aligned_def fl sep_def)
  from page_ops_keep_used_pages [OF s'(2) this(1) _ _ this(2), of "0x80202abc"] s'(1)
  show ?thesis by (simp add: region_iff)
qed

end
