(* ===== verification/Pgtable.thy ===== *)
theory Pgtable
  imports Page
begin

text \<open>
  The Sv39 page tables of \<^verbatim>\<open>kernel/pgtable.c\<close> and \<^verbatim>\<open>kernel/pgtable.h\<close>: three levels of
  tables of 512 entries in pages of the frame allocator. \<open>plookup\<close> reads a page table as a map
  from virtual addresses to leaf entries; \<open>pt_inv s root ps\<close> says that the table at \<open>root\<close> is a
  tree of distinct pages none of which is among the free pages \<open>ps\<close>.
\<close>

section \<open>Entries\<close>

definition PTE_V :: u64 where "PTE_V = push_bit 0 1"
definition PTE_R :: u64 where "PTE_R = push_bit 1 1"
definition PTE_W :: u64 where "PTE_W = push_bit 2 1"
definition PTE_X :: u64 where "PTE_X = push_bit 3 1"
definition PTE_U :: u64 where "PTE_U = push_bit 4 1"
definition PTE_G :: u64 where "PTE_G = push_bit 5 1"
definition PTE_A :: u64 where "PTE_A = push_bit 6 1"
definition PTE_D :: u64 where "PTE_D = push_bit 7 1"
definition PTE_FLAGS_MASK :: u64 where "PTE_FLAGS_MASK = push_bit 10 1 - 1"
definition PTE_PPN_MASK :: u64 where "PTE_PPN_MASK = push_bit 10 (push_bit 44 1 - 1)"
definition PAGE_KERNEL :: u64 where "PAGE_KERNEL = PTE_R OR PTE_W OR PTE_X OR PTE_A OR PTE_D"
definition PAGE_DEVICE :: u64 where "PAGE_DEVICE = PTE_R OR PTE_W OR PTE_A OR PTE_D"
definition PAGE_USER :: u64 where
  "PAGE_USER = PTE_R OR PTE_W OR PTE_X OR PTE_U OR PTE_A OR PTE_D"
definition PAGE_WRITE :: u64 where "PAGE_WRITE = PTE_R OR PTE_W OR PTE_A OR PTE_D"
definition PAGE_EXEC :: u64 where "PAGE_EXEC = PTE_R OR PTE_X OR PTE_A OR PTE_D"
definition PAGE_READ :: u64 where "PAGE_READ = PTE_R OR PTE_A OR PTE_D"
definition MAXVA :: u64 where "MAXVA = push_bit 38 1"

lemmas pte_bits = PTE_V_def PTE_R_def PTE_W_def PTE_X_def PTE_U_def PTE_G_def PTE_A_def PTE_D_def
  PAGE_KERNEL_def PAGE_DEVICE_def PAGE_USER_def PAGE_WRITE_def PAGE_EXEC_def PAGE_READ_def

definition pte_none :: "u64 \<Rightarrow> bool" where "pte_none x \<longleftrightarrow> x = 0"
definition pte_present :: "u64 \<Rightarrow> bool" where "pte_present x \<longleftrightarrow> x AND PTE_V \<noteq> 0"
definition pte_flags :: "u64 \<Rightarrow> u64" where "pte_flags x = x AND PTE_FLAGS_MASK"
definition pte_pfn :: "u64 \<Rightarrow> u64" where "pte_pfn x = drop_bit 10 (x AND PTE_PPN_MASK)"
definition pa_to_pte :: "u64 \<Rightarrow> u64" where "pa_to_pte pa = push_bit 10 (drop_bit 12 pa)"
definition pte_to_pa :: "u64 \<Rightarrow> u64" where "pte_to_pa x = push_bit 12 (pte_pfn x)"
definition mk_pte :: "u64 \<Rightarrow> u64 \<Rightarrow> u64" where "mk_pte pa flags = pa_to_pte pa OR flags"
definition pte_leaf :: "u64 \<Rightarrow> bool" where "pte_leaf x \<longleftrightarrow> x AND (PTE_R OR PTE_W OR PTE_X) \<noteq> 0"

definition vpn_index :: "nat \<Rightarrow> u64 \<Rightarrow> u64" where
  "vpn_index level va = drop_bit (12 + 9 * level) va AND 0x1ff"

text \<open>Entry \<open>i\<close> of the table at \<open>t\<close>.\<close>

definition pte_addr :: "ptr \<Rightarrow> u64 \<Rightarrow> ptr" where
  "pte_addr t i = t + 8 * i"

definition ent :: "memory \<Rightarrow> ptr \<Rightarrow> u64 \<Rightarrow> u64" where
  "ent m t i = load64 m (pte_addr t i)"

section \<open>Operations\<close>

definition page_zero :: "ptr \<Rightarrow> memory \<Rightarrow> memory" where
  "page_zero p m = fold (\<lambda>i. store64 (p + 8 * of_nat i) 0) [0..<512] m"

definition pgtable_create :: "'a page_state_scheme \<Rightarrow> ptr \<times> 'a page_state_scheme" where
  "pgtable_create s =
     (let (root, s) = page_alloc s
      in if root = 0 then (0, s) else (root, s\<lparr>mem := page_zero root (mem s)\<rparr>))"

text \<open>The levels of the walk, from \<open>level\<close> down to 0; the null pointer is "no entry".\<close>

fun walk_from ::
  "nat \<Rightarrow> ptr \<Rightarrow> u64 \<Rightarrow> bool \<Rightarrow> 'a page_state_scheme \<Rightarrow> (ptr \<times> 'a page_state_scheme) option" where
  "walk_from 0 table va alloc s = Some (pte_addr table (vpn_index 0 va), s)"
| "walk_from (Suc l) table va alloc s =
     (let pte = pte_addr table (vpn_index (Suc l) va);
          v = load64 (mem s) pte
      in if pte_present v
         then do { kassert (\<not> pte_leaf v); walk_from l (pte_to_pa v) va alloc s }
         else if \<not> alloc then Some (0, s)
         else let (t, s) = pgtable_create s
              in if t = 0 then Some (0, s)
                 else walk_from l t va alloc (s\<lparr>mem := store64 pte (mk_pte t PTE_V) (mem s)\<rparr>))"

definition pgtable_walk ::
  "ptr \<Rightarrow> u64 \<Rightarrow> bool \<Rightarrow> 'a page_state_scheme \<Rightarrow> (ptr \<times> 'a page_state_scheme) option" where
  "pgtable_walk root va alloc s =
     do { kassert (root \<noteq> 0); kassert (va < MAXVA); walk_from 2 root va alloc s }"

text \<open>
  The loops over a range stop at the first address the walk refuses, but their bounds are
  arbitrary words, so they are partial functions; the result of \<open>pgtable_map\<close> is 0 or -1.
\<close>

partial_function (option) map_loop ::
  "ptr \<Rightarrow> u64 \<Rightarrow> u64 \<Rightarrow> u64 \<Rightarrow> u64 \<Rightarrow> 'a page_state_scheme \<Rightarrow> (int \<times> 'a page_state_scheme) option" where
  "map_loop root addr e pa flags s =
     (if addr < e
      then do { (pte, s) \<leftarrow> pgtable_walk root addr True s;
                if pte = 0 then Some (- 1, s)
                else if pte_present (load64 (mem s) pte) then Some (- 1, s)
                else map_loop root (addr + PAGE_SIZE) e (pa + PAGE_SIZE) flags
                       (s\<lparr>mem := store64 pte (mk_pte pa (flags OR PTE_V)) (mem s)\<rparr>) }
      else Some (0, s))"

definition pgtable_map ::
  "ptr \<Rightarrow> u64 \<Rightarrow> u64 \<Rightarrow> u64 \<Rightarrow> u64 \<Rightarrow> 'a page_state_scheme \<Rightarrow> (int \<times> 'a page_state_scheme) option" where
  "pgtable_map root va pa sz flags s =
     do { let start = align_down va PAGE_SIZE;
          let e = align_up (va + sz) PAGE_SIZE;
          kassert (root \<noteq> 0);
          kassert (sz \<noteq> 0);
          kassert (pa AND PAGE_MASK = 0);
          map_loop root start e pa flags s }"

partial_function (option) unmap_loop ::
  "ptr \<Rightarrow> u64 \<Rightarrow> u64 \<Rightarrow> 'a page_state_scheme \<Rightarrow> 'a page_state_scheme option" where
  "unmap_loop root addr e s =
     (if addr < e
      then do { (pte, s) \<leftarrow> pgtable_walk root addr False s;
                kassert (pte \<noteq> 0);
                kassert (pte_present (load64 (mem s) pte));
                kassert (pte_leaf (load64 (mem s) pte));
                unmap_loop root (addr + PAGE_SIZE) e (s\<lparr>mem := store64 pte 0 (mem s)\<rparr>) }
      else Some s)"

definition pgtable_unmap :: "ptr \<Rightarrow> u64 \<Rightarrow> u64 \<Rightarrow> 'a page_state_scheme \<Rightarrow> 'a page_state_scheme option" where
  "pgtable_unmap root va sz s =
     do { let start = align_down va PAGE_SIZE;
          let e = align_up (va + sz) PAGE_SIZE;
          kassert (root \<noteq> 0);
          kassert (sz \<noteq> 0);
          unmap_loop root start e s }"

text \<open>
  \<open>pgtable_free_walk\<close> from entry \<open>i\<close> on. The C function recurses into every table it finds, to a
  depth only the table itself bounds.
\<close>

partial_function (option) free_walk_from ::
  "ptr \<Rightarrow> u64 \<Rightarrow> 'a page_state_scheme \<Rightarrow> 'a page_state_scheme option" where
  "free_walk_from root i s =
     (if i < 512
      then let pte = ent (mem s) root i
           in if \<not> pte_present pte then free_walk_from root (i + 1) s
              else if pte_leaf pte
              then free_walk_from root (i + 1) (s\<lparr>mem := store64 (pte_addr root i) 0 (mem s)\<rparr>)
              else do { kassert (pte_to_pa pte \<noteq> 0);
                        s \<leftarrow> free_walk_from (pte_to_pa pte) 0 s;
                        free_walk_from root (i + 1) (s\<lparr>mem := store64 (pte_addr root i) 0 (mem s)\<rparr>) }
      else page_free root s)"

definition pgtable_free_walk :: "ptr \<Rightarrow> 'a page_state_scheme \<Rightarrow> 'a page_state_scheme option" where
  "pgtable_free_walk root s = do { kassert (root \<noteq> 0); free_walk_from root 0 s }"

section \<open>Entries\<close>

lemma vpn_index_less: "vpn_index l va < 512"
proof -
  have "vpn_index l va = take_bit 9 (drop_bit (12 + 9 * l) va)"
    by (simp add: vpn_index_def take_bit_eq_mask mask_numeral)
  moreover have "unat (take_bit 9 x) < 2 ^ 9" for x :: u64
    unfolding unsigned_take_bit_eq by (rule take_bit_nat_less_exp)
  ultimately have "unat (vpn_index l va) < 2 ^ 9" by simp
  then show ?thesis by (simp add: word_less_nat_alt)
qed

lemma pte_region:
  assumes "i < 512" shows "region (pte_addr t i) 8 \<subseteq> region t 4096"
proof -
  have "unat i < 512" using assms by (simp add: word_less_nat_alt)
  then have "unat (8 * i) = 8 * unat i" by (simp add: unat_word_ariths)
  with \<open>unat i < 512\<close> have "8 * i \<le> 4096" "8 \<le> 4096 - 8 * i"
    by (simp_all add: word_le_nat_alt unat_sub)
  then show ?thesis unfolding pte_addr_def by (rule region_offset_subset)
qed

lemma pte_sep:
  assumes "i < 512" "j < 512" "i \<noteq> j" shows "sep (pte_addr t i) 8 (pte_addr t j) 8"
proof -
  have *: "sep (pte_addr t i) 8 (pte_addr t j) 8" if "i < j" "j < 512" for i j
  proof -
    have l: "unat j < 512" "unat i < unat j" using that by (simp_all add: word_less_nat_alt)
    then have "unat (8 * j) = 8 * unat j" "unat (8 * i) = 8 * unat i" by (simp_all add: unat_word_ariths)
    with l have s: "sep (8 * i) 8 (8 * j) 8" by (intro sep_below) auto
    then show ?thesis by (simp add: sep_def pte_addr_def algebra_simps)
  qed
  from assms show ?thesis using * sep_sym by (metis linorder_neq_iff)
qed

lemma ent_store:
  assumes "i < 512" "j < 512"
  shows "ent (store64 (pte_addr t i) v m) t j = (if i = j then v else ent m t j)"
  using pte_sep [OF assms] by (auto simp: ent_def load64_store64_sep)

lemma ent_cong: "j < 512 \<Longrightarrow> (\<And>x. x \<in> region t 4096 \<Longrightarrow> m' x = m x) \<Longrightarrow> ent m' t j = ent m t j"
  unfolding ent_def by (rule load64_cong) (use pte_region in blast)

lemma pte_store_changes [frame_intros]:
  "i < 512 \<Longrightarrow> region t 4096 \<subseteq> S \<Longrightarrow> only_changes S m m' \<Longrightarrow> only_changes S m (store64 (pte_addr t i) v m')"
  using pte_region by (intro only_changes_store64) blast+

lemma page_zero_fold:
  "n \<le> 512 \<Longrightarrow> only_changes (region p 4096) m (fold (\<lambda>i. store64 (p + 8 * of_nat i) 0) [0..<n] m) \<and>
   (\<forall>i<n. ent (fold (\<lambda>i. store64 (p + 8 * of_nat i) 0) [0..<n] m) p (of_nat i) = 0)"
proof (induction n)
  case (Suc n)
  have a: "p + 8 * of_nat n = pte_addr p (of_nat n)" by (simp add: pte_addr_def)
  have n: "(of_nat n :: u64) < 512" using Suc.prems by (simp add: word_less_nat_alt unat_of_nat)
  have "ent (store64 (pte_addr p (of_nat n)) 0 m') p (of_nat i) = (if n = i then 0 else ent m' p (of_nat i))"
    if "i < Suc n" for i m'
  proof -
    have i: "(of_nat i :: u64) < 512" using that Suc.prems by (simp add: word_less_nat_alt unat_of_nat)
    have "(of_nat n :: u64) = of_nat i \<longleftrightarrow> n = i"
      using that Suc.prems by (simp add: word_unat_eq_iff unat_of_nat)
    then show ?thesis using ent_store [OF n i] by simp
  qed
  with Suc n show ?case by (auto simp: a less_Suc_eq intro: pte_store_changes)
qed simp

lemma page_zero_changes: "only_changes (region p 4096) m (page_zero p m)"
  using page_zero_fold [of 512 p m] by (simp add: page_zero_def)

lemma ent_page_zero: "i < 512 \<Longrightarrow> ent (page_zero p m) p i = 0"
proof -
  assume "i < 512"
  then have "unat i < 512" by (simp add: word_less_nat_alt)
  with page_zero_fold [of 512 p m] have "ent (page_zero p m) p (of_nat (unat i)) = 0"
    unfolding page_zero_def by blast
  then show ?thesis by simp
qed

text \<open>A pointer to a table survives its encoding in an entry.\<close>

lemma take_bit_eq_self: "unat (t::u64) < 2 ^ n \<Longrightarrow> take_bit n t = t"
proof -
  assume "unat t < 2 ^ n"
  then have "unat (take_bit n t) = unat t" unfolding unsigned_take_bit_eq by (rule take_bit_nat_eq_self)
  then show ?thesis by (rule unsigned_word_eqI)
qed

lemma bit_above: "take_bit n (t::u64) = t \<Longrightarrow> n \<le> k \<Longrightarrow> \<not> bit t k"
  by (metis bit_take_bit_iff not_le)

lemma page_aligned_bit: "page_aligned t \<Longrightarrow> k < 12 \<Longrightarrow> \<not> bit t k"
proof -
  assume "page_aligned t" "k < 12"
  then have "take_bit 12 t = 0" by (simp add: page_aligned_def and_page_mask)
  then have "\<not> bit (take_bit 12 t) k" by simp
  with \<open>k < 12\<close> show ?thesis by (simp add: bit_take_bit_iff)
qed

lemma bit_masks:
  "bit (push_bit 10 (mask 44) :: u64) k \<longleftrightarrow> 10 \<le> k \<and> k < 54"
  "bit (push_bit 1 (mask 3) :: u64) k \<longleftrightarrow> k = 1 \<or> k = 2 \<or> k = 3"
  by (simp only: bit_push_bit_iff bit_mask_iff possible_bit_word, simp, linarith)+

lemma bit_PPN_MASK: "bit PTE_PPN_MASK k \<longleftrightarrow> 10 \<le> k \<and> k < 54"
proof -
  have a: "PTE_PPN_MASK = push_bit 10 (mask 44)" by (simp add: PTE_PPN_MASK_def mask_eq_exp_minus_1)
  show ?thesis unfolding a by (rule bit_masks)
qed

lemma bit_pte_to_pa: "bit (pte_to_pa x) n \<longleftrightarrow> 12 \<le> n \<and> n < 56 \<and> bit x (n - 2)"
proof (cases "12 \<le> n")
  case True
  then have e: "10 + (n - 12) = n - 2" "10 \<le> n - 2" "n - 2 < 54 \<longleftrightarrow> n < 56" by linarith+
  have "bit (pte_to_pa x) n \<longleftrightarrow> n < 64 \<and> bit x (n - 2) \<and> n < 56"
    unfolding pte_to_pa_def pte_pfn_def bit_push_bit_iff bit_drop_bit_eq bit_and_iff bit_PPN_MASK comp_def e
    using True e(2) by auto
  with True show ?thesis by auto
next
  case False
  then show ?thesis by (simp add: pte_to_pa_def bit_push_bit_iff)
qed

lemma bit_mk_pte: "bit (mk_pte t fl) n \<longleftrightarrow> (10 \<le> n \<and> n < 64 \<and> bit t (n + 2)) \<or> bit fl n"
  by (auto simp: mk_pte_def pa_to_pte_def bit_simps)

lemma pte_to_pa_mk_pte:
  assumes "page_aligned t" "unat t < 2 ^ 56" "take_bit 10 fl = fl"
  shows "pte_to_pa (mk_pte t fl) = t"
proof (rule bit_word_eqI)
  fix n assume "n < LENGTH(64)"
  consider "n < 12" | "56 \<le> n" | k where "n = k + 2" "10 \<le> k" "k < 54"
  proof -
    have "n = (n - 2) + 2 \<and> 10 \<le> n - 2 \<and> n - 2 < 54" if "\<not> n < 12" "\<not> 56 \<le> n" using that by linarith
    then show ?thesis using that by blast
  qed
  then show "bit (pte_to_pa (mk_pte t fl)) n = bit t n"
  proof cases
    case 1 then show ?thesis using page_aligned_bit [OF assms(1)] by (simp add: bit_pte_to_pa)
  next
    case 2 then show ?thesis using bit_above [OF take_bit_eq_self [OF assms(2)]] by (simp add: bit_pte_to_pa)
  next
    case 3 then show ?thesis using bit_above [OF assms(3)] by (simp add: bit_pte_to_pa bit_mk_pte)
  qed
qed

lemma pte_present_bit: "pte_present x \<longleftrightarrow> bit x 0"
  by (simp add: pte_present_def PTE_V_def and_exp_eq_0_iff_not_bit [of x 0, simplified])

lemma bit_14: "bit (14::u64) n \<longleftrightarrow> n = 1 \<or> n = 2 \<or> n = 3"
proof -
  have b: "(14::u64) = push_bit 1 (mask 3)" by (simp add: mask_numeral)
  show ?thesis unfolding b by (rule bit_masks)
qed

lemma pte_leaf_bit: "pte_leaf x \<longleftrightarrow> bit x 1 \<or> bit x 2 \<or> bit x 3"
proof -
  have "PTE_R OR PTE_W OR PTE_X = 14" by (simp add: pte_bits)
  then have "pte_leaf x \<longleftrightarrow> x AND 14 \<noteq> 0" by (simp only: pte_leaf_def)
  also have "\<dots> \<longleftrightarrow> (\<exists>n. bit (x AND 14) n)" by (metis bit_0_eq bot_apply bot_bool_def bit_eq_iff)
  also have "\<dots> \<longleftrightarrow> bit x 1 \<or> bit x 2 \<or> bit x 3" unfolding bit_and_iff bit_14 by blast
  finally show ?thesis .
qed

lemma mk_pte_present [simp]: "pte_present (mk_pte t (fl OR PTE_V))" "pte_present (mk_pte t PTE_V)"
  by (simp_all add: pte_present_bit bit_mk_pte bit_or_iff PTE_V_def)

lemma mk_pte_leaf [simp]: "pte_leaf (mk_pte t fl) \<longleftrightarrow> pte_leaf fl"
  by (simp add: pte_leaf_bit bit_mk_pte)

lemma pte_zero [simp]: "\<not> pte_present 0" "\<not> pte_leaf 0" "\<not> pte_leaf PTE_V"
  by (simp_all add: pte_present_bit pte_leaf_bit PTE_V_def)

lemma pte_leaf_or [simp]: "pte_leaf (x OR y) \<longleftrightarrow> pte_leaf x \<or> pte_leaf y"
  by (auto simp: pte_leaf_bit bit_or_iff)

section \<open>Page tables as trees\<close>

definition child :: "memory \<Rightarrow> ptr \<Rightarrow> u64 \<Rightarrow> ptr" where
  "child m t i = pte_to_pa (ent m t i)"

definition kids :: "memory \<Rightarrow> ptr \<Rightarrow> u64 set" where
  "kids m t = {i. i < 512 \<and> pte_present (ent m t i)}"

fun ptables :: "memory \<Rightarrow> nat \<Rightarrow> ptr \<Rightarrow> ptr set" where
  "ptables m 0 t = {t}"
| "ptables m (Suc l) t = insert t (\<Union>i\<in>kids m t. ptables m l (child m t i))"

fun pwf :: "memory \<Rightarrow> nat \<Rightarrow> ptr \<Rightarrow> bool" where
  "pwf m 0 t \<longleftrightarrow> (\<forall>i\<in>kids m t. pte_leaf (ent m t i))"
| "pwf m (Suc l) t \<longleftrightarrow>
     (\<forall>i\<in>kids m t. \<not> pte_leaf (ent m t i) \<and> pwf m l (child m t i) \<and> t \<notin> ptables m l (child m t i) \<and>
        (\<forall>j\<in>kids m t. i \<noteq> j \<longrightarrow> ptables m l (child m t i) \<inter> ptables m l (child m t j) = {}))"

text \<open>The address of the entry for \<open>va\<close>, null when a table on the way is missing, and its value.\<close>

fun pslot :: "memory \<Rightarrow> nat \<Rightarrow> ptr \<Rightarrow> u64 \<Rightarrow> ptr" where
  "pslot m 0 t va = pte_addr t (vpn_index 0 va)"
| "pslot m (Suc l) t va =
     (if pte_present (ent m t (vpn_index (Suc l) va)) then pslot m l (child m t (vpn_index (Suc l) va)) va
      else 0)"

fun plookup :: "memory \<Rightarrow> nat \<Rightarrow> ptr \<Rightarrow> u64 \<Rightarrow> u64" where
  "plookup m 0 t va = ent m t (vpn_index 0 va)"
| "plookup m (Suc l) t va =
     (if pte_present (ent m t (vpn_index (Suc l) va)) then plookup m l (child m t (vpn_index (Suc l) va)) va
      else 0)"

definition same_page :: "nat \<Rightarrow> u64 \<Rightarrow> u64 \<Rightarrow> bool" where
  "same_page l va va' \<longleftrightarrow> (\<forall>k\<le>l. vpn_index k va = vpn_index k va')"

definition table_bytes :: "ptr set \<Rightarrow> u64 set" where
  "table_bytes T = (\<Union>t\<in>T. region t 4096)"

lemma kids_less: "i \<in> kids m t \<Longrightarrow> i < 512"
  by (simp add: kids_def)

lemma ptables_root [simp]: "t \<in> ptables m l t"
  by (cases l) auto

lemma table_bytes_simps [simp]:
  "table_bytes {} = {}" "table_bytes (insert t T) = region t 4096 \<union> table_bytes T"
  "table_bytes (S \<union> T) = table_bytes S \<union> table_bytes T"
  by (auto simp: table_bytes_def)

lemma table_bytes_mono: "S \<subseteq> T \<Longrightarrow> table_bytes S \<subseteq> table_bytes T"
  by (auto simp: table_bytes_def)

text \<open>Only the pages of the tree matter.\<close>

lemma tree_frame:
  assumes "\<And>x. x \<in> table_bytes (ptables m l t) \<Longrightarrow> m' x = m x"
  shows "ptables m' l t = ptables m l t \<and> pwf m' l t = pwf m l t \<and> pslot m' l t va = pslot m l t va \<and>
    plookup m' l t va = plookup m l t va"
  using assms
proof (induction l arbitrary: t)
  case 0
  have e: "ent m' t i = ent m t i" if "i < 512" for i
    by (rule ent_cong [OF that]) (use 0 in \<open>auto simp: table_bytes_def\<close>)
  then have "kids m' t = kids m t" by (auto simp: kids_def)
  then show ?case using e vpn_index_less [of 0 va] by (auto simp: kids_def)
next
  case (Suc l)
  have e: "ent m' t i = ent m t i" if "i < 512" for i
    by (rule ent_cong [OF that]) (use Suc.prems in \<open>auto simp: table_bytes_def\<close>)
  then have k: "kids m' t = kids m t" "\<And>i. i < 512 \<Longrightarrow> child m' t i = child m t i"
    by (auto simp: kids_def child_def)
  have ih: "ptables m' l (child m t i) = ptables m l (child m t i) \<and> pwf m' l (child m t i) = pwf m l (child m t i) \<and>
    pslot m' l (child m t i) va = pslot m l (child m t i) va \<and> plookup m' l (child m t i) va = plookup m l (child m t i) va"
    if "i \<in> kids m t" for i
    by (rule Suc.IH) (use Suc.prems that in \<open>auto simp: table_bytes_def\<close>)
  have v: "vpn_index (Suc l) va < 512" by (rule vpn_index_less)
  have c: "child m' t i = child m t i" if "i \<in> kids m t" for i using k(2) kids_less that by blast
  have P: "ptables m' (Suc l) t = ptables m (Suc l) t" using k(1) c ih by simp
  have W: "pwf m' (Suc l) t = pwf m (Suc l) t"
    using k(1) c ih e kids_less by (simp cong: ball_cong)
  have "vpn_index (Suc l) va \<in> kids m t" if "pte_present (ent m t (vpn_index (Suc l) va))"
    using that v by (simp add: kids_def)
  then show ?case using P W e [OF v] k(2) [OF v] ih by auto
qed

lemmas ptables_frame = tree_frame [THEN conjunct1]
  and pwf_frame = tree_frame [THEN conjunct2, THEN conjunct1]
  and pslot_frame = tree_frame [THEN conjunct2, THEN conjunct2, THEN conjunct1]
  and plookup_frame = tree_frame [THEN conjunct2, THEN conjunct2, THEN conjunct2]

lemma plookup_slot: "pslot m l t va \<noteq> 0 \<Longrightarrow> plookup m l t va = load64 m (pslot m l t va)"
  by (induction l arbitrary: t) (auto simp: ent_def)

lemma walk_lookup:
  "pwf (mem s) l t \<Longrightarrow> walk_from l t va False s = Some (pslot (mem s) l t va, s)"
proof (induction l arbitrary: t)
  case (Suc l)
  show ?case
  proof (cases "pte_present (ent (mem s) t (vpn_index (Suc l) va))")
    case True
    then have "vpn_index (Suc l) va \<in> kids (mem s) t" by (simp add: kids_def vpn_index_less)
    with Suc True show ?thesis by (simp add: ent_def child_def Let_def)
  qed (simp add: ent_def Let_def)
qed simp

lemma walk_existing:
  "pwf (mem s) l t \<Longrightarrow> pslot (mem s) l t va \<noteq> 0 \<Longrightarrow>
   walk_from l t va alloc s = Some (pslot (mem s) l t va, s)"
proof (induction l arbitrary: t)
  case (Suc l)
  then have p: "pte_present (ent (mem s) t (vpn_index (Suc l) va))" by (auto split: if_splits)
  then have "vpn_index (Suc l) va \<in> kids (mem s) t" by (simp add: kids_def vpn_index_less)
  with Suc p show ?case by (simp add: ent_def child_def Let_def)
qed simp

lemma table_bytes_disjoint:
  assumes "\<forall>p\<in>S \<union> T. page_aligned p" "S \<inter> T = {}"
  shows "table_bytes S \<inter> table_bytes T = {}"
proof -
  have "region p 4096 \<inter> region q 4096 = {}" if "p \<in> S" "q \<in> T" for p q
    using that assms by (intro sep_disjoint page_aligned_sep) auto
  then show ?thesis by (auto simp: table_bytes_def)
qed

lemma subtree_update:
  assumes wf: "pwf m (Suc l) t" and i: "i \<in> kids m t" and wf': "pwf m' l (child m t i)"
    and ch: "only_changes (table_bytes (ptables m' l (child m t i)) \<union> F) m m'"
    and F: "F \<inter> table_bytes (ptables m (Suc l) t) = {}"
    and new: "ptables m' l (child m t i) \<inter> (ptables m (Suc l) t - ptables m l (child m t i)) = {}"
    and al: "\<forall>p\<in>ptables m (Suc l) t \<union> ptables m' l (child m t i). page_aligned p"
  shows "pwf m' (Suc l) t"
    "ptables m' (Suc l) t = (ptables m (Suc l) t - ptables m l (child m t i)) \<union> ptables m' l (child m t i)"
    "plookup m' (Suc l) t va =
      (if vpn_index (Suc l) va = i then plookup m' l (child m t i) va else plookup m (Suc l) t va)"
    "pslot m' (Suc l) t va =
      (if vpn_index (Suc l) va = i then pslot m' l (child m t i) va else pslot m (Suc l) t va)"
proof -
  let ?c = "child m t" and ?R = "ptables m (Suc l) t - ptables m l (child m t i)"
  have "table_bytes ?R \<inter> table_bytes (ptables m' l (?c i)) = {}"
    by (rule table_bytes_disjoint) (use al new in auto)
  moreover have "table_bytes ?R \<inter> F = {}" using F table_bytes_mono [of ?R "ptables m (Suc l) t"] by blast
  ultimately have same: "m' x = m x" if "x \<in> table_bytes ?R" for x
    using that ch by (auto simp: only_changes_def)
  have tR: "t \<in> ?R" using wf i by auto
  have e: "ent m' t j = ent m t j" if "j < 512" for j
    by (rule ent_cong [OF that]) (use same tR in \<open>auto simp: table_bytes_def\<close>)
  then have k: "kids m' t = kids m t" by (auto simp: kids_def)
  have c: "child m' t j = ?c j" if "j \<in> kids m t" for j
    using e [OF kids_less [OF that]] by (simp add: child_def)
  have sub: "ptables m l (?c j) \<subseteq> ?R" if "j \<in> kids m t" "j \<noteq> i" for j
  proof -
    have "ptables m l (?c j) \<inter> ptables m l (?c i) = {}" using wf i that by simp
    moreover have "ptables m l (?c j) \<subseteq> ptables m (Suc l) t" using that by auto
    ultimately show ?thesis by blast
  qed
  have fr: "ptables m' l (?c j) = ptables m l (?c j) \<and> pwf m' l (?c j) = pwf m l (?c j) \<and>
    pslot m' l (?c j) va = pslot m l (?c j) va \<and> plookup m' l (?c j) va = plookup m l (?c j) va"
    if "j \<in> kids m t" "j \<noteq> i" for j va
    by (rule tree_frame) (use same sub [OF that] table_bytes_mono in blast)
  show P: "ptables m' (Suc l) t = ?R \<union> ptables m' l (?c i)"
  proof -
    have "ptables m' (Suc l) t = insert t (\<Union>j\<in>kids m t. ptables m' l (?c j))"
      using k c by simp
    also have "\<dots> = insert t ((\<Union>j\<in>kids m t - {i}. ptables m l (?c j)) \<union> ptables m' l (?c i))"
      using fr i by (auto 4 3)
    also have "\<dots> = insert t (\<Union>j\<in>kids m t - {i}. ptables m l (?c j)) \<union> ptables m' l (?c i)" by simp
    also have "insert t (\<Union>j\<in>kids m t - {i}. ptables m l (?c j)) = ?R"
      using wf i by auto
    finally show ?thesis .
  qed
  have dj: "ptables m' l (?c j) \<inter> ptables m' l (?c j') = {}"
    if "j \<in> kids m t" "j' \<in> kids m t" "j \<noteq> j'" for j j'
  proof -
    consider "j = i" | "j' = i" | "j \<noteq> i" "j' \<noteq> i" by blast
    then show ?thesis
    proof cases
      case 1 then show ?thesis using fr [of j'] sub [of j'] that new by blast
    next
      case 2 then show ?thesis using fr [of j] sub [of j] that new by blast
    next
      case 3 then show ?thesis using fr that wf by simp
    qed
  qed
  have tn: "t \<notin> ptables m' l (?c j)" if "j \<in> kids m t" for j
    using fr [of j] new tR wf that by (cases "j = i") auto
  have lf: "\<not> pte_leaf (ent m' t j) \<and> pwf m' l (?c j)" if "j \<in> kids m t" for j
    using that wf wf' fr [of j] e [OF kids_less [OF that]] by (cases "j = i") auto
  show "pwf m' (Suc l) t" using k c lf tn dj by simp
  let ?j = "vpn_index (Suc l) va"
  have j: "?j < 512" by (rule vpn_index_less)
  show "plookup m' (Suc l) t va =
      (if ?j = i then plookup m' l (?c i) va else plookup m (Suc l) t va)"
    "pslot m' (Suc l) t va =
      (if ?j = i then pslot m' l (?c i) va else pslot m (Suc l) t va)"
  proof -
    have "?j \<in> kids m t \<longleftrightarrow> pte_present (ent m t ?j)" using j by (simp add: kids_def)
    then show "plookup m' (Suc l) t va = (if ?j = i then plookup m' l (?c i) va else plookup m (Suc l) t va)"
      "pslot m' (Suc l) t va = (if ?j = i then pslot m' l (?c i) va else pslot m (Suc l) t va)"
      using e [OF j] c [of ?j] fr [of ?j va] i by auto
  qed
qed

lemma leaf_store:
  assumes "pwf m l t" "\<forall>p\<in>ptables m l t. page_aligned p" "pslot m l t va \<noteq> 0"
    and "pte_present v \<longrightarrow> pte_leaf v"
  shows "pwf (store64 (pslot m l t va) v m) l t \<and> ptables (store64 (pslot m l t va) v m) l t = ptables m l t \<and>
    only_changes (table_bytes (ptables m l t)) m (store64 (pslot m l t va) v m) \<and>
    (\<forall>va'. plookup (store64 (pslot m l t va) v m) l t va' = (if same_page l va va' then v else plookup m l t va') \<and>
       pslot (store64 (pslot m l t va) v m) l t va' = pslot m l t va')"
  using assms
proof (induction l arbitrary: t)
  case 0
  let ?i = "vpn_index 0 va" and ?m = "store64 (pte_addr t (vpn_index 0 va)) v m"
  have e: "ent ?m t j = (if ?i = j then v else ent m t j)" if "j < 512" for j
    by (rule ent_store [OF vpn_index_less that])
  have "only_changes (region t 4096) m ?m" by (intro frame_intros vpn_index_less) simp_all
  then show ?case
    using 0 e vpn_index_less by (auto simp: kids_def same_page_def)
next
  case (Suc l)
  let ?i = "vpn_index (Suc l) va"
  have p: "pte_present (ent m t ?i)" using Suc.prems(3) by (simp split: if_splits)
  then have i: "?i \<in> kids m t" by (simp add: kids_def vpn_index_less)
  let ?c = "child m t ?i"
  have sl: "pslot m (Suc l) t va = pslot m l ?c va" using p by simp
  let ?m = "store64 (pslot m l ?c va) v m"
  have sub: "ptables m l ?c \<subseteq> ptables m (Suc l) t" using i by auto
  have "pwf m l ?c" "pslot m l ?c va \<noteq> 0" "\<forall>p\<in>ptables m l ?c. page_aligned p"
    using Suc.prems i p sub by (simp, simp, blast)
  from Suc.IH [OF this(1,3,2) Suc.prems(4)]
  have ih: "pwf ?m l ?c" "ptables ?m l ?c = ptables m l ?c" "only_changes (table_bytes (ptables m l ?c)) m ?m"
    "\<And>va'. plookup ?m l ?c va' = (if same_page l va va' then v else plookup m l ?c va')"
    "\<And>va'. pslot ?m l ?c va' = pslot m l ?c va'" by auto
  have al: "\<forall>p\<in>ptables m (Suc l) t \<union> ptables ?m l ?c. page_aligned p"
    and new: "ptables ?m l ?c \<inter> (ptables m (Suc l) t - ptables m l ?c) = {}"
    and ch: "only_changes (table_bytes (ptables ?m l ?c) \<union> {}) m ?m"
    using ih(2,3) sub Suc.prems(2) by auto
  note up = subtree_update [OF Suc.prems(1) i ih(1) ch _ new al, simplified Int_empty_left, OF refl]
  have P: "ptables ?m (Suc l) t = ptables m (Suc l) t"
    unfolding up(2) unfolding ih(2) using sub by blast
  have "plookup ?m (Suc l) t va' = (if same_page (Suc l) va va' then v else plookup m (Suc l) t va')" for va'
  proof (cases "vpn_index (Suc l) va' = ?i")
    case True
    then have "same_page (Suc l) va va' = same_page l va va'" by (auto simp: same_page_def le_Suc_eq)
    with True p show ?thesis unfolding up(3) ih(4) by simp
  next
    case False
    then have "\<not> same_page (Suc l) va va'" by (auto simp: same_page_def)
    with False show ?thesis unfolding up(3) by simp
  qed
  moreover have "pslot ?m (Suc l) t va' = pslot m (Suc l) t va'" for va'
    unfolding up(4) ih(5) using p by simp
  moreover have "only_changes (table_bytes (ptables m (Suc l) t)) m ?m"
    by (rule only_changes_mono [OF ih(3) table_bytes_mono [OF sub]])
  ultimately show ?case using up(1) P unfolding sl by blast
qed

lemma take_bit_PTE_V [simp]: "take_bit 10 PTE_V = PTE_V"
  by (simp add: PTE_V_def)

lemma add_child:
  assumes wf: "pwf m (Suc l) t" and i: "i < 512" "\<not> pte_present (ent m t i)"
    and q: "page_aligned q" "unat q < 2 ^ 56" "q \<notin> ptables m (Suc l) t"
    and same: "\<And>x. x \<in> table_bytes (ptables m (Suc l) t - {t}) \<Longrightarrow> m' x = m x"
    and e: "\<And>j. j < 512 \<Longrightarrow> ent m' t j = (if j = i then mk_pte q PTE_V else ent m t j)"
    and z: "\<And>j. j < 512 \<Longrightarrow> ent m' q j = 0"
  shows "pwf m' (Suc l) t" "ptables m' (Suc l) t = insert q (ptables m (Suc l) t)"
    "plookup m' (Suc l) t va = plookup m (Suc l) t va" "i \<in> kids m' t" "child m' t i = q"
    "pwf m' l q" "ptables m' l q = {q}" "plookup m' l q va = 0"
proof -
  have c: "child m' t i = q" using e [OF i(1)] q by (simp add: child_def pte_to_pa_mk_pte)
  have k: "kids m' t = insert i (kids m t)" using e i by (auto simp: kids_def)
  have ni: "i \<notin> kids m t" using i by (simp add: kids_def)
  have kq: "kids m' q = {}" using z by (auto simp: kids_def)
  show Q: "pwf m' l q" "ptables m' l q = {q}" by (cases l; simp add: kq)+
  show "plookup m' l q va = 0" using z [OF vpn_index_less] by (cases l) auto
  show "i \<in> kids m' t" "child m' t i = q" using k c by simp_all
  have cj: "child m' t j = child m t j" if "j \<in> kids m t" for j
    using e [OF kids_less [OF that]] that ni by (auto simp: child_def)
  have fr: "ptables m' l (child m t j) = ptables m l (child m t j) \<and> pwf m' l (child m t j) = pwf m l (child m t j) \<and>
    pslot m' l (child m t j) va = pslot m l (child m t j) va \<and>
    plookup m' l (child m t j) va = plookup m l (child m t j) va" if j: "j \<in> kids m t" for j va
  proof (rule tree_frame)
    fix x assume "x \<in> table_bytes (ptables m l (child m t j))"
    moreover have "ptables m l (child m t j) \<subseteq> ptables m (Suc l) t - {t}" using wf j by auto
    ultimately show "m' x = m x" using same table_bytes_mono by blast
  qed
  show "ptables m' (Suc l) t = insert q (ptables m (Suc l) t)"
    using k c cj fr Q by auto
  have qj: "q \<notin> ptables m l (child m t j)" if "j \<in> kids m t" for j using q(3) that by auto
  have tq: "t \<noteq> q" using q(3) by auto
  have dj: "ptables m' l (child m' t a) \<inter> ptables m' l (child m' t b) = {}"
    if "a \<in> kids m' t" "b \<in> kids m' t" "a \<noteq> b" for a b
  proof (cases "a = i \<or> b = i")
    case True
    then show ?thesis using that k c Q(2) cj fr qj by auto
  next
    case False
    then have "a \<in> kids m t" "b \<in> kids m t" using that k by auto
    then show ?thesis using wf cj fr that(3) by simp
  qed
  have lf: "\<not> pte_leaf (ent m' t j) \<and> pwf m' l (child m' t j) \<and> t \<notin> ptables m' l (child m' t j)"
    if "j \<in> kids m' t" for j
  proof (cases "j = i")
    case True
    then show ?thesis using e [OF i(1)] c Q tq by simp
  next
    case False
    then have j: "j \<in> kids m t" using that k by simp
    then show ?thesis using wf cj [OF j] fr [OF j] e [OF kids_less [OF j]] False by simp
  qed
  show "pwf m' (Suc l) t" using lf dj by simp
  let ?j = "vpn_index (Suc l) va"
  have j: "?j < 512" by (rule vpn_index_less)
  show "plookup m' (Suc l) t va = plookup m (Suc l) t va"
  proof (cases "?j = i")
    case True
    then show ?thesis using e [OF i(1)] i(2) c z [OF vpn_index_less] by (cases l) auto
  next
    case False
    then have "?j \<in> kids m t" if "pte_present (ent m t ?j)" using that j by (simp add: kids_def)
    then show ?thesis using e [OF j] False cj [of ?j] fr [of ?j va] by auto
  qed
qed

definition frames_ok :: "'a page_state_scheme \<Rightarrow> ptr set \<Rightarrow> bool" where
  "frames_ok s F \<longleftrightarrow> (\<forall>p\<in>F. page_ok s p \<and> unat p < 2 ^ 56)"

lemma frames_okD: "frames_ok s F \<Longrightarrow> p \<in> F \<Longrightarrow> page_ok s p"
  by (simp add: frames_ok_def)

lemma frames_ok_aligned: "frames_ok s F \<Longrightarrow> p \<in> F \<Longrightarrow> page_aligned p"
  by (simp add: frames_ok_def page_ok_def)

lemma frames_ok_mono: "frames_ok s F \<Longrightarrow> G \<subseteq> F \<Longrightarrow> frames_ok s G"
  by (auto simp: frames_ok_def)

lemma frames_ok_Un: "frames_ok s (F \<union> G) \<longleftrightarrow> frames_ok s F \<and> frames_ok s G"
  by (auto simp: frames_ok_def)

lemma foot_disjoint_tables:
  assumes "page_inv s ps" "frames_ok s T" "T \<inter> set ps = {}"
  shows "page_foot s ps \<inter> table_bytes T = {}"
proof -
  have "region t 4096 \<inter> page_foot s ps = {}" if "t \<in> T" for t
    using page_foot_pages [OF assms(1), of t] assms(2,3) that by (auto simp: frames_ok_def)
  then show ?thesis by (auto simp: table_bytes_def)
qed

lemma page_inv_write_tables:
  assumes "page_inv s ps" "frames_ok s T" "T \<inter> set ps = {}" "only_changes (table_bytes T) (mem s) m"
  shows "page_inv (s\<lparr>mem := m\<rparr>) ps"
  using page_inv_frame [OF assms(1,4)] foot_disjoint_tables [OF assms(1-3)] by blast

lemma ptables_child: "i \<in> kids m t \<Longrightarrow> ptables m l (child m t i) \<subseteq> ptables m (Suc l) t"
  by auto

declare ptables.simps(2) [simp del]

definition walk_result ::
  "nat \<Rightarrow> ptr \<Rightarrow> u64 \<Rightarrow> 'a page_state_scheme \<Rightarrow> ptr list \<Rightarrow> ptr \<Rightarrow> 'a page_state_scheme \<Rightarrow> ptr list \<Rightarrow> ptr list \<Rightarrow> bool" where
  "walk_result l t va s ps r s' new ps' \<longleftrightarrow>
     walk_from l t va True s = Some (r, s') \<and> ps = new @ ps' \<and> page_inv s' ps' \<and> page_step s s' \<and>
     pwf (mem s') l t \<and> ptables (mem s') l t = ptables (mem s) l t \<union> set new \<and>
     (\<forall>va. plookup (mem s') l t va = plookup (mem s) l t va) \<and> r = pslot (mem s') l t va \<and>
     (r = 0 \<longrightarrow> ps' = []) \<and> length new \<le> l \<and>
     only_changes (page_foot s ps \<union> table_bytes (ptables (mem s') l t)) (mem s) (mem s')"

lemma pte_addr_nonzero: "page_ok s t \<Longrightarrow> i < 512 \<Longrightarrow> pte_addr t i \<noteq> 0"
proof
  assume "page_ok s t" "i < 512" "pte_addr t i = 0"
  moreover have "pte_addr t i \<in> region (pte_addr t i) 8" by (simp add: region_iff)
  ultimately show False using page_ok_no_zero [of s t] pte_region [of i t] by auto
qed

lemma page_foot_step: "page_step s s' \<Longrightarrow> page_foot s' ps = page_foot s ps"
  by (simp add: page_step_fields)

lemma page_foot_mono: "set ps \<subseteq> set qs \<Longrightarrow> page_foot s ps \<subseteq> page_foot s qs"
  by (rule node_bytes_mono) auto

lemma page_step_mem: "page_step s s' \<Longrightarrow> page_step s (s'\<lparr>mem := m\<rparr>)"
proof -
  assume "page_step s s'"
  then obtain k n where s': "s' = s\<lparr>mem := k, nr_free_pages := n\<rparr>" by (auto simp: page_step_def)
  have "s'\<lparr>mem := m\<rparr> = s\<lparr>mem := m, nr_free_pages := n\<rparr>" by (simp add: s')
  then show ?thesis by (simp only: page_stepI)
qed

lemma frames_ok_step: "page_step s s' \<Longrightarrow> frames_ok s' = frames_ok s"
  by (simp add: frames_ok_def fun_eq_iff page_step_fields)

lemma pgtable_create_cases:
  assumes "page_inv s ps" "frames_ok s (set ps)"
  obtains (none) "ps = []" "pgtable_create s = (0, s)"
  | (some) q qs s' where "ps = q # qs" "pgtable_create s = (q, s')" "page_inv s' qs" "page_step s s'"
      "page_ok s q" "unat q < 2 ^ 56" "q \<notin> set qs" "q \<noteq> 0"
      "only_changes (page_foot s ps \<union> region q 4096) (mem s) (mem s')"
      "\<And>j. j < 512 \<Longrightarrow> ent (mem s') q j = 0"
proof (rule page_alloc_cases [OF assms(1)])
  assume "ps = []" "page_alloc s = (0, s)"
  then show thesis by (intro none) (simp_all add: pgtable_create_def)
next
  fix q qs s1
  assume s1: "ps = q # qs" "page_alloc s = (q, s1)" "page_inv s1 qs" "page_step s s1" "page_ok s q"
    "q \<notin> set qs" "only_changes (page_foot s ps) (mem s) (mem s1)"
  let ?s = "s1\<lparr>mem := page_zero q (mem s1)\<rparr>"
  have q0: "q \<noteq> 0" using s1(5) by (simp add: page_ok_def)
  show thesis
  proof (rule some [of q qs ?s])
    show "page_inv ?s qs"
      by (rule page_inv_write_page [OF s1(3) _ s1(6) page_zero_changes])
        (simp add: page_step_fields(3) [OF s1(4)] s1(5))
    show "only_changes (page_foot s ps \<union> region q 4096) (mem s) (mem ?s)"
      using only_changes_trans [OF s1(7) page_zero_changes] by simp
    show "page_step s ?s" using s1(4) by (rule page_step_mem)
    show "pgtable_create s = (q, ?s)" using s1(2) q0 by (simp add: pgtable_create_def)
    show "unat q < 2 ^ 56" using assms(2) s1(1) by (simp add: frames_ok_def)
  qed (use s1 q0 ent_page_zero in auto)
qed

text \<open>The step that adds a table \<open>q\<close> below \<open>t\<close>, and the rest of the walk in it.\<close>

lemma walk_alloc_new:
  fixes s :: "'a page_state_scheme"
  assumes wf: "pwf (mem s) (Suc l) t" and pi: "page_inv s ps"
    and fr: "frames_ok s (ptables (mem s) (Suc l) t \<union> set ps)"
    and dj: "ptables (mem s) (Suc l) t \<inter> set ps = {}"
    and np: "\<not> pte_present (ent (mem s) t (vpn_index (Suc l) va))"
    and q: "ps = q # qs" "page_inv s1 qs" "page_step s s1" "page_ok s q" "unat q < 2 ^ 56" "q \<notin> set qs"
      "only_changes (page_foot s ps \<union> region q 4096) (mem s) (mem s1)"
      "\<And>j. j < 512 \<Longrightarrow> ent (mem s1) q j = 0"
    and IH: "\<And>t (s::'a page_state_scheme) ps. pwf (mem s) l t \<Longrightarrow> page_inv s ps \<Longrightarrow>
      frames_ok s (ptables (mem s) l t \<union> set ps) \<Longrightarrow> ptables (mem s) l t \<inter> set ps = {} \<Longrightarrow>
      \<exists>r s' new ps'. walk_result l t va s ps r s' new ps'"
  defines "s2 \<equiv> s1\<lparr>mem := store64 (pte_addr t (vpn_index (Suc l) va)) (mk_pte q PTE_V) (mem s1)\<rparr>"
  shows "\<exists>r s' new ps'. walk_result l q va s2 qs r s' new ps' \<and>
    (walk_from (Suc l) t va True s = Some (r, s') \<longrightarrow> walk_result (Suc l) t va s ps r s' (q # new) ps')"
proof -
  let ?i = "vpn_index (Suc l) va" and ?T = "ptables (mem s) (Suc l) t"
  have i: "?i < 512" by (rule vpn_index_less)
  have al: "\<forall>p\<in>?T \<union> {q}. page_aligned p" using fr q(1) by (auto simp: frames_ok_def page_ok_def simp del: ptables.simps)
  have qT: "q \<notin> ?T" using dj q(1) by auto
  have tT: "t \<in> ?T" by simp
  have foot: "page_foot s ps \<inter> table_bytes ?T = {}"
    by (rule foot_disjoint_tables [OF pi frames_ok_mono [OF fr] dj]) auto
  have qd: "region q 4096 \<inter> table_bytes ?T = {}"
    using table_bytes_disjoint [of "{q}" ?T] al qT by auto
  have td: "region t 4096 \<inter> table_bytes (?T - {t}) = {}"
    using table_bytes_disjoint [of "{t}" "?T - {t}"] al tT by auto
  have tq: "region t 4096 \<inter> region q 4096 = {}"
    using qd tT table_bytes_mono [of "{t}" ?T] by auto
  have c1: "mem s1 x = mem s x" if "x \<in> table_bytes ?T" for x
    using q(7) that foot qd by (auto simp: only_changes_def simp del: ptables.simps)
  have c2: "only_changes (region t 4096) (mem s1) (mem s2)"
    unfolding s2_def using i by (auto intro: frame_intros)
  have same: "mem s2 x = mem s x" if "x \<in> table_bytes (?T - {t})" for x
  proof -
    have "x \<notin> region t 4096" using that td by blast
    moreover have "x \<in> table_bytes ?T" using that table_bytes_mono [of "?T - {t}" ?T] by blast
    ultimately show ?thesis using c1 c2 by (simp add: only_changes_def)
  qed
  have e1: "ent (mem s1) t j = ent (mem s) t j" if "j < 512" for j
    by (rule ent_cong [OF that]) (use c1 tT table_bytes_mono [of "{t}" ?T] in auto)
  have e2: "ent (mem s2) t j = (if j = ?i then mk_pte q PTE_V else ent (mem s) t j)" if "j < 512" for j
    using ent_store [OF i that] e1 [OF that] by (simp add: s2_def)
  have z2: "ent (mem s2) q j = 0" if "j < 512" for j
    using ent_cong [OF that, of q "mem s2" "mem s1"] c2 tq q(8) [OF that] by (auto simp: only_changes_def)
  have qal: "page_aligned q" using al by simp
  have add: "pwf (mem s2) (Suc l) t" "ptables (mem s2) (Suc l) t = insert q ?T"
    "\<And>va. plookup (mem s2) (Suc l) t va = plookup (mem s) (Suc l) t va" "?i \<in> kids (mem s2) t"
    "child (mem s2) t ?i = q" "pwf (mem s2) l q" "ptables (mem s2) l q = {q}"
    "\<And>va. plookup (mem s2) l q va = 0"
    using add_child [OF wf i np qal q(5) qT, of "mem s2"] same e2 z2 by blast+
  have fs2: "free_page_list s2 = free_page_list s1" "page_ok s2 = page_ok s1" "frames_ok s2 = frames_ok s"
    using frames_ok_step [OF page_step_mem [OF q(3)]]
    by (auto simp: s2_def page_ok_def fun_eq_iff)
  have Tq: "insert q ?T \<union> set qs = ?T \<union> set ps" using q(1) by auto
  have fT: "frames_ok s2 (insert q ?T)" "frames_ok s2 (insert q ?T \<union> set qs)"
    using fr unfolding fs2 Tq [symmetric] by (simp_all add: frames_ok_def)
  have dT: "insert q ?T \<inter> set qs = {}" using dj q(1,6) by auto
  have pi2: "page_inv s2 qs"
    unfolding s2_def
  proof (rule page_inv_write_page [OF q(2)])
    show "page_ok s1 t" using fr tT page_step_fields(3) [OF q(3)] by (simp add: frames_ok_def)
    show "t \<notin> set qs" using dT tT by blast
    show "only_changes (region t 4096) (mem s1) (store64 (pte_addr t ?i) (mk_pte q PTE_V) (mem s1))"
      using c2 by (simp add: s2_def)
  qed
  have foot2: "page_foot s2 qs \<inter> table_bytes (insert q ?T) = {}"
    by (rule foot_disjoint_tables [OF pi2 fT(1) dT])
  have "\<exists>r s' new ps'. walk_result l q va s2 qs r s' new ps'"
  proof (rule IH)
    show "pwf (mem s2) l q" by (rule add(6))
    show "frames_ok s2 (ptables (mem s2) l q \<union> set qs)" unfolding add(7) using fT(2) by (rule frames_ok_mono) auto
    show "ptables (mem s2) l q \<inter> set qs = {}" using q(6) unfolding add(7) by simp
  qed (rule pi2)
  then obtain r s' new ps' where w: "walk_result l q va s2 qs r s' new ps'" by blast
  have W: "walk_from l q va True s2 = Some (r, s')" "qs = new @ ps'" "page_inv s' ps'" "page_step s2 s'"
    "pwf (mem s') l q" "ptables (mem s') l q = insert q (set new)"
    "\<And>va. plookup (mem s') l q va = 0" "r = pslot (mem s') l q va"
    "r = 0 \<longrightarrow> ps' = []" "length new \<le> l"
    "only_changes (page_foot s2 qs \<union> table_bytes (ptables (mem s') l q)) (mem s2) (mem s')"
    using w unfolding walk_result_def add(7,8) by auto
  have oc: "only_changes (table_bytes (ptables (mem s') l q) \<union> page_foot s2 qs) (mem s2) (mem s')"
    using W(11) by (simp only: Un_commute)
  have nT: "ptables (mem s') l q \<inter> (insert q ?T - ptables (mem s2) l q) = {}"
    using dT W(2) unfolding W(6) add(7) by auto
  have "insert q ?T \<union> ptables (mem s') l q \<subseteq> insert q ?T \<union> set qs" using W(2) unfolding W(6) by auto
  then have al2: "\<forall>p\<in>insert q ?T \<union> ptables (mem s') l q. page_aligned p"
    using frames_ok_aligned [OF fT(2)] by blast
  note up = subtree_update [OF add(1,4), unfolded add(2,5), OF W(5) oc foot2 nT al2]
  have P': "ptables (mem s') (Suc l) t = ?T \<union> set (q # new)"
    unfolding up(2) W(6) add(7) using qT by auto
  have st: "page_step s s'"
    using page_step_trans [OF page_step_mem [OF q(3)] W(4) [unfolded s2_def]] .
  have "walk_result (Suc l) t va s ps r s' (q # new) ps'" if "walk_from (Suc l) t va True s = Some (r, s')"
    unfolding walk_result_def
  proof (intro conjI allI)
    show "plookup (mem s') (Suc l) t va' = plookup (mem s) (Suc l) t va'" for va'
      unfolding up(3) W(7) using add(3) np by simp
    show "only_changes (page_foot s ps \<union> table_bytes (ptables (mem s') (Suc l) t)) (mem s) (mem s')"
    proof -
      have "only_changes (page_foot s ps \<union> region q 4096 \<union> region t 4096 \<union>
        (page_foot s2 qs \<union> table_bytes (ptables (mem s') l q))) (mem s) (mem s')"
        by (rule only_changes_trans [OF only_changes_trans [OF q(7) c2] W(11)])
      moreover have "page_foot s2 qs \<subseteq> page_foot s ps"
        unfolding fs2(1) page_step_fields(1) [OF q(3)] by (intro node_bytes_mono) (auto simp: q(1))
      moreover have "table_bytes {q, t} \<subseteq> table_bytes (ptables (mem s') (Suc l) t)"
        using P' tT by (intro table_bytes_mono) auto
      moreover have "table_bytes (ptables (mem s') l q) \<subseteq> table_bytes (ptables (mem s') (Suc l) t)"
        unfolding P' W(6) by (intro table_bytes_mono) auto
      ultimately show ?thesis by (elim only_changes_mono) auto
    qed
  qed (use that W up(1,4) P' st q(1) in auto)
  then show ?thesis using w by blast
qed

lemma walk_alloc:
  assumes "pwf (mem s) l t" "page_inv s ps" "frames_ok s (ptables (mem s) l t \<union> set ps)"
    and "ptables (mem s) l t \<inter> set ps = {}"
  shows "\<exists>r s' new ps'. walk_result l t va s ps r s' new ps'"
  using assms
proof (induction l arbitrary: t s ps)
  case 0
  then have "pte_addr t (vpn_index 0 va) \<noteq> 0"
    by (intro pte_addr_nonzero [of s] vpn_index_less) (simp add: frames_ok_def)
  then have "walk_result 0 t va s ps (pte_addr t (vpn_index 0 va)) s [] ps"
    using 0 by (simp add: walk_result_def)
  then show ?case by blast
next
  case (Suc l)
  let ?i = "vpn_index (Suc l) va"
  have i: "?i < 512" by (rule vpn_index_less)
  note fr = Suc.prems(3) and dj = Suc.prems(4)
  have foot: "page_foot s ps \<inter> table_bytes (ptables (mem s) (Suc l) t) = {}"
    by (rule foot_disjoint_tables [OF Suc.prems(2)]) (use fr dj in \<open>auto simp: frames_ok_Un simp del: ptables.simps\<close>)
  show ?case
  proof (cases "pte_present (ent (mem s) t ?i)")
    case True
    then have k: "?i \<in> kids (mem s) t" using i by (simp add: kids_def)
    let ?c = "child (mem s) t ?i"
    have sub: "ptables (mem s) l ?c \<subseteq> ptables (mem s) (Suc l) t" using k by (rule ptables_child)
    have lf: "\<not> pte_leaf (ent (mem s) t ?i)" using Suc.prems(1) k by simp
    have "\<exists>r s' new ps'. walk_result l ?c va s ps r s' new ps'"
    proof (rule Suc.IH)
      show "pwf (mem s) l ?c" using Suc.prems(1) k by simp
      show "frames_ok s (ptables (mem s) l ?c \<union> set ps)" using fr sub by (rule_tac frames_ok_mono) auto
      show "ptables (mem s) l ?c \<inter> set ps = {}" using dj sub by blast
    qed (rule Suc.prems(2))
    then obtain r s' new ps' where w: "walk_result l ?c va s ps r s' new ps'" by blast
    note W = w [unfolded walk_result_def]
    have T': "ptables (mem s') l ?c = ptables (mem s) l ?c \<union> set new" using W by blast
    have oc: "only_changes (page_foot s ps \<union> table_bytes (ptables (mem s') l ?c)) (mem s) (mem s')"
      using W by blast
    then have "only_changes (table_bytes (ptables (mem s') l ?c) \<union> page_foot s ps) (mem s) (mem s')"
      by (simp only: Un_commute)
    moreover have "ptables (mem s') l ?c \<inter> (ptables (mem s) (Suc l) t - ptables (mem s) l ?c) = {}"
      using W dj unfolding T' by auto
    moreover have "ptables (mem s) (Suc l) t \<union> ptables (mem s') l ?c \<subseteq> ptables (mem s) (Suc l) t \<union> set ps"
      using W sub unfolding T' by (auto simp del: ptables.simps)
    then have "\<forall>p\<in>ptables (mem s) (Suc l) t \<union> ptables (mem s') l ?c. page_aligned p"
      using frames_ok_aligned [OF fr] by blast
    ultimately have up: "pwf (mem s') (Suc l) t"
      "ptables (mem s') (Suc l) t = (ptables (mem s) (Suc l) t - ptables (mem s) l ?c) \<union> ptables (mem s') l ?c"
      "\<And>va'. plookup (mem s') (Suc l) t va' =
        (if vpn_index (Suc l) va' = ?i then plookup (mem s') l ?c va' else plookup (mem s) (Suc l) t va')"
      "\<And>va'. pslot (mem s') (Suc l) t va' =
        (if vpn_index (Suc l) va' = ?i then pslot (mem s') l ?c va' else pslot (mem s) (Suc l) t va')"
      using subtree_update [OF Suc.prems(1) k, of "mem s'" "page_foot s ps"] W foot by blast+
    have "walk_result (Suc l) t va s ps r s' new ps'"
      unfolding walk_result_def
    proof (intro conjI allI)
      show "walk_from (Suc l) t va True s = Some (r, s')"
        using W True lf by (simp add: ent_def child_def Let_def)
      show "ptables (mem s') (Suc l) t = ptables (mem s) (Suc l) t \<union> set new"
        unfolding up(2) T' using sub by blast
      show "plookup (mem s') (Suc l) t va' = plookup (mem s) (Suc l) t va'" for va'
        unfolding up(3) using W True by simp
      show "r = pslot (mem s') (Suc l) t va" unfolding up(4) using W by simp
      show "only_changes (page_foot s ps \<union> table_bytes (ptables (mem s') (Suc l) t)) (mem s) (mem s')"
        by (rule only_changes_mono [OF oc]) (use up(2) in \<open>auto simp: table_bytes_def\<close>)
    qed (use W up(1) in auto)
    then show ?thesis by blast
  next
    case False
    let ?T = "ptables (mem s) (Suc l) t"
    have fps: "frames_ok s (set ps)" using fr by (simp add: frames_ok_Un)
    show ?thesis
    proof (rule pgtable_create_cases [OF Suc.prems(2) fps])
      assume e: "ps = []" "pgtable_create s = (0, s)"
      then have "walk_from (Suc l) t va True s = Some (0, s)" using False by (simp add: ent_def)
      then have "walk_result (Suc l) t va s ps 0 s [] []"
        using e False Suc.prems(1,2) by (simp add: walk_result_def)
      then show ?thesis by blast
    next
      fix q qs s1
      assume q: "ps = q # qs" "pgtable_create s = (q, s1)" "page_inv s1 qs" "page_step s s1"
        "page_ok s q" "unat q < 2 ^ 56" "q \<notin> set qs" "q \<noteq> 0"
        "only_changes (page_foot s ps \<union> region q 4096) (mem s) (mem s1)"
        "\<And>j. j < 512 \<Longrightarrow> ent (mem s1) q j = 0"
      let ?s2 = "s1\<lparr>mem := store64 (pte_addr t ?i) (mk_pte q PTE_V) (mem s1)\<rparr>"
      have w: "walk_from (Suc l) t va True s = walk_from l q va True ?s2"
        using False q(2,8) by (simp add: ent_def Let_def)
      obtain r s' new ps' where r: "walk_result l q va ?s2 qs r s' new ps'"
        "walk_from (Suc l) t va True s = Some (r, s') \<longrightarrow> walk_result (Suc l) t va s ps r s' (q # new) ps'"
        using walk_alloc_new [OF Suc.prems False q(1,3-7,9,10) Suc.IH] by blast
      then have "walk_from l q va True ?s2 = Some (r, s')" unfolding walk_result_def by blast
      then show ?thesis using r(2) w by metis
    qed
  qed
qed

end
