(* ===== verification/Pgtable_Spec.thy ===== *)
theory Pgtable_Spec
  imports Pgtable
begin

text \<open>
  What the page-table operations promise. \<open>pt_inv s root ps\<close> is the invariant of a page table
  together with the free page list, \<open>pget s root va\<close> the leaf entry for a virtual address. Mapping
  and unmapping change exactly the entries of a range (the locale \<open>address_space\<close>), and freeing a
  table returns exactly its frames.
\<close>

section \<open>The invariant\<close>

definition pt_inv :: "'a page_state_scheme \<Rightarrow> ptr \<Rightarrow> ptr list \<Rightarrow> bool" where
  "pt_inv s root ps \<longleftrightarrow> page_inv s ps \<and> pwf (mem s) 2 root \<and>
     frames_ok s (ptables (mem s) 2 root \<union> set ps) \<and> ptables (mem s) 2 root \<inter> set ps = {}"

abbreviation pget :: "'a page_state_scheme \<Rightarrow> ptr \<Rightarrow> u64 \<Rightarrow> u64" where
  "pget s root va \<equiv> plookup (mem s) 2 root va"

definition pt_foot :: "'a page_state_scheme \<Rightarrow> ptr \<Rightarrow> ptr list \<Rightarrow> u64 set" where
  "pt_foot s root ps = region (free_page_list s) 16 \<union> table_bytes (ptables (mem s) 2 root \<union> set ps)"

definition pt_step ::
  "'a page_state_scheme \<Rightarrow> ptr \<Rightarrow> ptr list \<Rightarrow> 'a page_state_scheme \<Rightarrow> ptr list \<Rightarrow> bool" where
  "pt_step s root ps s' ps' \<longleftrightarrow> pt_inv s' root ps' \<and> page_step s s' \<and>
     (\<exists>new. ps = new @ ps' \<and> ptables (mem s') 2 root = ptables (mem s) 2 root \<union> set new) \<and>
     only_changes (pt_foot s root ps) (mem s) (mem s')"

lemma page_foot_pt_foot: "page_foot s ps \<subseteq> pt_foot s root ps"
proof -
  have "region p 16 \<subseteq> region p 4096" for p by (rule region_mono) simp
  then show ?thesis by (fastforce simp: node_bytes_def pt_foot_def table_bytes_def)
qed

lemma pt_step_refl: "pt_inv s root ps \<Longrightarrow> pt_step s root ps s ps"
  by (simp add: pt_step_def)

lemma pt_step_trans:
  assumes "pt_step s root ps s1 ps1" "pt_step s1 root ps1 s2 ps2"
  shows "pt_step s root ps s2 ps2"
proof -
  obtain n1 n2 where n: "ps = n1 @ ps1" "ptables (mem s1) 2 root = ptables (mem s) 2 root \<union> set n1"
    "ps1 = n2 @ ps2" "ptables (mem s2) 2 root = ptables (mem s1) 2 root \<union> set n2"
    using assms unfolding pt_step_def by blast
  have st: "page_step s s1" "page_step s1 s2" using assms unfolding pt_step_def by blast+
  have "pt_foot s1 root ps1 \<subseteq> pt_foot s root ps"
    unfolding pt_foot_def n(2) page_step_fields(1) [OF st(1)] by (auto simp: n(1) table_bytes_def)
  then have "only_changes (pt_foot s root ps) (mem s1) (mem s2)"
    using assms(2) by (auto simp: pt_step_def elim: only_changes_mono)
  then have "only_changes (pt_foot s root ps) (mem s) (mem s2)"
    using assms(1) by (auto simp: pt_step_def intro: only_changes_trans')
  moreover have "ps = (n1 @ n2) @ ps2 \<and> ptables (mem s2) 2 root = ptables (mem s) 2 root \<union> set (n1 @ n2)"
    using n by auto
  ultimately show ?thesis
    using assms page_step_trans [OF st] unfolding pt_step_def by blast
qed

lemma pt_inv_root: "pt_inv s root ps \<Longrightarrow> page_ok s root" "pt_inv s root ps \<Longrightarrow> root \<noteq> 0"
  by (auto simp: pt_inv_def frames_ok_def page_ok_def)

lemma walk_root:
  assumes inv: "pt_inv s root ps" and va: "va < MAXVA"
  obtains r s' ps' where "pgtable_walk root va True s = Some (r, s')" "pt_step s root ps s' ps'"
    "\<And>x. pget s' root x = pget s root x" "r = pslot (mem s') 2 root va" "r = 0 \<longrightarrow> ps' = []"
    "length ps \<le> length ps' + (if pslot (mem s) 2 root va = 0 then 2 else 0)"
proof (cases "pslot (mem s) 2 root va = 0")
  case False
  have "pwf (mem s) 2 root" using inv by (simp add: pt_inv_def)
  from walk_existing [OF this False] show thesis
    using that [of "pslot (mem s) 2 root va" s ps] False va pt_inv_root(2) [OF inv] pt_step_refl [OF inv]
    by (simp add: pgtable_walk_def)
next
  case True
  let ?T = "ptables (mem s) 2 root"
  have I: "page_inv s ps" "pwf (mem s) 2 root" "frames_ok s (?T \<union> set ps)" "?T \<inter> set ps = {}"
    using inv by (simp_all add: pt_inv_def)
  obtain r s' new ps' where "walk_result 2 root va s ps r s' new ps'"
    using walk_alloc [OF I(2,1,3,4)] by blast
  then have W: "walk_from 2 root va True s = Some (r, s')" "ps = new @ ps'" "page_inv s' ps'" "page_step s s'"
    "pwf (mem s') 2 root" "ptables (mem s') 2 root = ?T \<union> set new"
    "\<And>x. pget s' root x = pget s root x" "r = pslot (mem s') 2 root va" "r = 0 \<longrightarrow> ps' = []" "length new \<le> 2"
    "only_changes (page_foot s ps \<union> table_bytes (ptables (mem s') 2 root)) (mem s) (mem s')"
    unfolding walk_result_def by blast+
  have un: "ptables (mem s') 2 root \<union> set ps' = ?T \<union> set ps" using W(2,6) by auto
  have "distinct ps" by (rule kpage.repr_distinct [OF I(1)])
  then have "ptables (mem s') 2 root \<inter> set ps' = {}" using I(4) W(2,6) by auto
  then have inv': "pt_inv s' root ps'"
    using W(3,5) I(3) un by (simp add: pt_inv_def frames_ok_step [OF W(4)])
  have "page_foot s ps \<union> table_bytes (ptables (mem s') 2 root) \<subseteq> pt_foot s root ps"
    using page_foot_pt_foot [of s ps root] un by (auto simp: pt_foot_def table_bytes_def)
  with W inv' have "pt_step s root ps s' ps'" unfolding pt_step_def by (blast intro: only_changes_mono)
  with W inv va pt_inv_root(2) [OF inv] True show thesis by (intro that) (auto simp: pgtable_walk_def)
qed

lemma leaf_root:
  assumes inv: "pt_inv s root ps" and sl: "pslot (mem s) 2 root va \<noteq> 0"
    and v: "pte_present v \<longrightarrow> pte_leaf v"
  defines "s' \<equiv> s\<lparr>mem := store64 (pslot (mem s) 2 root va) v (mem s)\<rparr>"
  shows "pt_step s root ps s' ps" "pget s' root x = (if same_page 2 va x then v else pget s root x)"
proof -
  let ?T = "ptables (mem s) 2 root"
  have I: "page_inv s ps" "pwf (mem s) 2 root" "frames_ok s (?T \<union> set ps)" "?T \<inter> set ps = {}"
    using inv by (simp_all add: pt_inv_def)
  have al: "\<forall>p\<in>?T. page_aligned p" using frames_ok_aligned [OF I(3)] by blast
  have L: "pwf (mem s') 2 root" "ptables (mem s') 2 root = ?T" "only_changes (table_bytes ?T) (mem s) (mem s')"
    "pget s' root x = (if same_page 2 va x then v else pget s root x)"
    using leaf_store [OF I(2) al sl v] by (simp_all add: s'_def)
  show "pget s' root x = (if same_page 2 va x then v else pget s root x)" by (rule L(4))
  have "page_inv s' ps"
    unfolding s'_def by (rule page_inv_write_tables [OF I(1) _ I(4)])
      (use L(3) I(3) in \<open>auto simp: s'_def frames_ok_Un\<close>)
  moreover have "frames_ok s' = frames_ok s" by (simp add: s'_def frames_ok_def page_ok_def fun_eq_iff)
  ultimately have "pt_inv s' root ps" using I L by (simp add: pt_inv_def)
  moreover have "page_step s s'" unfolding s'_def by (rule page_step_mem) simp
  moreover have "only_changes (pt_foot s root ps) (mem s) (mem s')"
    by (rule only_changes_mono [OF L(3)]) (auto simp: pt_foot_def table_bytes_def)
  ultimately show "pt_step s root ps s' ps" using L(2) by (auto simp: pt_step_def)
qed

text \<open>Below \<open>MAXVA\<close> the three indices identify the page.\<close>

lemma unat_vpn_index: "unat (vpn_index k y) = unat y div 4096 div 512 ^ k mod 512"
proof -
  have v: "vpn_index k y = take_bit 9 (drop_bit (12 + 9 * k) y)"
    by (simp add: vpn_index_def take_bit_eq_mask mask_numeral)
  have y: "take_bit 64 (unat y) = unat y" by (rule take_bit_nat_eq_self) (rule unat_less64)
  have "unat (vpn_index k y) = take_bit 9 (drop_bit (12 + 9 * k) (unat y))"
    unfolding v unsigned_take_bit_eq using y by (simp add: unsigned_drop_bit_eq)
  then have "unat (vpn_index k y) = unat y div 2 ^ (12 + 9 * k) mod 2 ^ 9"
    by (simp only: take_bit_eq_mod drop_bit_eq_div)
  also have "unat y div 2 ^ (12 + 9 * k) = unat y div 4096 div 512 ^ k"
    by (simp add: power_add power_mult div_mult2_eq)
  finally show ?thesis by simp
qed

lemma same_page_iff:
  assumes "va < MAXVA" "x < MAXVA"
  shows "same_page 2 va x \<longleftrightarrow> unat va div 4096 = unat x div 4096"
proof -
  define a b where "a = unat va div 4096" and "b = unat x div 4096"
  have lt: "a < 2 ^ 26" "b < 2 ^ 26"
    using assms by (simp_all add: a_def b_def MAXVA_def word_less_nat_alt less_mult_imp_div_less)
  have eq: "vpn_index k va = vpn_index k x \<longleftrightarrow> a div 512 ^ k mod 512 = b div 512 ^ k mod 512" for k
    unfolding a_def b_def unat_vpn_index [symmetric] by (simp add: word_unat_eq_iff)
  have ex: "n = 512 * (512 * (n div 512 div 512) + n div 512 mod 512) + n mod 512" for n :: nat by simp
  have sm: "n div 512 div 512 mod 512 = n div 512 div 512" if "n < 2 ^ 26" for n :: nat
    using that by (simp add: div_mult2_eq [symmetric] less_mult_imp_div_less)
  have "same_page 2 va x \<longleftrightarrow> a mod 512 = b mod 512 \<and> a div 512 mod 512 = b div 512 mod 512 \<and>
    a div 512 div 512 = b div 512 div 512"
  proof -
    have "same_page 2 va x \<longleftrightarrow> (\<forall>k\<in>{0, 1, 2}. vpn_index k va = vpn_index k x)"
      unfolding same_page_def by (metis (no_types) insertE insert_iff le_Suc_eq le_zero_eq numeral_2_eq_2 One_nat_def empty_iff)
    also have "\<dots> \<longleftrightarrow> a div 512 ^ 0 mod 512 = b div 512 ^ 0 mod 512 \<and>
      a div 512 ^ 1 mod 512 = b div 512 ^ 1 mod 512 \<and> a div 512 ^ 2 mod 512 = b div 512 ^ 2 mod 512"
      unfolding eq by (simp only: ball_simps HOL.simp_thms)
    also have "(512::nat) ^ 2 = 512 * 512" by simp
    finally show ?thesis unfolding div_mult2_eq sm [OF lt(1)] sm [OF lt(2)] by simp
  qed
  also have "\<dots> \<longleftrightarrow> a = b" using ex [of a] ex [of b] by metis
  finally show ?thesis by (simp add: a_def b_def)
qed

lemma page_aligned_room: "page_aligned p \<Longrightarrow> unat p + 4096 \<le> 2 ^ 64"
proof -
  assume "page_aligned p"
  then obtain k where k: "unat p = 4096 * k" by (auto simp: page_aligned_iff)
  moreover have "unat p < 2 ^ 64" by (rule unat_less64)
  ultimately have "k < 2 ^ 52" by simp
  with k show ?thesis by simp
qed

lemma page_aligned_add: "page_aligned p \<Longrightarrow> page_aligned q \<Longrightarrow> page_aligned (p + q)"
  unfolding page_aligned_iff using dvd_unat_add [of 12 p q] by simp

lemma page_aligned_4096 [simp]: "page_aligned 4096"
  by (simp add: page_aligned_iff)

lemma page_offset_div:
  assumes "page_aligned p" "o1 < 4096" shows "unat (p + o1) div 4096 = unat p div 4096"
proof -
  have "unat o1 < 4096" using assms(2) by (simp add: word_less_nat_alt)
  moreover from this have "unat (p + o1) = unat p + unat o1"
    using page_aligned_room [OF assms(1)] by (simp add: unat_word_ariths)
  moreover obtain k where "unat p = 4096 * k" using assms(1) by (auto simp: page_aligned_iff)
  ultimately show ?thesis by simp
qed

lemma drop_bit_unat: "unat (drop_bit n (x::u64)) = unat x div 2 ^ n"
proof -
  have y: "take_bit 64 (unat x) = unat x" by (rule take_bit_nat_eq_self) (rule unat_less64)
  then have "unat (drop_bit n x) = drop_bit n (unat x)" by (simp only: unsigned_drop_bit_eq) simp
  then show ?thesis by (simp only: drop_bit_eq_div)
qed

lemma mk_pte_offset: "page_aligned pa \<Longrightarrow> o1 < 4096 \<Longrightarrow> mk_pte (pa + o1) fl = mk_pte pa fl"
proof -
  assume a: "page_aligned pa" "o1 < 4096"
  have "unat (drop_bit 12 (pa + o1)) = unat (drop_bit 12 pa)"
    unfolding drop_bit_unat using page_offset_div [OF a] by simp
  then have "drop_bit 12 (pa + o1) = drop_bit 12 pa" by (rule unsigned_word_eqI)
  then show ?thesis by (simp add: mk_pte_def pa_to_pte_def)
qed

definition in_pages :: "u64 \<Rightarrow> nat \<Rightarrow> u64 \<Rightarrow> bool" where
  "in_pages addr n x \<longleftrightarrow> unat addr \<le> unat x \<and> unat x < unat addr + 4096 * n"

lemma same_page_pages:
  assumes "page_aligned addr" "addr < MAXVA" "x < MAXVA"
  shows "same_page 2 addr x \<longleftrightarrow> in_pages addr 1 x"
proof -
  obtain k where "unat addr = 4096 * k" using assms(1) by (auto simp: page_aligned_iff)
  then show ?thesis unfolding same_page_iff [OF assms(2,3)] in_pages_def by auto
qed

lemma in_pages_0 [simp]: "\<not> in_pages addr 0 x"
  by (simp add: in_pages_def)

lemma in_pages_Suc:
  "unat addr + 4096 < 2 ^ 64 \<Longrightarrow> in_pages addr (Suc n) x \<longleftrightarrow> in_pages addr 1 x \<or> in_pages (addr + 4096) n x"
  by (auto simp: in_pages_def unat_word_ariths)

lemma less_MAXVA: "x < MAXVA \<longleftrightarrow> unat x < 2 ^ 38"
  by (simp add: MAXVA_def word_less_nat_alt)

text \<open>
  The tables that mapping takes from the allocator: two frames at most (a table of level 1 and one
  of level 0) for each block of 512 pages the range meets, none for a block that has its table.
\<close>

definition blocks :: "nat \<Rightarrow> nat \<Rightarrow> nat" where
  "blocks a n = (if n = 0 then 0 else (a + n - 1) div 512 - a div 512 + 1)"

lemma blocks_1 [simp]: "blocks a 1 = 1" "blocks a (Suc 0) = 1"
  by (simp_all add: blocks_def)

lemma blocks_Suc: "0 < blocks a (Suc n)"
  by (simp add: blocks_def)

lemma blocks_step:
  assumes "(a + 1) div 512 = a div 512 \<Longrightarrow> 0 < n \<Longrightarrow> b'"
  shows "blocks (a + 1) n - (if b' then 1 else 0) + (if b then 0 else 1) \<le> blocks a (Suc n) - (if b then 1 else 0)"
proof (cases "n = 0 \<or> b'")
  case False
  then have "(a + 1) div 512 \<noteq> a div 512" using assms by blast
  then have "(a + 1) div 512 = a div 512 + 1" by (simp add: div_Suc split: if_splits)
  then show ?thesis using False by (auto simp: blocks_def)
qed (use assms in \<open>auto simp: blocks_def\<close>)

lemma present_slot:
  "frames_ok s (ptables m l t) \<Longrightarrow> pte_present (plookup m l t va) \<Longrightarrow> pslot m l t va \<noteq> 0"
proof (induction l arbitrary: t)
  case 0
  then show ?case using pte_addr_nonzero [of s t] vpn_index_less by (simp add: frames_ok_def)
next
  case (Suc l)
  then have p: "pte_present (ent m t (vpn_index (Suc l) va))" by (auto split: if_splits)
  then have "vpn_index (Suc l) va \<in> kids m t" by (simp add: kids_def vpn_index_less)
  from Suc.IH [OF frames_ok_mono [OF Suc.prems(1) ptables_child [OF this]]] Suc.prems(2) p show ?case by simp
qed

lemma pslot_block:
  assumes f: "frames_ok s (ptables m 2 t)" and e: "unat x div 4096 div 512 = unat y div 4096 div 512"
    and n: "pslot m 2 t x \<noteq> 0"
  shows "pslot m 2 t y \<noteq> 0"
proof -
  have i: "vpn_index k x = vpn_index k y" if "k \<in> {1, 2}" for k
  proof -
    have "512 ^ k = (512 :: nat) * 512 ^ (k - 1)" using that by auto
    then show ?thesis using e by (simp add: word_unat_eq_iff unat_vpn_index div_mult2_eq)
  qed
  have "pslot m 1 t' y \<noteq> 0" if "frames_ok s (ptables m 1 t')" "pslot m 1 t' x \<noteq> 0" for t'
  proof -
    have p: "pte_present (ent m t' (vpn_index 1 y))" using that(2) i by (auto split: if_splits)
    then have "vpn_index 1 y \<in> kids m t'" by (simp add: kids_def vpn_index_less)
    from ptables_child [of "vpn_index 1 y" m t' 0] this have "child m t' (vpn_index 1 y) \<in> ptables m 1 t'" by simp
    then have "page_ok s (child m t' (vpn_index 1 y))" using that(1) by (simp add: frames_ok_def)
    from pte_addr_nonzero [OF this vpn_index_less] show ?thesis using p by simp
  qed
  moreover have p: "pte_present (ent m t (vpn_index 2 y))"
    using n i by (auto simp: numeral_2_eq_2 split: if_splits)
  moreover have "vpn_index 2 y \<in> kids m t" using p by (simp add: kids_def vpn_index_less)
  ultimately show ?thesis
    using n i frames_ok_mono [OF f] ptables_child [of "vpn_index 2 y" m t 1] by (simp add: numeral_2_eq_2)
qed

lemma map_loop_ok:
  assumes "pt_inv s root ps" "page_aligned addr" "page_aligned pa" "pte_leaf flags"
    and "unat e = unat addr + 4096 * n" "unat e \<le> 2 ^ 38"
  shows "\<exists>rc s' ps' k. map_loop root addr e pa flags s = Some (rc, s') \<and> pt_step s root ps s' ps' \<and>
    k \<le> n \<and>
    length ps \<le> length ps' + 2 * (blocks (unat addr div 4096) n - (if pslot (mem s) 2 root addr \<noteq> 0 then 1 else 0)) \<and>
    (rc = 0 \<and> k = n \<or>
     rc = - 1 \<and> k < n \<and> (ps' = [] \<or> pte_present (pget s root (addr + 4096 * of_nat k)))) \<and>
    (\<forall>x<MAXVA. pget s' root x =
       (if in_pages addr k x then mk_pte (pa + (x - addr)) (flags OR PTE_V) else pget s root x))"
  using assms
proof (induction n arbitrary: addr pa s ps)
  case 0
  then have "e = addr" by (auto intro: unsigned_word_eqI)
  then have "map_loop root addr e pa flags s = Some (0, s)" by (simp add: map_loop.simps)
  with pt_step_refl [OF "0.prems"(1)] show ?case
    by (intro exI [of _ 0] exI [of _ s] exI [of _ ps]) simp
next
  case (Suc n)
  have ae: "addr < e" and a4: "unat (addr + 4096) = unat addr + 4096"
    using Suc.prems(5,6) by (simp_all add: word_less_nat_alt unat_word_ariths)
  have am: "addr < MAXVA" unfolding less_MAXVA using Suc.prems(5,6) by simp
  obtain r s1 ps1 where w: "pgtable_walk root addr True s = Some (r, s1)" "pt_step s root ps s1 ps1"
    "\<And>x. pget s1 root x = pget s root x" "r = pslot (mem s1) 2 root addr" "r = 0 \<longrightarrow> ps1 = []"
    "length ps \<le> length ps1 + (if pslot (mem s) 2 root addr = 0 then 2 else 0)"
    using walk_root [OF Suc.prems(1) am] by blast
  have inv1: "pt_inv s1 root ps1" using w(2) by (simp add: pt_step_def)
  have ld: "r \<noteq> 0 \<Longrightarrow> load64 (mem s1) r = pget s root addr" using plookup_slot w(3,4) by metis
  show ?case
  proof (cases "r = 0 \<or> pte_present (pget s root addr)")
    case True
    then have "map_loop root addr e pa flags s = Some (- 1, s1)"
      using ae w(1) ld by (auto simp: map_loop.simps [of root addr])
    with True w(2,3,5,6) blocks_Suc [of "unat addr div 4096" n] show ?thesis
      by (intro exI [of _ "- 1"] exI [of _ s1] exI [of _ ps1] exI [of _ 0]) auto
  next
    case False
    then have np: "r \<noteq> 0" "\<not> pte_present (pget s root addr)" by auto
    let ?v = "mk_pte pa (flags OR PTE_V)" and ?s2 = "s1\<lparr>mem := store64 r (mk_pte pa (flags OR PTE_V)) (mem s1)\<rparr>"
    have L: "pt_step s1 root ps1 ?s2 ps1"
      "\<And>x. pget ?s2 root x = (if same_page 2 addr x then ?v else pget s root x)"
      using leaf_root [OF inv1, of addr ?v] np(1) Suc.prems(4) w(3,4) by simp_all
    have inv2: "pt_inv ?s2 root ps1" using L(1) by (simp add: pt_step_def)
    have loop: "map_loop root addr e pa flags s = map_loop root (addr + 4096) e (pa + 4096) flags ?s2"
      using ae w(1) ld np by (simp add: map_loop.simps [of root addr])
    have "page_aligned (addr + 4096)" "page_aligned (pa + 4096)"
      using Suc.prems(2,3) page_aligned_add by simp_all
    moreover have "unat e = unat (addr + 4096) + 4096 * n" using Suc.prems(5) a4 by simp
    ultimately obtain rc s' ps' k where ih: "map_loop root (addr + 4096) e (pa + 4096) flags ?s2 = Some (rc, s')"
      "pt_step ?s2 root ps1 s' ps'" "k \<le> n"
      "length ps1 \<le> length ps' + 2 * (blocks (unat (addr + 4096) div 4096) n -
         (if pslot (mem ?s2) 2 root (addr + 4096) \<noteq> 0 then 1 else 0))"
      "rc = 0 \<and> k = n \<or>
       rc = - 1 \<and> k < n \<and> (ps' = [] \<or> pte_present (pget ?s2 root (addr + 4096 + 4096 * of_nat k)))"
      "\<forall>x<MAXVA. pget s' root x = (if in_pages (addr + 4096) k x
         then mk_pte (pa + 4096 + (x - (addr + 4096))) (flags OR PTE_V) else pget ?s2 root x)"
      using Suc.IH [OF inv2, of "addr + 4096" "pa + 4096"] Suc.prems(4,6) by blast
    have st: "pt_step s root ps s' ps'" by (rule pt_step_trans [OF pt_step_trans [OF w(2) L(1)] ih(2)])
    have view: "pget s' root x = (if in_pages addr (Suc k) x then mk_pte (pa + (x - addr)) (flags OR PTE_V)
      else pget s root x)" if x: "x < MAXVA" for x
    proof -
      have same: "same_page 2 addr x \<longleftrightarrow> in_pages addr 1 x" by (rule same_page_pages [OF Suc.prems(2) am x])
      have suc: "in_pages addr (Suc k) x \<longleftrightarrow> in_pages addr 1 x \<or> in_pages (addr + 4096) k x"
        by (rule in_pages_Suc) (use Suc.prems(5,6) in simp)
      have e: "pa + 4096 + (x - (addr + 4096)) = pa + (x - addr)" by simp
      have v: "mk_pte (pa + (x - addr)) (flags OR PTE_V) = ?v" if "in_pages addr 1 x"
      proof -
        have "addr \<le> x" "unat (x - addr) = unat x - unat addr"
          using that by (simp_all add: in_pages_def word_le_nat_alt unat_sub)
        then have "x - addr < 4096" using that by (auto simp: in_pages_def word_less_nat_alt)
        then show ?thesis by (rule mk_pte_offset [OF Suc.prems(3)])
      qed
      show ?thesis using ih(6) x L(2) same suc e v by auto
    qed
    have "pget ?s2 root (addr + 4096 + 4096 * of_nat k) = pget s root (addr + 4096 * of_nat (Suc k))" if "k < n"
    proof -
      have k: "4096 * Suc k < 2 ^ 64" "unat addr + 4096 * Suc k < 2 ^ 38"
        using that Suc.prems(5,6) by simp_all
      have "unat (addr + 4096 * of_nat (Suc k)) = unat addr + 4096 * Suc k"
        using unat_page_mult [OF k(1)] k(2) by (simp add: unat_word_ariths)
      moreover from this have "addr + 4096 * of_nat (Suc k) < MAXVA" using k(2) by (simp add: less_MAXVA)
      ultimately have "\<not> same_page 2 addr (addr + 4096 * of_nat (Suc k))"
        using same_page_pages [OF Suc.prems(2) am] by (simp add: in_pages_def)
      moreover have e: "addr + 4096 + 4096 * of_nat k = addr + 4096 * of_nat (Suc k)" by (simp add: algebra_simps)
      ultimately show ?thesis unfolding e L(2) by (simp only: if_False)
    qed
    moreover have "length ps \<le> length ps' + 2 * (blocks (unat addr div 4096) (Suc n) -
        (if pslot (mem s) 2 root addr \<noteq> 0 then 1 else 0))"
    proof -
      let ?b = "pslot (mem s) 2 root addr \<noteq> 0" and ?b' = "pslot (mem ?s2) 2 root (addr + 4096) \<noteq> 0"
      have fr: "frames_ok ?s2 (ptables (mem ?s2) 2 root)" using inv2 by (simp add: pt_inv_def frames_ok_Un)
      have "pslot (mem ?s2) 2 root addr \<noteq> 0"
        by (rule present_slot [OF fr]) (use L(2) [of addr] in \<open>simp add: same_page_def\<close>)
      moreover have a1: "unat (addr + 4096) div 4096 = unat addr div 4096 + 1" by (simp add: a4)
      ultimately have "(unat addr div 4096 + 1) div 512 = unat addr div 4096 div 512 \<Longrightarrow> ?b'"
        using pslot_block [OF fr, of addr "addr + 4096"] by simp
      from blocks_step [of "unat addr div 4096" n ?b' ?b, OF this] show ?thesis
        using ih(4) w(6) unfolding a1 by (auto split: if_splits)
    qed
    ultimately show ?thesis using ih loop st view
      by (intro exI [of _ rc] exI [of _ s'] exI [of _ ps'] exI [of _ "Suc k"]) auto
  qed
qed

lemma unmap_loop_ok:
  assumes "pt_inv s root ps" "page_aligned addr" "unat e = unat addr + 4096 * n" "unat e \<le> 2 ^ 38"
    and "\<And>x. in_pages addr n x \<Longrightarrow> pte_present (pget s root x) \<and> pte_leaf (pget s root x)"
  shows "\<exists>s'. unmap_loop root addr e s = Some s' \<and> pt_step s root ps s' ps \<and>
    (\<forall>x<MAXVA. pget s' root x = (if in_pages addr n x then 0 else pget s root x))"
  using assms
proof (induction n arbitrary: addr s)
  case 0
  then have "e = addr" by (auto intro: unsigned_word_eqI)
  then have "unmap_loop root addr e s = Some s" by (simp add: unmap_loop.simps)
  with pt_step_refl [OF "0.prems"(1)] show ?case by simp
next
  case (Suc n)
  have ae: "addr < e" and a4: "unat (addr + 4096) = unat addr + 4096"
    using Suc.prems(3,4) by (simp_all add: word_less_nat_alt unat_word_ariths)
  have am: "addr < MAXVA" unfolding less_MAXVA using Suc.prems(3,4) by simp
  have p: "pte_present (pget s root addr)" "pte_leaf (pget s root addr)"
    using Suc.prems(5) [of addr] by (simp_all add: in_pages_def)
  let ?r = "pslot (mem s) 2 root addr" and ?s2 = "s\<lparr>mem := store64 (pslot (mem s) 2 root addr) 0 (mem s)\<rparr>"
  have r: "?r \<noteq> 0"
    using present_slot [of s "mem s" 2 root addr] p(1) Suc.prems(1) by (simp add: pt_inv_def frames_ok_Un)
  have L: "pt_step s root ps ?s2 ps" "\<And>x. pget ?s2 root x = (if same_page 2 addr x then 0 else pget s root x)"
    using leaf_root [OF Suc.prems(1) r, of 0] by simp_all
  have inv2: "pt_inv ?s2 root ps" using L(1) by (simp add: pt_step_def)
  have w: "pgtable_walk root addr False s = Some (?r, s)"
    using am pt_inv_root(2) [OF Suc.prems(1)] Suc.prems(1)
    by (simp add: pgtable_walk_def pt_inv_def walk_lookup)
  have loop: "unmap_loop root addr e s = unmap_loop root (addr + 4096) e ?s2"
    using ae w r p plookup_slot [OF r] by (simp add: unmap_loop.simps [of root addr])
  have suc: "in_pages addr (Suc n) x \<longleftrightarrow> in_pages addr 1 x \<or> in_pages (addr + 4096) n x" for x
    by (rule in_pages_Suc) (use Suc.prems(3,4) in simp)
  have pres: "pte_present (pget ?s2 root x) \<and> pte_leaf (pget ?s2 root x)" if x: "in_pages (addr + 4096) n x" for x
  proof -
    have xm: "x < MAXVA" unfolding less_MAXVA using x a4 Suc.prems(3,4) by (simp add: in_pages_def)
    have "\<not> same_page 2 addr x"
      using x same_page_pages [OF Suc.prems(2) am xm] a4 by (simp add: in_pages_def)
    with L(2) Suc.prems(5) suc x show ?thesis by (metis (full_types))
  qed
  have "page_aligned (addr + 4096)" using Suc.prems(2) page_aligned_add by simp
  moreover have "unat e = unat (addr + 4096) + 4096 * n" using Suc.prems(3) a4 by simp
  ultimately obtain s' where ih: "unmap_loop root (addr + 4096) e ?s2 = Some s'" "pt_step ?s2 root ps s' ps"
    "\<forall>x<MAXVA. pget s' root x = (if in_pages (addr + 4096) n x then 0 else pget ?s2 root x)"
    using Suc.IH [OF inv2, of "addr + 4096"] Suc.prems(4) pres by blast
  have "pget s' root x = (if in_pages addr (Suc n) x then 0 else pget s root x)" if x: "x < MAXVA" for x
    using ih(3) x L(2) [of x] suc [of x] same_page_pages [OF Suc.prems(2) am x] by auto
  with ih loop pt_step_trans [OF L(1) ih(2)] show ?case by auto
qed

text \<open>The tables below the entries of \<open>t\<close> from \<open>i\<close> on.\<close>

definition rest :: "memory \<Rightarrow> ptr \<Rightarrow> u64 \<Rightarrow> u64 set" where
  "rest m t i = {j \<in> kids m t. i \<le> j}"

fun below :: "memory \<Rightarrow> nat \<Rightarrow> ptr \<Rightarrow> u64 \<Rightarrow> ptr set" where
  "below m 0 t i = {}"
| "below m (Suc l) t i = (\<Union>j\<in>rest m t i. ptables m l (child m t j))"

fun below_ok :: "memory \<Rightarrow> nat \<Rightarrow> ptr \<Rightarrow> u64 \<Rightarrow> bool" where
  "below_ok m 0 t i \<longleftrightarrow> (\<forall>j\<in>rest m t i. pte_leaf (ent m t j))"
| "below_ok m (Suc l) t i \<longleftrightarrow>
     (\<forall>j\<in>rest m t i. \<not> pte_leaf (ent m t j) \<and> pwf m l (child m t j) \<and> t \<notin> ptables m l (child m t j) \<and>
       (\<forall>k\<in>rest m t i. j \<noteq> k \<longrightarrow> ptables m l (child m t j) \<inter> ptables m l (child m t k) = {}))"

lemma rest_0: "rest m t 0 = kids m t"
  by (simp add: rest_def)

lemma below_0: "insert t (below m l t 0) = ptables m l t" "below_ok m l t 0 = pwf m l t"
  by (cases l; simp add: rest_0 ptables.simps)+

lemma rest_end: "\<not> i < 512 \<Longrightarrow> rest m t i = {}"
  by (auto simp: rest_def kids_def)

lemma rest_step:
  assumes "i < 512"
  shows "rest m t i = (if pte_present (ent m t i) then insert i (rest m t (i + 1)) else rest m t (i + 1))"
proof -
  have "i \<le> j \<longleftrightarrow> j = i \<or> i + 1 \<le> j" for j using word_suc_le_iff [OF assms, of j] by auto
  then show ?thesis using assms by (auto simp: rest_def kids_def)
qed

lemma rest_notin: "i < 512 \<Longrightarrow> i \<notin> rest m t (i + 1)"
  using unat_plus_one [of i 512] by (simp add: rest_def word_le_nat_alt)

definition freed ::
  "'a page_state_scheme \<Rightarrow> ptr list \<Rightarrow> ptr set \<Rightarrow> 'a page_state_scheme \<Rightarrow> bool" where
  "freed s ps T s' \<longleftrightarrow> (\<exists>ps'. page_inv s' ps' \<and> set ps' = set ps \<union> T) \<and> page_step s s' \<and>
     only_changes (page_foot s ps \<union> table_bytes T) (mem s) (mem s')"

definition freeable :: "'a page_state_scheme \<Rightarrow> ptr list \<Rightarrow> ptr set \<Rightarrow> bool" where
  "freeable s ps T \<longleftrightarrow> page_inv s ps \<and> frames_ok s (T \<union> set ps) \<and> T \<inter> set ps = {}"

lemma freeable_disjoint: "freeable s ps T \<Longrightarrow> page_foot s ps \<inter> table_bytes T = {}"
  by (rule foot_disjoint_tables) (auto simp: freeable_def frames_ok_Un)

lemma freeable_write:
  assumes "freeable s ps T" "t \<in> T" "only_changes (region t 4096) (mem s) m"
  shows "freeable (s\<lparr>mem := m\<rparr>) ps T" "page_step s (s\<lparr>mem := m\<rparr>)"
proof -
  have "page_inv (s\<lparr>mem := m\<rparr>) ps"
    by (rule page_inv_write_page [of s ps t]) (use assms in \<open>auto simp: freeable_def frames_ok_def\<close>)
  moreover have "frames_ok (s\<lparr>mem := m\<rparr>) = frames_ok s" by (simp add: frames_ok_def page_ok_def fun_eq_iff)
  ultimately show "freeable (s\<lparr>mem := m\<rparr>) ps T" using assms(1) by (simp add: freeable_def)
  show "page_step s (s\<lparr>mem := m\<rparr>)" by (rule page_step_mem) simp
qed

lemma page_foot_sub: "free_page_list s' = free_page_list s \<Longrightarrow> set qs \<subseteq> set ps \<union> T \<Longrightarrow>
  page_foot s' qs \<subseteq> page_foot s ps \<union> table_bytes T"
proof -
  assume a: "free_page_list s' = free_page_list s" "set qs \<subseteq> set ps \<union> T"
  have "region p 16 \<subseteq> region p 4096" for p by (rule region_mono) simp
  with a show ?thesis by (fastforce simp: node_bytes_def table_bytes_def)
qed

lemma freed_trans:
  assumes a: "page_inv s1 ps1" "set ps1 = set ps \<union> T1" "page_step s s1"
      "only_changes (page_foot s ps \<union> table_bytes T) (mem s) (mem s1)" "T1 \<subseteq> T"
    and b: "freed s1 ps1 T2 s2" "T1 \<union> T2 = T"
  shows "freed s ps T s2"
proof -
  obtain ps2 where ps2: "page_inv s2 ps2" "set ps2 = set ps1 \<union> T2" and st: "page_step s1 s2"
    and c: "only_changes (page_foot s1 ps1 \<union> table_bytes T2) (mem s1) (mem s2)"
    using b(1) by (auto simp: freed_def)
  have "page_foot s1 ps1 \<subseteq> page_foot s ps \<union> table_bytes T"
    by (rule page_foot_sub [OF page_step_fields(1) [OF a(3)]]) (use a in auto)
  moreover have "table_bytes T2 \<subseteq> table_bytes T" using b(2) by (intro table_bytes_mono) auto
  ultimately have "only_changes (page_foot s ps \<union> table_bytes T) (mem s1) (mem s2)"
    using only_changes_mono [OF c, of "page_foot s ps \<union> table_bytes T"] by blast
  then have "only_changes (page_foot s ps \<union> table_bytes T) (mem s) (mem s2)"
    by (rule only_changes_trans' [OF a(4)])
  moreover have "set ps2 = set ps \<union> T" using ps2(2) a(2) b(2) by auto
  ultimately show ?thesis
    using ps2(1) page_step_trans [OF a(3) st] by (auto simp: freed_def)
qed

lemma free_end:
  assumes "freeable s ps {t}" "\<not> i < 512"
  shows "\<exists>s'. free_walk_from t i s = Some s' \<and> freed s ps {t} s'"
proof -
  have t: "page_inv s ps" "page_ok s t" "t \<notin> set ps" using assms by (auto simp: freeable_def frames_ok_def)
  obtain s' where s': "page_free t s = Some s'" "page_inv s' (t # ps)" "page_step s s'"
    "only_changes (page_foot s (t # ps)) (mem s) (mem s')" by (rule page_free_Cons [OF t])
  have "page_foot s (t # ps) \<subseteq> page_foot s ps \<union> table_bytes {t}" by (rule page_foot_sub) auto
  with s' have "freed s ps {t} s'" by (auto simp: freed_def intro!: exI [of _ "t # ps"] elim: only_changes_mono)
  with s'(1) assms(2) show ?thesis by (simp add: free_walk_from.simps)
qed

lemma free_skip:
  "i < 512 \<Longrightarrow> \<not> pte_present (ent (mem s) t i) \<Longrightarrow> free_walk_from t i s = free_walk_from t (i + 1) s"
  by (simp add: free_walk_from.simps [of t i])

lemma below_frame:
  assumes e: "\<And>j. j < 512 \<Longrightarrow> i \<le> j \<Longrightarrow> ent m' t j = ent m t j"
    and c: "\<And>x. x \<in> table_bytes (below m l t i) \<Longrightarrow> m' x = m x"
  shows "below m' l t i = below m l t i" "below_ok m' l t i = below_ok m l t i"
proof -
  have r: "rest m' t i = rest m t i" using e by (auto simp: rest_def kids_def)
  have ee: "ent m' t j = ent m t j \<and> child m' t j = child m t j" if "j \<in> rest m t i" for j
    using e that by (auto simp: rest_def kids_def child_def)
  have "below m' l t i = below m l t i \<and> below_ok m' l t i = below_ok m l t i"
  proof (cases l)
    case 0
    then show ?thesis using r ee by auto
  next
    case (Suc k)
    have f: "ptables m' k (child m t j) = ptables m k (child m t j) \<and> pwf m' k (child m t j) = pwf m k (child m t j)"
      if "j \<in> rest m t i" for j
    proof -
      have e: "\<And>x. x \<in> table_bytes (ptables m k (child m t j)) \<Longrightarrow> m' x = m x"
        using c that by (auto simp: Suc table_bytes_def)
      show ?thesis using ptables_frame [of m k "child m t j" m'] pwf_frame [of m k "child m t j" m'] e by blast
    qed
    have "below m' l t i = below m l t i" using r ee f by (simp add: Suc)
    moreover have "below_ok m' l t i = below_ok m l t i" using r ee f by (simp add: Suc cong: ball_cong)
    ultimately show ?thesis ..
  qed
  then show "below m' l t i = below m l t i" "below_ok m' l t i = below_ok m l t i" by blast+
qed

lemma below_step:
  assumes "i < 512"
  shows "below m (Suc l) t i = (if pte_present (ent m t i) then ptables m l (child m t i) else {}) \<union>
    below m (Suc l) t (i + 1)"
  using rest_step [OF assms, of m t] by auto

lemma below_mono: "i < 512 \<Longrightarrow> below_ok m l t i \<Longrightarrow> below_ok m l t (i + 1)"
  using rest_step [of i m t] by (cases l) (auto split: if_splits)

lemma below_root: "below_ok m l t i \<Longrightarrow> t \<notin> below m l t i"
  by (cases l) auto

text \<open>Clearing entry \<open>i\<close> of \<open>t\<close> once the tables it led to are gone.\<close>

lemma clear_entry:
  assumes i: "i < 512" and fr: "freeable s ps (insert t (below (mem s) l t (i + 1)))"
    and ok: "below_ok (mem s) l t (i + 1)"
  defines "s' \<equiv> s\<lparr>mem := store64 (pte_addr t i) 0 (mem s)\<rparr>"
  shows "below (mem s') l t (i + 1) = below (mem s) l t (i + 1)" "below_ok (mem s') l t (i + 1)"
    "freeable s' ps (insert t (below (mem s) l t (i + 1)))" "page_step s s'"
    "only_changes (region t 4096) (mem s) (mem s')"
proof -
  let ?B = "below (mem s) l t (i + 1)"
  show c: "only_changes (region t 4096) (mem s) (mem s')"
    unfolding s'_def using i by (auto intro: frame_intros)
  show "freeable s' ps (insert t ?B)" "page_step s s'"
    using freeable_write [OF fr _ c] by (simp_all add: s'_def)
  have al: "\<forall>p\<in>{t} \<union> ?B. page_aligned p"
    using fr by (auto simp: freeable_def frames_ok_def page_ok_def)
  have "table_bytes {t} \<inter> table_bytes ?B = {}"
    by (rule table_bytes_disjoint [OF al]) (use below_root [OF ok] in simp)
  then have m: "mem s' x = mem s x" if "x \<in> table_bytes ?B" for x
    using that c by (auto simp: only_changes_def)
  have e: "ent (mem s') t j = ent (mem s) t j" if "j < 512" "i + 1 \<le> j" for j
  proof -
    have "i \<noteq> j" using that rest_notin [OF i] unat_plus_one [OF i] by (auto simp: word_le_nat_alt)
    then show ?thesis using ent_store [OF i that(1)] by (simp add: s'_def)
  qed
  show "below (mem s') l t (i + 1) = ?B" "below_ok (mem s') l t (i + 1)"
    using below_frame [of "i + 1" "mem s'" t "mem s" l] e m ok by auto
qed

lemma freed_start: "freed s' ps T s'' \<Longrightarrow> page_step s s' \<Longrightarrow> only_changes (table_bytes T) (mem s) (mem s') \<Longrightarrow>
  freed s ps T s''"
proof -
  assume a: "freed s' ps T s''" "page_step s s'" "only_changes (table_bytes T) (mem s) (mem s')"
  have "only_changes (page_foot s ps \<union> table_bytes T) (mem s) (mem s')"
    by (rule only_changes_mono [OF a(3)]) auto
  moreover have "only_changes (page_foot s ps \<union> table_bytes T) (mem s') (mem s'')"
    using a(1) page_step_fields(1) [OF a(2)] by (simp add: freed_def)
  ultimately show ?thesis
    using a(1) page_step_trans [OF a(2)] by (auto simp: freed_def intro: only_changes_trans')
qed

lemma free_level0:
  "freeable s ps {t} \<Longrightarrow> below_ok (mem s) 0 t i \<Longrightarrow> \<exists>s'. free_walk_from t i s = Some s' \<and> freed s ps {t} s'"
proof (induction "512 - unat i" arbitrary: i s rule: less_induct)
  case less
  show ?case
  proof (cases "i < 512")
    case True
    then have lt: "512 - unat (i + 1) < 512 - unat i" using word_plus_one_measure [of i 512] by simp
    show ?thesis
    proof (cases "pte_present (ent (mem s) t i)")
      case False
      then show ?thesis
        using less.hyps [OF lt less.prems(1) below_mono [OF True less.prems(2)]] True by (simp add: free_skip)
    next
      case p: True
      let ?s' = "s\<lparr>mem := store64 (pte_addr t i) 0 (mem s)\<rparr>"
      have lf: "pte_leaf (ent (mem s) t i)" using less.prems(2) p rest_step [OF True, of "mem s" t] by simp
      note c = clear_entry [OF True, of s ps t 0, simplified below.simps, OF less.prems(1) below_mono [OF True less.prems(2)]]
      obtain s'' where s'': "free_walk_from t (i + 1) ?s' = Some s''" "freed ?s' ps {t} s''"
        using less.hyps [OF lt c(3,2)] by blast
      have "freed s ps {t} s''" by (rule freed_start [OF s''(2) c(4)]) (use c(5) in simp)
      with s''(1) True p lf show ?thesis by (simp add: free_walk_from.simps [of t i])
    qed
  qed (use free_end [OF less.prems(1)] in blast)
qed

lemma free_level:
  assumes IH: "\<And>c (s::'a page_state_scheme) ps. freeable s ps (ptables (mem s) l c) \<Longrightarrow> pwf (mem s) l c \<Longrightarrow>
    \<exists>s'. free_walk_from c 0 s = Some s' \<and> freed s ps (ptables (mem s) l c) s'"
  shows "freeable (s::'a page_state_scheme) ps (insert t (below (mem s) (Suc l) t i)) \<Longrightarrow> below_ok (mem s) (Suc l) t i \<Longrightarrow>
    \<exists>s'. free_walk_from t i s = Some s' \<and> freed s ps (insert t (below (mem s) (Suc l) t i)) s'"
proof (induction "512 - unat i" arbitrary: i s ps rule: less_induct)
  case less
  let ?B = "below (mem s) (Suc l) t" and ?c = "child (mem s) t i"
  show ?case
  proof (cases "i < 512")
    case False
    then show ?thesis using free_end [of s ps t i] less.prems(1) by (simp add: rest_end)
  next
    case i: True
    then have lt: "512 - unat (i + 1) < 512 - unat i" using word_plus_one_measure [of i 512] by simp
    note ok' = below_mono [OF i less.prems(2)]
    show ?thesis
    proof (cases "pte_present (ent (mem s) t i)")
      case False
      then have "?B i = ?B (i + 1)" using below_step [OF i, of "mem s" l t] by simp
      with less.hyps [OF lt _ ok', of ps] less.prems(1) False i show ?thesis by (simp add: free_skip)
    next
      case p: True
      let ?P = "ptables (mem s) l ?c"
      have ir: "i \<in> rest (mem s) t i" using p i by (simp add: rest_def kids_def)
      have Bi: "?B i = ?P \<union> ?B (i + 1)" using below_step [OF i, of "mem s" l t] p by simp
      have C: "\<not> pte_leaf (ent (mem s) t i)" "pwf (mem s) l ?c" "t \<notin> ?P"
        using less.prems(2) ir by auto
      have dis: "?P \<inter> insert t (?B (i + 1)) = {}"
      proof -
        have "?P \<inter> ptables (mem s) l (child (mem s) t k) = {}" if "k \<in> rest (mem s) t (i + 1)" for k
        proof -
          have "k \<in> rest (mem s) t i" "i \<noteq> k" using that rest_step [OF i, of "mem s" t] p rest_notin [OF i] by auto
          then show ?thesis using less.prems(2) ir by auto
        qed
        then show ?thesis using C(3) by auto
      qed
      note F = less.prems(1) [unfolded freeable_def Bi]
      have fc: "freeable s ps ?P" using F by (auto simp: freeable_def frames_ok_def)
      obtain s1 where s1: "free_walk_from ?c 0 s = Some s1" "freed s ps ?P s1" using IH [OF fc C(2)] by blast
      obtain ps1 where ps1: "page_inv s1 ps1" "set ps1 = set ps \<union> ?P" "page_step s s1"
        "only_changes (page_foot s ps \<union> table_bytes ?P) (mem s) (mem s1)"
        using s1(2) by (auto simp: freed_def)
      let ?R = "insert t (?B (i + 1))"
      have "table_bytes ?P \<inter> table_bytes ?R = {}"
        by (rule table_bytes_disjoint [OF _ dis]) (use F in \<open>auto simp: frames_ok_def page_ok_def\<close>)
      moreover have "page_foot s ps \<inter> table_bytes ?R = {}"
        by (rule freeable_disjoint) (use F in \<open>auto simp: freeable_def frames_ok_def\<close>)
      ultimately have m1: "mem s1 x = mem s x" if "x \<in> table_bytes ?R" for x
        using that ps1(4) by (auto simp: only_changes_def)
      have e1: "ent (mem s1) t j = ent (mem s) t j" if "j < 512" for j
        by (rule ent_cong [OF that]) (use m1 in auto)
      have b1: "below (mem s1) (Suc l) t (i + 1) = ?B (i + 1)" "below_ok (mem s1) (Suc l) t (i + 1)"
        using below_frame [of "i + 1" "mem s1" t "mem s" "Suc l"] e1 m1 ok' by (auto simp del: below.simps below_ok.simps)
      have f1: "freeable s1 ps1 (insert t (below (mem s1) (Suc l) t (i + 1)))"
        using F ps1(1,2) dis unfolding b1(1) freeable_def
        by (auto simp: frames_ok_step [OF ps1(3)] frames_ok_def simp del: below.simps)
      note c = clear_entry [OF i f1 b1(2)]
      let ?s2 = "s1\<lparr>mem := store64 (pte_addr t i) 0 (mem s1)\<rparr>"
      have f2: "freeable ?s2 ps1 (insert t (below (mem ?s2) (Suc l) t (i + 1)))"
        using c(1,3) by simp
      obtain s3 where s3: "free_walk_from t (i + 1) ?s2 = Some s3"
        "freed ?s2 ps1 (insert t (below (mem ?s2) (Suc l) t (i + 1))) s3"
        using less.hyps [OF lt f2 c(2)] by blast
      have "freed s1 ps1 ?R s3"
      proof (rule freed_start [OF _ c(4)])
        show "freed ?s2 ps1 ?R s3" using s3(2) c(1) b1(1) by simp
        show "only_changes (table_bytes ?R) (mem s1) (mem ?s2)" by (rule only_changes_mono [OF c(5)]) auto
      qed
      note fR = this
      have oc: "only_changes (page_foot s ps \<union> table_bytes (insert t (?B i))) (mem s) (mem s1)"
        by (rule only_changes_mono [OF ps1(4)]) (auto simp: Bi simp del: below.simps)
      have "?P \<subseteq> insert t (?B i)" "?P \<union> ?R = insert t (?B i)" unfolding Bi by blast+
      then have "freed s ps (insert t (?B i)) s3"
        using freed_trans [OF ps1(1-3) oc _ fR] by blast
      moreover have "?c \<noteq> 0" using fc ptables_root [of ?c "mem s" l] unfolding freeable_def frames_ok_def page_ok_def by blast
      ultimately show ?thesis using s1(1) s3(1) i p C(1)
        by (simp add: free_walk_from.simps [of t i] child_def [symmetric] del: below.simps)
    qed
  qed
qed

lemma free_tree:
  "freeable s ps (ptables (mem s) l t) \<Longrightarrow> pwf (mem s) l t \<Longrightarrow>
    \<exists>s'. free_walk_from t 0 s = Some s' \<and> freed s ps (ptables (mem s) l t) s'"
proof (induction l arbitrary: t s ps)
  case 0
  then show ?case using free_level0 [of s ps t 0] by (simp add: rest_0)
next
  case (Suc l)
  show ?case
    using free_level [OF Suc.IH, of s ps t 0] Suc.prems below_0(1) [of t "mem s" "Suc l"]
      below_0(2) [of "mem s" "Suc l" t]
    by (simp del: below.simps below_ok.simps pwf.simps)
qed

section \<open>Ranges\<close>

definition span :: "u64 \<Rightarrow> u64 \<Rightarrow> nat" where
  "span va sz = (unat (align_up (va + sz) 4096) - unat (align_down va 4096)) div 4096"

text \<open>The page tables a range needs at most, two frames for each.\<close>

definition nr_tables :: "u64 \<Rightarrow> u64 \<Rightarrow> nat" where
  "nr_tables va sz = blocks (unat (align_down va 4096) div 4096) (span va sz)"

definition range_ok :: "u64 \<Rightarrow> u64 \<Rightarrow> bool" where
  "range_ok va sz \<longleftrightarrow> sz \<noteq> 0 \<and> unat va + unat sz \<le> 2 ^ 38"

definition in_range :: "u64 \<Rightarrow> u64 \<Rightarrow> u64 \<Rightarrow> bool" where
  "in_range va sz x \<longleftrightarrow> align_down va 4096 \<le> x \<and> x < align_up (va + sz) 4096"

lemma range_pages:
  assumes "range_ok va sz"
  shows "page_aligned (align_down va 4096)"
    "unat (align_up (va + sz) 4096) = unat (align_down va 4096) + 4096 * span va sz"
    "unat (align_up (va + sz) 4096) \<le> 2 ^ 38"
    "in_pages (align_down va 4096) (span va sz) x \<longleftrightarrow> in_range va sz x" "0 < span va sz"
proof -
  have s: "unat (va + sz) = unat va + unat sz" "0 < unat sz"
    using assms by (auto simp: range_ok_def unat_word_ariths unat_gt_0)
  have d: "unat (align_down va 4096) = unat va - unat va mod 4096"
    by (rule unat_align_down_page)
  have lt: "unat (va + sz) + 4095 < 2 ^ 64" using s(1) assms by (simp add: range_ok_def)
  have u: "unat (align_up (va + sz) 4096) = (unat va + unat sz + 4095) div 4096 * 4096"
    using unat_align_up_page [of "va + sz"] lt s(1) by simp
  define a b where "a = unat va div 4096" and "b = (unat va + unat sz + 4095) div 4096"
  have d': "unat (align_down va 4096) = 4096 * a"
    unfolding d a_def by (simp add: minus_mod_eq_mult_div)
  have u': "unat (align_up (va + sz) 4096) = 4096 * b" unfolding u b_def by simp
  have ab: "a < b" using s(2) unfolding a_def b_def by linarith
  have "b \<le> (2 ^ 38 + 4095) div 4096" unfolding b_def using assms by (intro div_le_mono) (simp add: range_ok_def)
  then show "unat (align_up (va + sz) 4096) \<le> 2 ^ 38" unfolding u' by simp
  have sp: "span va sz = b - a" unfolding span_def u' d' using ab by (simp flip: diff_mult_distrib2)
  then show e: "unat (align_up (va + sz) 4096) = unat (align_down va 4096) + 4096 * span va sz"
    unfolding u' d' using ab by (simp add: algebra_simps)
  show "page_aligned (align_down va 4096)" by (simp add: page_aligned_iff d')
  show "in_pages (align_down va 4096) (span va sz) x \<longleftrightarrow> in_range va sz x"
    unfolding in_pages_def in_range_def word_le_nat_alt word_less_nat_alt e by simp
  show "0 < span va sz" using sp ab by simp
qed

lemma pgtable_map_pages:
  assumes inv: "pt_inv s root ps" and r: "range_ok va sz" and pa: "page_aligned pa" and fl: "pte_leaf flags"
  obtains rc s' ps' k where "pgtable_map root va pa sz flags s = Some (rc, s')" "pt_step s root ps s' ps'"
    "k \<le> span va sz" "length ps \<le> length ps' + 2 * nr_tables va sz"
    "rc = 0 \<and> k = span va sz \<or> rc = - 1 \<and> k < span va sz \<and>
       (ps' = [] \<or> pte_present (pget s root (align_down va 4096 + 4096 * of_nat k)))"
    "\<forall>x<MAXVA. pget s' root x =
       (if in_pages (align_down va 4096) k x then mk_pte (pa + (x - align_down va 4096)) (flags OR PTE_V)
        else pget s root x)"
proof -
  note R = range_pages [OF r]
  have "pgtable_map root va pa sz flags s = map_loop root (align_down va 4096) (align_up (va + sz) 4096) pa flags s"
    using pt_inv_root(2) [OF inv] r pa by (simp add: pgtable_map_def range_ok_def page_aligned_def)
  moreover obtain rc s' ps' k where m: "map_loop root (align_down va 4096) (align_up (va + sz) 4096) pa flags s = Some (rc, s')"
    "pt_step s root ps s' ps'" "k \<le> span va sz"
    "length ps \<le> length ps' + 2 * (nr_tables va sz - (if pslot (mem s) 2 root (align_down va 4096) \<noteq> 0 then 1 else 0))"
    "rc = 0 \<and> k = span va sz \<or> rc = - 1 \<and> k < span va sz \<and>
       (ps' = [] \<or> pte_present (pget s root (align_down va 4096 + 4096 * of_nat k)))"
    "\<forall>x<MAXVA. pget s' root x =
       (if in_pages (align_down va 4096) k x then mk_pte (pa + (x - align_down va 4096)) (flags OR PTE_V)
        else pget s root x)"
    using map_loop_ok [OF inv R(1) pa fl R(2,3)] unfolding nr_tables_def by blast
  moreover have "length ps \<le> length ps' + 2 * nr_tables va sz" using m(4) by linarith
  ultimately show thesis using that by metis
qed

lemma pgtable_unmap_pages:
  assumes inv: "pt_inv s root ps" and r: "range_ok va sz"
    and p: "\<And>x. in_range va sz x \<Longrightarrow> pte_present (pget s root x) \<and> pte_leaf (pget s root x)"
  obtains s' where "pgtable_unmap root va sz s = Some s'" "pt_step s root ps s' ps"
    "\<And>x. x < MAXVA \<Longrightarrow> pget s' root x = (if in_range va sz x then 0 else pget s root x)"
proof -
  note R = range_pages [OF r]
  have "pgtable_unmap root va sz s = unmap_loop root (align_down va 4096) (align_up (va + sz) 4096) s"
    using pt_inv_root(2) [OF inv] r by (simp add: pgtable_unmap_def range_ok_def)
  with unmap_loop_ok [OF inv R(1,2,3)] p R(4) that show thesis by auto
qed

text \<open>A new page table is empty.\<close>

lemma pgtable_create_inv:
  assumes "page_inv s ps" "frames_ok s (set ps)"
  obtains (none) "ps = []" "pgtable_create s = (0, s)"
  | (some) q qs s' where "ps = q # qs" "pgtable_create s = (q, s')" "pt_inv s' q qs" "page_step s s'"
      "q \<noteq> 0" "\<And>x. pget s' q x = 0" "ptables (mem s') 2 q = {q}"
      "only_changes (page_foot s ps \<union> region q 4096) (mem s) (mem s')"
proof (rule pgtable_create_cases [OF assms])
  fix q qs s'
  assume q: "ps = q # qs" "pgtable_create s = (q, s')" "page_inv s' qs" "page_step s s'"
      "page_ok s q" "unat q < 2 ^ 56" "q \<notin> set qs" "q \<noteq> 0"
      "only_changes (page_foot s ps \<union> region q 4096) (mem s) (mem s')"
      "\<And>j. j < 512 \<Longrightarrow> ent (mem s') q j = 0"
  have k: "kids (mem s') q = {}" using q(10) by (auto simp: kids_def)
  have t: "ptables (mem s') 2 q = {q}" "pwf (mem s') 2 q" using k by (simp_all add: numeral_2_eq_2 ptables.simps(2))
  have v: "pget s' q x = 0" for x using q(10) [OF vpn_index_less] by (simp add: numeral_2_eq_2)
  have "pt_inv s' q qs"
    using q(1,3,7) t assms(2) by (simp add: pt_inv_def frames_ok_step [OF q(4)] frames_ok_def)
  with q t v some show thesis by blast
qed (rule none)

section \<open>The contract\<close>

text \<open>
  What the kernel's address spaces rely on: \<open>get s x\<close> is the leaf entry for the virtual address
  \<open>x\<close> and \<open>free s\<close> the number of frames left.
\<close>

locale address_space =
  fixes map_range :: "u64 \<Rightarrow> u64 \<Rightarrow> u64 \<Rightarrow> u64 \<Rightarrow> 's \<Rightarrow> (int \<times> 's) option"
    and unmap_range :: "u64 \<Rightarrow> u64 \<Rightarrow> 's \<Rightarrow> 's option"
    and get :: "'s \<Rightarrow> u64 \<Rightarrow> u64"
    and inv :: "'s \<Rightarrow> nat \<Rightarrow> bool"
  assumes map_ok: "inv s n \<Longrightarrow> range_ok va sz \<Longrightarrow> page_aligned pa \<Longrightarrow> pte_leaf fl \<Longrightarrow>
      2 * nr_tables va sz < n \<Longrightarrow> (\<And>x. in_range va sz x \<Longrightarrow> \<not> pte_present (get s x)) \<Longrightarrow>
      \<exists>s' n'. map_range va pa sz fl s = Some (0, s') \<and> inv s' n' \<and> n \<le> n' + 2 * nr_tables va sz \<and>
        (\<forall>x<MAXVA. get s' x =
          (if in_range va sz x then mk_pte (pa + (x - align_down va 4096)) (fl OR PTE_V) else get s x))"
    and unmap_ok: "inv s n \<Longrightarrow> range_ok va sz \<Longrightarrow>
      (\<And>x. in_range va sz x \<Longrightarrow> pte_present (get s x) \<and> pte_leaf (get s x)) \<Longrightarrow>
      \<exists>s'. unmap_range va sz s = Some s' \<and> inv s' n \<and>
        (\<forall>x<MAXVA. get s' x = (if in_range va sz x then 0 else get s x))"
begin

lemma in_range_MAXVA: "range_ok va sz \<Longrightarrow> in_range va sz x \<Longrightarrow> x < MAXVA"
  unfolding less_MAXVA using range_pages(3) [of va sz] by (auto simp: in_range_def word_less_nat_alt)

text \<open>Unmapping a range that was just mapped leaves the rest of the address space as it was.\<close>

lemma map_unmap:
  assumes i: "inv s n" and r: "range_ok va sz" and pa: "page_aligned pa" and fl: "pte_leaf fl"
    and n: "2 * nr_tables va sz < n" and e: "\<And>x. in_range va sz x \<Longrightarrow> \<not> pte_present (get s x)"
  shows "\<exists>s' s''. map_range va pa sz fl s = Some (0, s') \<and> unmap_range va sz s' = Some s'' \<and>
    (\<forall>x<MAXVA. get s'' x = (if in_range va sz x then 0 else get s x))"
proof -
  obtain s' n' where s': "map_range va pa sz fl s = Some (0, s')" "inv s' n'"
    "\<forall>x<MAXVA. get s' x =
      (if in_range va sz x then mk_pte (pa + (x - align_down va 4096)) (fl OR PTE_V) else get s x)"
    using map_ok [OF i r pa fl n e] by blast
  have "pte_present (get s' x) \<and> pte_leaf (get s' x)" if "in_range va sz x" for x
    using that s'(3) in_range_MAXVA [OF r that] fl by simp
  then obtain s'' where "unmap_range va sz s' = Some s''"
    "\<forall>x<MAXVA. get s'' x = (if in_range va sz x then 0 else get s' x)"
    using unmap_ok [OF s'(2) r] by blast
  with s' show ?thesis by auto
qed

text \<open>Mapping one range and then another, disjoint from it: both are there.\<close>

lemma map_twice:
  assumes i: "inv s n" and r: "range_ok va sz" "range_ok vb sz'" and pa: "page_aligned pa" "page_aligned pb"
    and fl: "pte_leaf fl" "pte_leaf fl'" and n: "2 * (nr_tables va sz + nr_tables vb sz') < n"
    and e: "\<And>x. in_range va sz x \<or> in_range vb sz' x \<Longrightarrow> \<not> pte_present (get s x)"
    and d: "\<And>x. \<not> (in_range va sz x \<and> in_range vb sz' x)"
  shows "\<exists>s1 s2. map_range va pa sz fl s = Some (0, s1) \<and> map_range vb pb sz' fl' s1 = Some (0, s2) \<and>
    (\<forall>x<MAXVA. get s2 x =
      (if in_range va sz x then mk_pte (pa + (x - align_down va 4096)) (fl OR PTE_V)
       else if in_range vb sz' x then mk_pte (pb + (x - align_down vb 4096)) (fl' OR PTE_V) else get s x))"
proof -
  obtain s1 n1 where s1: "map_range va pa sz fl s = Some (0, s1)" "inv s1 n1" "n \<le> n1 + 2 * nr_tables va sz"
    "\<forall>x<MAXVA. get s1 x =
      (if in_range va sz x then mk_pte (pa + (x - align_down va 4096)) (fl OR PTE_V) else get s x)"
    using map_ok [OF i r(1) pa(1) fl(1) _ e] n by auto
  have "2 * nr_tables vb sz' < n1" using s1(3) n by (simp add: distrib_left)
  moreover have "\<not> pte_present (get s1 x)" if "in_range vb sz' x" for x
    using s1(4) in_range_MAXVA [OF r(2) that] that e d by auto
  ultimately obtain s2 where "map_range vb pb sz' fl' s1 = Some (0, s2)"
    "\<forall>x<MAXVA. get s2 x =
      (if in_range vb sz' x then mk_pte (pb + (x - align_down vb 4096)) (fl' OR PTE_V) else get s1 x)"
    using map_ok [OF s1(2) r(2) pa(2) fl(2)] by blast
  with s1 d show ?thesis by auto
qed

end

definition pt_space :: "ptr \<Rightarrow> 'a page_state_scheme \<Rightarrow> nat \<Rightarrow> bool" where
  "pt_space root s n \<longleftrightarrow> (\<exists>ps. pt_inv s root ps \<and> length ps = n)"

lemma pgtable_map_all:
  assumes inv: "pt_inv s root ps" and r: "range_ok va sz" and pa: "page_aligned pa" and fl: "pte_leaf fl"
    and n: "2 * nr_tables va sz < length ps" and e: "\<And>x. in_range va sz x \<Longrightarrow> \<not> pte_present (pget s root x)"
  obtains s' ps' where "pgtable_map root va pa sz fl s = Some (0, s')" "pt_step s root ps s' ps'"
    "length ps \<le> length ps' + 2 * nr_tables va sz"
    "\<And>x. x < MAXVA \<Longrightarrow> pget s' root x =
      (if in_range va sz x then mk_pte (pa + (x - align_down va 4096)) (fl OR PTE_V) else pget s root x)"
proof -
  note R = range_pages [OF r]
  obtain rc s' ps' k where m: "pgtable_map root va pa sz fl s = Some (rc, s')" "pt_step s root ps s' ps'"
    "k \<le> span va sz" "length ps \<le> length ps' + 2 * nr_tables va sz"
    "rc = 0 \<and> k = span va sz \<or> rc = - 1 \<and> k < span va sz \<and>
       (ps' = [] \<or> pte_present (pget s root (align_down va 4096 + 4096 * of_nat k)))"
    "\<forall>x<MAXVA. pget s' root x =
       (if in_pages (align_down va 4096) k x then mk_pte (pa + (x - align_down va 4096)) (fl OR PTE_V)
        else pget s root x)"
    by (rule pgtable_map_pages [OF inv r pa fl])
  have "\<not> pte_present (pget s root (align_down va 4096 + 4096 * of_nat k))" if "k < span va sz"
  proof -
    have l: "4096 * k < 2 ^ 64" "unat (align_down va 4096) + 4096 * k < 2 ^ 64"
      using that R(2,3) by simp_all
    have "unat (align_down va 4096 + 4096 * of_nat k) = unat (align_down va 4096) + 4096 * k"
      using unat_page_mult [OF l(1)] l(2) by (simp add: unat_word_ariths)
    then have "in_pages (align_down va 4096) (span va sz) (align_down va 4096 + 4096 * of_nat k)"
      unfolding in_pages_def using that by simp
    then have "in_range va sz (align_down va 4096 + 4096 * of_nat k)" unfolding R(4) .
    then show ?thesis by (rule e)
  qed
  moreover have "ps' \<noteq> []" using m(4) n by auto
  ultimately have k: "rc = 0" "k = span va sz" using m(5) by auto
  have "pget s' root x =
      (if in_range va sz x then mk_pte (pa + (x - align_down va 4096)) (fl OR PTE_V) else pget s root x)"
    if "x < MAXVA" for x using m(6) that R(4) k(2) by simp
  with m(1,2,4) k(1) show thesis using that by simp
qed

interpretation kpt: address_space "pgtable_map root" "pgtable_unmap root" "\<lambda>s. pget s root" "pt_space root"
  for root
proof (unfold_locales, goal_cases)
  case (1 s n va sz pa fl)
  then obtain ps where ps: "pt_inv s root ps" "length ps = n" by (auto simp: pt_space_def)
  obtain s' ps' where s': "pgtable_map root va pa sz fl s = Some (0, s')" "pt_step s root ps s' ps'"
    "length ps \<le> length ps' + 2 * nr_tables va sz"
    "\<And>x. x < MAXVA \<Longrightarrow> pget s' root x =
      (if in_range va sz x then mk_pte (pa + (x - align_down va 4096)) (fl OR PTE_V) else pget s root x)"
    by (rule pgtable_map_all [OF ps(1) 1(2-4)]) (use 1(5,6) ps(2) in simp_all)
  have "pt_space root s' (length ps')" using s'(2) by (auto simp: pt_space_def pt_step_def)
  with s' ps(2) show ?case by auto
next
  case (2 s n va sz)
  then obtain ps where ps: "pt_inv s root ps" "length ps = n" by (auto simp: pt_space_def)
  obtain s' where "pgtable_unmap root va sz s = Some s'" "pt_step s root ps s' ps"
    "\<And>x. x < MAXVA \<Longrightarrow> pget s' root x = (if in_range va sz x then 0 else pget s root x)"
    using pgtable_unmap_pages [OF ps(1) 2(2,3)] by blast
  with ps(2) show ?case by (auto simp: pt_space_def pt_step_def)
qed

section \<open>Properties\<close>

text \<open>A machine with six free pages, and the same one with an empty page table in the first.\<close>

definition six_pages :: page_state where
  "six_pages = the (page_init_range 0x80200000 0x80206000 boot_pages)"

abbreviation six_frames :: "ptr list" where
  "six_frames \<equiv> [0x80205000, 0x80204000, 0x80203000, 0x80202000, 0x80201000, 0x80200000]"

lemma six_pages_inv: "page_inv six_pages six_frames" "free_page_list six_pages = 0x80100000"
proof -
  have "rev (frames (align_up 0x80200000 PAGE_SIZE) 0x80206000) = six_frames"
    by (simp add: frames_def align_up_def upt_rec)
  with page_init_range_inv [of "0x80206000" "0x80200000" boot_pages]
  show "page_inv six_pages six_frames" "free_page_list six_pages = 0x80100000"
    by (auto simp: page_aligned_def boot_pages_def six_pages_def)
qed

lemma six_frames_ok: "frames_ok six_pages (set six_frames)"
  by (simp add: frames_ok_def page_ok_def page_aligned_def sep_def six_pages_inv)

definition empty_table :: page_state where
  "empty_table = snd (pgtable_create six_pages)"

lemma empty_table_inv:
  "pt_inv empty_table 0x80205000 [0x80204000, 0x80203000, 0x80202000, 0x80201000, 0x80200000]"
  "pget empty_table 0x80205000 x = 0" "ptables (mem empty_table) 2 0x80205000 = {0x80205000}"
  by (rule pgtable_create_inv [OF six_pages_inv(1) six_frames_ok]; simp add: empty_table_def)+

lemma empty_table_space: "pt_space 0x80205000 empty_table 5"
  unfolding pt_space_def by (rule exI, rule conjI, rule empty_table_inv(1)) simp

lemma one_page:
  "range_ok 0x400000 PAGE_SIZE" "nr_tables 0x400000 PAGE_SIZE = 1" "page_aligned 0x80000000"
  "range_ok 0x500000 PAGE_SIZE" "nr_tables 0x500000 PAGE_SIZE = 1" "pte_leaf PAGE_USER"
  "\<not> (in_range 0x400000 PAGE_SIZE x \<and> in_range 0x500000 PAGE_SIZE x)"
  "in_range 0x400000 PAGE_SIZE 0x400123" "(0x400123::u64) < MAXVA"
  "\<not> in_range 0x400000 PAGE_SIZE 0x500123" "in_range 0x500000 PAGE_SIZE 0x500123" "(0x500123::u64) < MAXVA"
proof -
  show "\<not> (in_range 0x400000 PAGE_SIZE x \<and> in_range 0x500000 PAGE_SIZE x)"
  proof
    assume "in_range 0x400000 PAGE_SIZE x \<and> in_range 0x500000 PAGE_SIZE x"
    then have "0x500000 \<le> x" "x < 0x401000" by (simp_all add: in_range_def align_up_def align_down_def)
    then have "(0x500000 :: u64) < 0x401000" by (rule le_less_trans)
    then show False by simp
  qed
qed (simp_all add: range_ok_def nr_tables_def blocks_def span_def in_range_def align_up_def align_down_def page_aligned_def
    pte_bits pte_leaf_def MAXVA_def)

text \<open>
  C27: an entry made by \<open>mk_pte\<close> gives back the page address and the flags it was made of.
\<close>

theorem mk_pte_roundtrip:
  assumes "page_aligned pa" "unat pa < 2 ^ 56" "take_bit 10 fl = fl"
  shows "pte_to_pa (mk_pte pa fl) = pa \<and> pte_flags (mk_pte pa fl) = fl"
proof
  show "pte_to_pa (mk_pte pa fl) = pa" by (rule pte_to_pa_mk_pte [OF assms])
  have m: "PTE_FLAGS_MASK = mask 10" by (simp add: PTE_FLAGS_MASK_def mask_numeral)
  have "pte_flags (mk_pte pa fl) = take_bit 10 (mk_pte pa fl)"
    unfolding pte_flags_def m by (simp only: take_bit_eq_mask)
  also have "\<dots> = take_bit 10 fl"
    by (rule bit_word_eqI) (auto simp: bit_take_bit_iff bit_mk_pte)
  finally show "pte_flags (mk_pte pa fl) = fl" using assms(3) by simp
qed

theorem mk_pte_roundtrip_witness:
  "pte_to_pa (mk_pte 0x80042000 0xdf) = 0x80042000 \<and> pte_flags (mk_pte 0x80042000 0xdf) = 0xdf"
  using mk_pte_roundtrip [of "0x80042000" "0xdf"] by (simp add: page_aligned_def)



text \<open>
  C9: with frames enough for the tables, mapping a range none of whose pages is mapped succeeds,
  and unmapping it afterwards does not panic and clears exactly these translations.
\<close>

theorem pgtable_map_unmap:
  assumes "pt_space root s n" "range_ok va sz" "page_aligned pa" "pte_leaf flags"
    and "2 * nr_tables va sz < n" "\<And>x. in_range va sz x \<Longrightarrow> \<not> pte_present (pget s root x)"
  shows "\<exists>s' s''. pgtable_map root va pa sz flags s = Some (0, s') \<and> pgtable_unmap root va sz s' = Some s'' \<and>
    (\<forall>x<MAXVA. pget s'' root x = (if in_range va sz x then 0 else pget s root x))"
  by (rule kpt.map_unmap [OF assms])

theorem pgtable_map_unmap_witness:
  "\<exists>s' s''. pgtable_map 0x80205000 0x400000 0x80000000 PAGE_SIZE PAGE_USER empty_table = Some (0, s') \<and>
     pgtable_unmap 0x80205000 0x400000 PAGE_SIZE s' = Some s'' \<and> pget s'' 0x80205000 0x400123 = 0"
proof -
  obtain s' s'' where "pgtable_map 0x80205000 0x400000 0x80000000 PAGE_SIZE PAGE_USER empty_table = Some (0, s')"
    "pgtable_unmap 0x80205000 0x400000 PAGE_SIZE s' = Some s''"
    "\<forall>x<MAXVA. pget s'' 0x80205000 x =
      (if in_range 0x400000 PAGE_SIZE x then 0 else pget empty_table 0x80205000 x)"
    using pgtable_map_unmap [OF empty_table_space one_page(1,3,6)] one_page(2) empty_table_inv(2) by auto
  with one_page(9) empty_table_inv(2) show ?thesis by auto
qed

text \<open>
  C14: two disjoint ranges can be mapped one after the other; each address of either then
  translates to its own frame, and the others as before.
\<close>

theorem pgtable_map_twice:
  assumes "pt_space root s n" "range_ok va sz" "range_ok vb sz'" "page_aligned pa" "page_aligned pb"
    and "pte_leaf fl" "pte_leaf fl'" "2 * (nr_tables va sz + nr_tables vb sz') < n"
    and "\<And>x. in_range va sz x \<or> in_range vb sz' x \<Longrightarrow> \<not> pte_present (pget s root x)"
    and "\<And>x. \<not> (in_range va sz x \<and> in_range vb sz' x)"
  shows "\<exists>s1 s2. pgtable_map root va pa sz fl s = Some (0, s1) \<and> pgtable_map root vb pb sz' fl' s1 = Some (0, s2) \<and>
    (\<forall>x<MAXVA. pget s2 root x =
      (if in_range va sz x then mk_pte (pa + (x - align_down va 4096)) (fl OR PTE_V)
       else if in_range vb sz' x then mk_pte (pb + (x - align_down vb 4096)) (fl' OR PTE_V)
       else pget s root x))"
  by (rule kpt.map_twice [OF assms])

theorem pgtable_map_twice_witness:
  "\<exists>s1 s2. pgtable_map 0x80205000 0x400000 0x80000000 PAGE_SIZE PAGE_USER empty_table = Some (0, s1) \<and>
     pgtable_map 0x80205000 0x500000 0x80000000 PAGE_SIZE PAGE_USER s1 = Some (0, s2) \<and>
     pte_present (pget s2 0x80205000 0x400123) \<and> pte_present (pget s2 0x80205000 0x500123)"
proof -
  obtain s1 s2 where "pgtable_map 0x80205000 0x400000 0x80000000 PAGE_SIZE PAGE_USER empty_table = Some (0, s1)"
    "pgtable_map 0x80205000 0x500000 0x80000000 PAGE_SIZE PAGE_USER s1 = Some (0, s2)"
    "\<forall>x<MAXVA. pget s2 0x80205000 x =
      (if in_range 0x400000 PAGE_SIZE x then mk_pte (0x80000000 + (x - align_down 0x400000 4096)) (PAGE_USER OR PTE_V)
       else if in_range 0x500000 PAGE_SIZE x then mk_pte (0x80000000 + (x - align_down 0x500000 4096)) (PAGE_USER OR PTE_V)
       else pget empty_table 0x80205000 x)"
    using pgtable_map_twice [OF empty_table_space one_page(1,4,3,3,6,6) _ _ one_page(7)] one_page(2,5) empty_table_inv(2)
    by auto
  with one_page(8-12) show ?thesis by auto
qed

text \<open>
  C15: freeing a page table never panics and always returns: every frame of the tree goes back to
  the free list, once, and nothing else does (the frames the leaf entries point to do not).
\<close>

theorem pgtable_free_walk_returns_tables:
  assumes "pt_inv s root ps"
  shows "\<exists>s' ps'. pgtable_free_walk root s = Some s' \<and> page_inv s' ps' \<and> distinct ps' \<and>
    set ps' = set ps \<union> ptables (mem s) 2 root \<and>
    only_changes (page_foot s ps \<union> table_bytes (ptables (mem s) 2 root)) (mem s) (mem s')"
proof -
  have "freeable s ps (ptables (mem s) 2 root)" "pwf (mem s) 2 root"
    using assms by (simp_all add: pt_inv_def freeable_def)
  from free_tree [OF this] obtain s' where "free_walk_from root 0 s = Some s'"
    "freed s ps (ptables (mem s) 2 root) s'" by blast
  moreover have "root \<noteq> 0" by (rule pt_inv_root(2) [OF assms])
  ultimately show ?thesis using kpage.repr_distinct by (fastforce simp: pgtable_free_walk_def freed_def)
qed

theorem pgtable_free_walk_returns_tables_witness:
  "\<exists>s' ps'. pgtable_free_walk 0x80205000 empty_table = Some s' \<and> page_inv s' ps' \<and>
     set ps' = set six_frames"
  using pgtable_free_walk_returns_tables [OF empty_table_inv(1)] unfolding empty_table_inv(3) by auto

end
