(* ===== verification/Kmalloc.thy ===== *)
theory Kmalloc
  imports Page
begin

text \<open>
  The kernel heap of \<^verbatim>\<open>kernel/kmalloc.c\<close>: a first-fit allocator over a doubly linked list of
  blocks, each a 48-byte header followed by its payload, in pages taken from the frame allocator.
  \<open>heap_inv s bs hp ps\<close> says that the block list is \<open>bs\<close>, that the blocks tile the heap's pages
  \<open>hp\<close> exactly, and that \<open>ps\<close> is the free page list.
\<close>

section \<open>State\<close>

record heap_state = page_state +
  heap_head :: ptr
  heap_tail :: ptr

definition KMALLOC_ALIGN :: u64 where "KMALLOC_ALIGN = 16"
definition KMALLOC_MAGIC :: u64 where "KMALLOC_MAGIC = 0x4b4d414c4c4f4301"

text \<open>The fields of \<open>struct kmem_block\<close> and their offsets.\<close>

datatype kmem_field = KSize | KFree | KMagic | KPrev | KNext | KReserved

fun kmem_off :: "kmem_field \<Rightarrow> u64" where
  "kmem_off KSize = 0"
| "kmem_off KFree = 8"
| "kmem_off KMagic = 16"
| "kmem_off KPrev = 24"
| "kmem_off KNext = 32"
| "kmem_off KReserved = 40"

abbreviation sizeof_kmem_block :: u64 where "sizeof_kmem_block \<equiv> 48"

definition kget :: "memory \<Rightarrow> ptr \<Rightarrow> kmem_field \<Rightarrow> u64" where
  "kget m b f = load64 m (b + kmem_off f)"

definition kset :: "ptr \<Rightarrow> kmem_field \<Rightarrow> u64 \<Rightarrow> memory \<Rightarrow> memory" where
  "kset b f v m = store64 (b + kmem_off f) v m"

section \<open>Operations\<close>

definition block_adjacent :: "memory \<Rightarrow> ptr \<Rightarrow> ptr \<Rightarrow> bool" where
  "block_adjacent m left right \<longleftrightarrow> left + sizeof_kmem_block + kget m left KSize = right"

definition heap_append :: "ptr \<Rightarrow> 'a heap_state_scheme \<Rightarrow> 'a heap_state_scheme" where
  "heap_append block s =
     (let m = kset block KNext 0 (kset block KPrev (heap_tail s) (mem s));
          s = (if heap_tail s \<noteq> 0 then s\<lparr>mem := kset (heap_tail s) KNext block m\<rparr>
               else s\<lparr>mem := m, heap_head := block\<rparr>)
      in s\<lparr>heap_tail := block\<rparr>)"

definition heap_grow :: "'a heap_state_scheme \<Rightarrow> ptr \<times> 'a heap_state_scheme" where
  "heap_grow s =
     (let (block, s) = page_alloc s
      in if block = 0 then (0, s)
         else let m = kset block KSize (PAGE_SIZE - sizeof_kmem_block) (mem s);
                  m = kset block KFree 1 m;
                  m = kset block KMagic KMALLOC_MAGIC m;
                  m = kset block KReserved 0 m
              in (block, heap_append block (s\<lparr>mem := m\<rparr>)))"

definition split_block :: "ptr \<Rightarrow> u64 \<Rightarrow> 'a heap_state_scheme \<Rightarrow> 'a heap_state_scheme" where
  "split_block block sz s =
     (if kget (mem s) block KSize < sz + sizeof_kmem_block + KMALLOC_ALIGN then s
      else let remaining = kget (mem s) block KSize - sz - sizeof_kmem_block;
               new_block = block + sizeof_kmem_block + sz;
               m = kset new_block KSize remaining (mem s);
               m = kset new_block KFree 1 m;
               m = kset new_block KMagic KMALLOC_MAGIC m;
               m = kset new_block KReserved 0 m;
               m = kset new_block KPrev block m;
               m = kset new_block KNext (kget m block KNext) m;
               s = (if kget m block KNext \<noteq> 0
                    then s\<lparr>mem := kset (kget m block KNext) KPrev new_block m\<rparr>
                    else s\<lparr>mem := m, heap_tail := new_block\<rparr>)
           in s\<lparr>mem := kset block KSize sz (kset block KNext new_block (mem s))\<rparr>)"

definition merge_with_next :: "ptr \<Rightarrow> 'a heap_state_scheme \<Rightarrow> 'a heap_state_scheme" where
  "merge_with_next block s =
     (let nxt = kget (mem s) block KNext
      in if nxt = 0 \<or> kget (mem s) nxt KFree = 0 \<or> \<not> block_adjacent (mem s) block nxt then s
         else let m = kset block KSize
                        (kget (mem s) block KSize + (sizeof_kmem_block + kget (mem s) nxt KSize)) (mem s);
                  m = kset block KNext (kget m nxt KNext) m
              in if kget m nxt KNext \<noteq> 0 then s\<lparr>mem := kset (kget m nxt KNext) KPrev block m\<rparr>
                 else s\<lparr>mem := m, heap_tail := block\<rparr>)"

text \<open>
  The search through the block list, from \<open>block\<close> on: the first block that fits, or null. On a
  corrupt list it may not end.
\<close>

partial_function (option) kmalloc_find :: "memory \<Rightarrow> ptr \<Rightarrow> u64 \<Rightarrow> ptr option" where
  "kmalloc_find m block sz =
     (if block = 0 then Some 0
      else if kget m block KFree \<noteq> 0 \<and> kget m block KSize \<ge> sz then Some block
      else kmalloc_find m (kget m block KNext) sz)"

partial_function (option) kmalloc_loop ::
  "u64 \<Rightarrow> 'a heap_state_scheme \<Rightarrow> (ptr \<times> 'a heap_state_scheme) option" where
  "kmalloc_loop sz s =
     do { block \<leftarrow> kmalloc_find (mem s) (heap_head s) sz;
          if block \<noteq> 0
          then let s = split_block block sz s
               in Some (block + sizeof_kmem_block, s\<lparr>mem := kset block KFree 0 (mem s)\<rparr>)
          else let (grown, s) = heap_grow s
               in if grown = 0 then Some (0, s) else kmalloc_loop sz s }"

definition kmalloc :: "u64 \<Rightarrow> 'a heap_state_scheme \<Rightarrow> (ptr \<times> 'a heap_state_scheme) option" where
  "kmalloc sz s =
     (if sz = 0 then Some (0, s)
      else let sz = align_up sz KMALLOC_ALIGN
           in if sz > PAGE_SIZE - sizeof_kmem_block then Some (0, s) else kmalloc_loop sz s)"

definition kfree :: "ptr \<Rightarrow> 'a heap_state_scheme \<Rightarrow> 'a heap_state_scheme option" where
  "kfree p s =
     (if p = 0 then Some s
      else do { let block = p - sizeof_kmem_block;
                kassert (kget (mem s) block KMagic = KMALLOC_MAGIC);
                kassert (kget (mem s) block KFree = 0);
                let s = s\<lparr>mem := kset block KFree 1 (mem s)\<rparr>;
                let s = merge_with_next block s;
                let prv = kget (mem s) block KPrev;
                Some (if prv \<noteq> 0 \<and> kget (mem s) prv KFree \<noteq> 0 then merge_with_next prv s else s) })"

section \<open>Headers\<close>

definition bsep :: "ptr \<Rightarrow> ptr \<Rightarrow> bool" where
  "bsep x y \<longleftrightarrow> x = y \<or> sep x 48 y 48"

lemma bsep_refl [simp]: "bsep x x"
  by (simp add: bsep_def)

lemma bsep_sym: "bsep x y \<Longrightarrow> bsep y x"
  by (auto simp: bsep_def sep_sym)

lemma kmem_off_inj [simp]: "kmem_off f = kmem_off g \<longleftrightarrow> f = g"
  by (cases f; cases g) simp_all

lemma kmem_off_sep: "f \<noteq> g \<Longrightarrow> sep (kmem_off f) 8 (kmem_off g) 8"
  by (cases f; cases g) (simp_all add: sep_def)

lemma kmem_off_le: "kmem_off f \<le> 48" "8 \<le> 48 - kmem_off f"
  by (cases f; simp)+

lemma kget_kset [simp]:
  "bsep x y \<Longrightarrow> kget (kset x f v m) y g = (if x = y \<and> f = g then v else kget m y g)"
  unfolding kget_def kset_def bsep_def
  using kmem_off_sep [of f g]
  by (subst load64_store64_field [where n = 48]) (auto simp: kmem_off_le)

lemma kset_changes [frame_intros]:
  "region b 48 \<subseteq> S \<Longrightarrow> only_changes S m m' \<Longrightarrow> only_changes S m (kset b f v m')"
  unfolding kset_def
  by (rule only_changes_store64 [OF subset_trans [OF region_offset_subset [OF kmem_off_le]]])

lemma kget_cong: "(\<And>x. x \<in> region b 48 \<Longrightarrow> m' x = m x) \<Longrightarrow> kget m' b f = kget m b f"
  unfolding kget_def
  by (rule load64_cong) (meson kmem_off_le region_offset_subset subsetD)

section \<open>The block list\<close>

type_synonym kblock = "ptr \<times> u64 \<times> bool"

fun hchain :: "memory \<Rightarrow> ptr \<Rightarrow> ptr list \<Rightarrow> ptr \<Rightarrow> bool" where
  "hchain m p [] q \<longleftrightarrow> True"
| "hchain m p (b # bs) q \<longleftrightarrow>
     kget m b KPrev = p \<and> kget m b KNext = hd (bs @ [q]) \<and> hchain m b bs q"

fun extent :: "kblock \<Rightarrow> ptr \<times> u64" where
  "extent (b, z, f) = (b, 48 + z)"

fun block_ok :: "kblock \<Rightarrow> bool" where
  "block_ok (b, z, f) \<longleftrightarrow> 16 dvd unat b \<and> 16 dvd unat z \<and> unat z + 48 < 2 ^ 64 \<and>
     0 \<notin> region b (48 + z) \<and> b + 48 \<noteq> 0"

fun apart :: "kblock \<Rightarrow> kblock \<Rightarrow> bool" where
  "apart (b, z, f) (c, y, g) \<longleftrightarrow> sep b (48 + z) c (48 + y)"

definition tiled :: "kblock list \<Rightarrow> bool" where
  "tiled v \<longleftrightarrow> (\<forall>x\<in>set v. block_ok x) \<and> sorted_wrt apart v"

fun header :: "memory \<Rightarrow> kblock \<Rightarrow> bool" where
  "header m (b, z, f) \<longleftrightarrow> kget m b KMagic = KMALLOC_MAGIC \<and> kget m b KSize = z \<and>
     kget m b KFree = (if f then 1 else 0)"

definition heap_rep :: "memory \<Rightarrow> ptr \<Rightarrow> ptr \<Rightarrow> kblock list \<Rightarrow> bool" where
  "heap_rep m h t v \<longleftrightarrow> hchain m 0 (map fst v) 0 \<and> h = hd (map fst v @ [0]) \<and>
     t = last (0 # map fst v) \<and> (\<forall>x\<in>set v. header m x) \<and> tiled v"

fun block_bytes :: "kblock \<Rightarrow> u64 set" where
  "block_bytes (b, z, f) = region b (48 + z)"

definition heap_bytes :: "kblock list \<Rightarrow> u64 set" where
  "heap_bytes v = (\<Union>x\<in>set v. block_bytes x)"

definition header_bytes :: "kblock list \<Rightarrow> u64 set" where
  "header_bytes v = (\<Union>x\<in>set v. region (fst x) 48)"

lemma block_ok_len: "block_ok (b, z, f) \<Longrightarrow> unat (48 + z) = 48 + unat z"
  by (simp add: unat_word_ariths)

lemma block_ok_48: "block_ok (b, z, f) \<Longrightarrow> 48 \<le> 48 + z"
  using block_ok_len [of b z f] by (simp add: word_le_nat_alt)

lemma block_ok_0: "block_ok (b, z, f) \<Longrightarrow> b \<noteq> 0"
proof
  assume a: "block_ok (b, z, f)" "b = 0"
  then have "0 \<in> region b (48 + z)" using block_ok_len [OF a(1)]
    by (simp add: region_iff word_less_nat_alt)
  then show False using a by simp
qed

lemma apart_sym: "apart x y \<Longrightarrow> apart y x"
  by (cases x; cases y) (simp add: sep_sym)

lemma apart_bsep: "block_ok x \<Longrightarrow> block_ok y \<Longrightarrow> apart x y \<Longrightarrow> sep (fst x) 48 (fst y) 48"
  using block_ok_48 by (cases x; cases y) (auto intro: sep_shrink)

lemma tiled_append:
  "tiled (xs @ ys) \<longleftrightarrow> tiled xs \<and> tiled ys \<and> (\<forall>x\<in>set xs. \<forall>y\<in>set ys. apart x y)"
  by (auto simp: tiled_def sorted_wrt_append)

lemma tiled_Cons: "tiled (x # ys) \<longleftrightarrow> block_ok x \<and> tiled ys \<and> (\<forall>y\<in>set ys. apart x y)"
  by (auto simp: tiled_def)

lemma tiled_apart: "tiled (xs @ x # ys) \<Longrightarrow> y \<in> set xs \<union> set ys \<Longrightarrow> apart x y"
  by (auto simp: tiled_append tiled_Cons intro: apart_sym)

lemma tiled_bsep:
  assumes "tiled v" "x \<in> set v" "y \<in> set v" shows "bsep (fst x) (fst y)"
proof (cases "x = y")
  case False
  from assms(2) obtain xs ys where v: "v = xs @ x # ys" by (meson split_list)
  with False assms have "apart x y" by (auto intro: tiled_apart)
  then show ?thesis using apart_bsep assms by (auto simp: bsep_def tiled_def)
qed simp

lemma tiled_distinct: "tiled v \<Longrightarrow> distinct (map fst v)"
proof (induction v)
  case (Cons x v)
  have "fst x \<noteq> fst y" if "y \<in> set v" for y
  proof -
    have "apart x y" "block_ok x" "block_ok y" using Cons.prems that by (auto simp: tiled_Cons tiled_def)
    then have "sep (fst x) 48 (fst y) 48" by (simp add: apart_bsep)
    then show ?thesis by (auto simp: sep_def)
  qed
  with Cons show ?case by (auto simp: tiled_Cons)
qed (simp add: tiled_def)

lemma tiled_block_ok: "tiled v \<Longrightarrow> x \<in> set v \<Longrightarrow> block_ok x"
  by (simp add: tiled_def)

lemma block_ok_pos: "block_ok (b, z, f) \<Longrightarrow> 0 < 48 + z"
  using block_ok_len [of b z f] by (simp add: word_less_nat_alt)

lemma tiled_split:
  assumes t: "tiled (xs @ (b, z, f) # ys)" and sz: "16 dvd unat sz" "unat sz + 64 \<le> unat z"
  shows "tiled (xs @ (b, sz, f') # (b + 48 + sz, z - sz - 48, f'') # ys)"
    and "block_bytes (b, z, f) = block_bytes (b, sz, f') \<union> block_bytes (b + 48 + sz, z - sz - 48, f'')"
proof -
  let ?n = "b + 48 + sz" and ?r = "z - sz - 48"
  have z: "unat z + 48 < 2 ^ 64" "16 dvd unat z" "16 dvd unat b" "0 \<notin> region b (48 + z)"
    using t by (auto simp: tiled_append tiled_Cons)
  then have l: "unat (48 + z) = 48 + unat z" "unat (48 + sz) = 48 + unat sz"
    using sz unat_less64 [of z] by (simp_all add: unat_word_ariths)
  have "sz \<le> z" using sz by (simp add: word_le_nat_alt)
  then have zs: "unat (z - sz) = unat z - unat sz" by (simp add: unat_sub)
  moreover from this have "48 \<le> z - sz" using sz by (simp add: word_le_nat_alt)
  ultimately have r: "unat ?r = unat z - unat sz - 48" by (simp add: unat_sub)
  have "unat (48 + ?r) = (48 + unat ?r) mod 2 ^ 64" by (simp only: unat_word_ariths(1)) simp
  then have r48: "unat (48 + ?r) = 48 + unat ?r" using r sz unat_less64 [of z] by simp
  have c: "0 < 48 + sz" "48 + sz < 48 + z" "48 + sz \<le> 48 + z" using l sz by (simp_all add: word_less_nat_alt word_le_nat_alt)
  have e: "48 + z - (48 + sz) = 48 + ?r" "b + (48 + sz) = ?n" by (simp_all add: algebra_simps)
  have rp: "0 < 48 + ?r" using r48 by (simp add: word_less_nat_alt)
  note regs = region_split [OF c(3), of b, unfolded e]
  show "block_bytes (b, z, f) = block_bytes (b, sz, f') \<union> block_bytes (?n, ?r, f'')"
    by (simp add: regs)
  have "16 dvd unat (48 + sz)" unfolding l using sz by simp
  then have d: "16 dvd unat ?n" using dvd16_add [OF z(3)] by (metis e(2))
  obtain i j where ij: "unat z = 16 * i" "unat sz = 16 * j" using z(2) sz(1) by (auto elim!: dvdE)
  have "unat ?r = 16 * (i - j - 3)" unfolding r ij by simp
  then have dr: "16 dvd unat ?r" by simp
  have b48: "b + 48 \<noteq> 0" using t by (auto simp: tiled_append tiled_Cons)
  have n48: "?n + 48 \<noteq> 0"
  proof
    assume "?n + 48 = 0"
    then have "0 - ?n = 48" by (metis add.commute add_diff_cancel_right')
    moreover have "unat (48::u64) < unat (48 + ?r)" unfolding r48 r using sz by simp
    ultimately have "0 \<in> region ?n (48 + ?r)" unfolding region_iff word_less_nat_alt by metis
    with regs z(4) show False by simp
  qed
  have ok: "block_ok (b, sz, f')" "block_ok (?n, ?r, f'')"
    using b48 n48 z sz d dr r r48 l regs unat_less64 [of z] by auto
  have ap: "apart (b, sz, f') (?n, ?r, f'')"
    using sep_split [OF c(1,2), of b] by (simp only: e apart.simps)
  have "apart (b, sz, f') y \<and> apart (?n, ?r, f'') y" if "y \<in> set xs \<union> set ys" for y
  proof -
    obtain q w g where y: "y = (q, w, g)" by (cases y) auto
    have "sep b (48 + z) q (48 + w)" using tiled_apart [OF t that] y by simp
    moreover have "0 < 48 + w" using tiled_block_ok [OF t, of y] that y block_ok_pos by auto
    note sy = calculation this
    have "sep b (48 + sz) q (48 + w)" by (rule sep_shrink [OF sy(1) c(1,3) sy(2) order.refl])
    moreover have "sep (b + (48 + sz)) (48 + ?r) q (48 + w)"
      by (rule sep_off0' [OF sy(1) c(3) rp]) (use sy(2) in \<open>simp_all only: e order.refl\<close>)
    then have "sep ?n (48 + ?r) q (48 + w)" by (simp only: e)
    ultimately show ?thesis by (simp only: y apart.simps)
  qed
  then show "tiled (xs @ (b, sz, f') # (?n, ?r, f'') # ys)"
    using t ok ap by (auto simp: tiled_append tiled_Cons intro: apart_sym)
qed

lemma tiled_merge:
  assumes t: "tiled (xs @ (b, z, f) # (b + 48 + z, y, g) # ys)"
  shows "tiled (xs @ (b, z + (48 + y), f') # ys)"
    and "block_bytes (b, z + (48 + y), f') = block_bytes (b, z, f) \<union> block_bytes (b + 48 + z, y, g)"
proof -
  let ?c = "b + 48 + z"
  have B: "block_ok (b, z, f)" "block_ok (?c, y, g)" and "apart (b, z, f) (?c, y, g)"
    using t by (auto simp: tiled_append tiled_Cons)
  then have sp: "sep b (48 + z) (b + (48 + z)) (48 + y)" by (simp add: add.assoc)
  have l: "unat (48 + z) = 48 + unat z" "unat (48 + y) = 48 + unat y" using B block_ok_len by blast+
  then have p: "0 < 48 + z" "0 < 48 + y" by (simp_all add: word_less_nat_alt)
  have e: "48 + (z + (48 + y)) = (48 + z) + (48 + y)" by simp
  have nz: "(48 + z) + (48 + y) \<noteq> 0"
  proof
    assume "(48 + z) + (48 + y) = 0"
    then have "48 + y = - (48 + z)" by (metis add_eq_0_iff)
    moreover have "0 \<notin> region b (48 + z)" "0 \<notin> region (b + (48 + z)) (48 + y)" using B by (simp_all add: add.assoc)
    moreover have "0 - (b + (48 + z)) < - (48 + z) \<or> 0 - b < 48 + z"
      by (rule region_cover) (use p in auto)
    ultimately show False unfolding region_iff by metis
  qed
  have "unat (48 + z) + unat (48 + y) \<noteq> 2 ^ 64"
  proof
    assume a: "unat (48 + z) + unat (48 + y) = 2 ^ 64"
    have "unat ((48 + z) + (48 + y)) = (unat (48 + z) + unat (48 + y)) mod 2 ^ 64"
      by (simp only: unat_word_ariths) simp
    with a nz show False by (simp add: unat_eq_zero)
  qed
  then have lt: "unat z + unat y + 96 < 2 ^ 64"
    using sep_adjacent_sum [OF sp] p l by (simp add: word_gt_0)
  have u: "unat (z + (48 + y)) = unat z + unat y + 48" using lt l by (simp add: unat_word_ariths)
  have reg: "region b ((48 + z) + (48 + y)) = region b (48 + z) \<union> region (b + (48 + z)) (48 + y)"
    by (subst region_split [of "48 + z"]) (use lt l in \<open>simp_all add: word_le_nat_alt unat_word_ariths\<close>)
  then show "block_bytes (b, z + (48 + y), f') = block_bytes (b, z, f) \<union> block_bytes (?c, y, g)"
    by (simp add: algebra_simps)
  have d: "16 dvd unat z + unat y + 48" using B by simp
  then have ok: "block_ok (b, z + (48 + y), f')"
    using B lt u reg by (simp add: algebra_simps)
  have "apart (b, z + (48 + y), f') x" if x: "x \<in> set xs \<union> set ys" for x
  proof -
    obtain q w h where [simp]: "x = (q, w, h)" by (cases x) auto
    have "apart (b, z, f) x" using tiled_apart [OF t, of x] x by simp
    moreover have "apart (?c, y, g) x" using tiled_apart [of "xs @ [(b, z, f)]" "(?c, y, g)" ys x] t x by simp
    moreover have "0 < 48 + w" using tiled_block_ok [OF t, of x] x block_ok_pos by auto
    ultimately have "sep b ((48 + z) + (48 + y)) q (48 + w)"
      using p sep_join [of b "48 + z" q "48 + w" "48 + y"] by (simp add: add.assoc)
    then show ?thesis by (simp add: algebra_simps)
  qed
  then show "tiled (xs @ (b, z + (48 + y), f') # ys)"
    using t ok by (auto simp: tiled_append tiled_Cons intro: apart_sym)
qed

lemma hchain_append:
  "hchain m p (xs @ ys) q \<longleftrightarrow> hchain m p xs (hd (ys @ [q])) \<and> hchain m (last (p # xs)) ys q"
  by (induction xs arbitrary: p) (auto simp: hd_append split: list.splits)

lemma hchain_cong:
  "(\<And>b. b \<in> set bs \<Longrightarrow> kget m' b KPrev = kget m b KPrev \<and> kget m' b KNext = kget m b KNext) \<Longrightarrow>
   hchain m' p bs q = hchain m p bs q"
  by (induction bs arbitrary: p) auto

lemma heap_rep_block:
  assumes "heap_rep m h t (xs @ (b, z, f) # ys)"
  shows "kget m b KNext = hd (map fst ys @ [0])" "kget m b KPrev = last (0 # map fst xs)"
    "kget m b KSize = z" "kget m b KFree = (if f then 1 else 0)" "kget m b KMagic = KMALLOC_MAGIC"
    "b \<noteq> 0"
  using assms tiled_block_ok [of "xs @ (b, z, f) # ys" "(b, z, f)"] block_ok_0 [of b z f]
  by (auto simp: heap_rep_def hchain_append)

lemma heap_rep_tiled: "heap_rep m h t v \<Longrightarrow> tiled v"
  by (simp add: heap_rep_def)

lemma tiled_nonzero: "tiled v \<Longrightarrow> 0 \<notin> set (map fst v)"
proof
  assume "tiled v" "0 \<in> set (map fst v)"
  then obtain z f where "block_ok (0, z, f)" by (auto simp: tiled_def)
  then show False using block_ok_0 by blast
qed

lemma split_block_rep:
  assumes rep: "heap_rep (mem s) (heap_head s) (heap_tail s) (xs @ (b, z, f) # ys)"
    and sz: "16 dvd unat sz" "unat sz + 64 \<le> unat z"
  obtains m t where "split_block b sz s = s\<lparr>mem := m, heap_tail := t\<rparr>"
    "heap_rep m (heap_head s) t (xs @ (b, sz, f) # (b + 48 + sz, z - sz - 48, True) # ys)"
    "only_changes (header_bytes (xs @ (b, sz, f) # (b + 48 + sz, z - sz - 48, True) # ys)) (mem s) m"
proof -
  define n r where "n = b + 48 + sz" and "r = z - sz - 48"
  let ?v = "xs @ (b, sz, f) # (n, r, True) # ys"
  let ?D = "set (map fst ?v)" and ?M = "mem s"
  have tv: "tiled ?v" unfolding n_def r_def by (rule tiled_split(1) [OF heap_rep_tiled [OF rep] sz])
  have bs: "bsep x y" if "x \<in> ?D" "y \<in> ?D" for x y using tiled_bsep [OF tv] that by fastforce
  have dist: "distinct (map fst ?v)" by (rule tiled_distinct [OF tv])
  have nb: "n \<noteq> b" "b \<noteq> n" using dist by auto
  note blk = heap_rep_block [OF rep]
  have ch: "hchain ?M 0 (map fst xs) b" "hchain ?M b (map fst ys) 0"
    and hd: "\<And>x. x \<in> set xs \<union> set ys \<Longrightarrow> header ?M x" and hh: "heap_head s = hd (map fst ?v @ [0])"
    using rep by (auto simp: heap_rep_def hchain_append hd_append)
  have lt: "\<not> z < sz + 48 + KMALLOC_ALIGN"
    using sz unat_less64 [of z] by (simp add: KMALLOC_ALIGN_def word_less_nat_alt unat_word_ariths)
  let ?m1 = "kset n KNext (kget ?M b KNext) (kset n KPrev b (kset n KReserved 0
    (kset n KMagic KMALLOC_MAGIC (kset n KFree 1 (kset n KSize r ?M)))))"
  let ?nx = "hd (map fst ys @ [0])"
  define m where "m = kset b KSize sz (kset b KNext n (if ?nx \<noteq> 0 then kset ?nx KPrev n ?m1 else ?m1))"
  define t where "t = (if ?nx \<noteq> 0 then heap_tail s else n)"
  have nbs: "bsep n b" "bsep b n" using bs by auto
  have nx: "?nx = 0 \<or> ?nx \<in> set (map fst ys)" by (cases ys) auto
  have nz: "0 \<notin> ?D" using tiled_nonzero [OF tv] .
  have K: "kget m c g =
    (if c = n then (case g of KSize \<Rightarrow> r | KFree \<Rightarrow> 1 | KMagic \<Rightarrow> KMALLOC_MAGIC | KPrev \<Rightarrow> b
       | KNext \<Rightarrow> ?nx | KReserved \<Rightarrow> 0)
     else if c = b \<and> g = KSize then sz else if c = b \<and> g = KNext then n
     else if c = ?nx \<and> g = KPrev then n else kget ?M c g)" if "c \<in> ?D" for c g
  proof -
    have c: "bsep n c" "bsep b c" "?nx \<noteq> 0 \<Longrightarrow> bsep ?nx c" using bs nx that by auto
    have d: "?nx \<noteq> n" "?nx = 0 \<Longrightarrow> c \<noteq> 0" using dist nz nx that by auto
    show ?thesis
    proof (cases "?nx = 0")
      case True
      with c d nb nbs show ?thesis unfolding m_def by (cases g) (simp_all add: blk(1))
    next
      case False
      moreover from this have "bsep ?nx n" using bs nx by auto
      ultimately show ?thesis using c d nb nbs unfolding m_def by (cases g) (simp_all add: blk(1))
    qed
  qed
  show thesis
  proof
    show "split_block b sz s = s\<lparr>mem := m, heap_tail := t\<rparr>"
      using lt nbs nb
      by (simp add: split_block_def Let_def blk(1,3) n_def [symmetric] r_def [symmetric] m_def t_def)
    have "hchain m 0 (map fst xs) b = hchain ?M 0 (map fst xs) b"
    proof (rule hchain_cong)
      fix c assume c: "c \<in> set (map fst xs)"
      then have "c \<noteq> n" "c \<noteq> b" "c \<noteq> ?nx" "c \<in> ?D"
        using left_of_notin [of c "map fst xs" "[b, n]" "map fst ys"] dist nz by simp_all
      then show "kget m c KPrev = kget ?M c KPrev \<and> kget m c KNext = kget ?M c KNext" by (simp add: K)
    qed
    moreover have "hchain m n (map fst ys) 0"
    proof (cases ys)
      case (Cons y ys')
      have "hchain m (fst y) (map fst ys') 0 = hchain ?M (fst y) (map fst ys') 0"
      proof (rule hchain_cong)
        fix c assume c: "c \<in> set (map fst ys')"
        then have "c \<noteq> n" "c \<noteq> b" "c \<noteq> ?nx" "c \<in> ?D"
          using right_of_notin [of c "map fst ys'" "map fst xs @ [b, n]" "fst y"] dist Cons by simp_all
        then show "kget m c KPrev = kget ?M c KPrev \<and> kget m c KNext = kget ?M c KNext" by (simp add: K)
      qed
      then show ?thesis using ch(2) K [of "fst y"] dist nz Cons by auto
    qed simp
    moreover have "kget m b KPrev = last (0 # map fst xs)" "kget m b KNext = n" "kget m n KPrev = b"
      "kget m n KNext = ?nx"
      using K [of b] K [of n] left_of_notin [of b "[b]" "[n]" "map fst ys"] dist nz nb blk(2) by simp_all
    ultimately have "hchain m 0 (map fst ?v) 0" using ch(1) by (simp add: hchain_append)
    moreover have "header m x" if x: "x \<in> set ?v" for x
    proof -
      consider "x = (b, sz, f)" | "x = (n, r, True)" | "x \<in> set xs \<union> set ys" using x by auto
      then show ?thesis
      proof cases
        case 3
        then have "fst x \<in> ?D" "fst x \<noteq> n" "fst x \<noteq> b" using dist by auto
        with K [of "fst x"] hd [OF 3] show ?thesis by (cases x) simp
      qed (use K nb blk in simp_all)
    qed
    moreover have "t = last (0 # map fst ?v)"
      using rep nz by (cases ys) (auto simp: t_def heap_rep_def)
    ultimately show "heap_rep m (heap_head s) t (xs @ (b, sz, f) # (b + 48 + sz, z - sz - 48, True) # ys)"
      using hh tv unfolding n_def [symmetric] r_def [symmetric] heap_rep_def by blast
    have S: "region x 48 \<subseteq> header_bytes ?v" if "x \<in> ?D" for x
      using that by (force simp: header_bytes_def)
    show "only_changes (header_bytes (xs @ (b, sz, f) # (b + 48 + sz, z - sz - 48, True) # ys)) ?M m"
      unfolding n_def [symmetric] r_def [symmetric] m_def
      by (cases "?nx = 0") (use nx S in \<open>auto intro!: kset_changes\<close>)
  qed
qed

fun coalesce :: "kblock \<Rightarrow> kblock list \<Rightarrow> kblock list" where
  "coalesce (b, z, f) ((c, y, True) # v) =
     (if b + 48 + z = c then (b, z + (48 + y), f) # v else (b, z, f) # (c, y, True) # v)"
| "coalesce x v = x # v"

lemma merge_pair_rep:
  assumes rep: "heap_rep (mem s) (heap_head s) (heap_tail s) (xs @ (b, z, f) # (b + 48 + z, y, True) # ys)"
  obtains m t where "merge_with_next b s = s\<lparr>mem := m, heap_tail := t\<rparr>"
    "heap_rep m (heap_head s) t (xs @ (b, z + (48 + y), f) # ys)"
    "only_changes (header_bytes (xs @ (b, z + (48 + y), f) # ys)) (mem s) m"
proof -
  define n where "n = b + 48 + z"
  let ?v = "xs @ (b, z, f) # (n, y, True) # ys" and ?w = "xs @ (b, z + (48 + y), f) # ys"
  let ?D = "set (map fst ?v)" and ?M = "mem s"
  note rep = rep [folded n_def]
  have tv: "tiled ?v" by (rule heap_rep_tiled [OF rep])
  have tw: "tiled ?w" by (rule tiled_merge(1) [OF tv [unfolded n_def]])
  have bs: "bsep x y" if "x \<in> ?D" "y \<in> ?D" for x y using tiled_bsep [OF tv] that by fastforce
  have dist: "distinct (map fst ?v)" by (rule tiled_distinct [OF tv])
  have nb: "n \<noteq> b" "b \<noteq> n" using dist by auto
  note blk = heap_rep_block [OF rep]
    and nblk = heap_rep_block [of _ _ _ "xs @ [(b, z, f)]", simplified, OF rep]
  have ch: "hchain ?M 0 (map fst xs) b" "hchain ?M n (map fst ys) 0"
    and hd: "\<And>x. x \<in> set xs \<union> set ys \<Longrightarrow> header ?M x" and hh: "heap_head s = hd (map fst ?w @ [0])"
    using rep by (auto simp: heap_rep_def hchain_append hd_append)
  let ?nx = "hd (map fst ys @ [0])"
  let ?m1 = "kset b KNext ?nx (kset b KSize (z + (48 + y)) ?M)"
  define m where "m = (if ?nx \<noteq> 0 then kset ?nx KPrev b ?m1 else ?m1)"
  define t where "t = (if ?nx \<noteq> 0 then heap_tail s else b)"
  have nbs: "bsep n b" "bsep b n" using bs by auto
  have nx: "?nx = 0 \<or> ?nx \<in> set (map fst ys)" by (cases ys) auto
  have nz: "0 \<notin> ?D" using tiled_nonzero [OF tv] .
  have K: "kget m c g =
    (if c = b \<and> g = KSize then z + (48 + y) else if c = b \<and> g = KNext then ?nx
     else if c = ?nx \<and> g = KPrev then b else kget ?M c g)" if "c \<in> ?D" for c g
  proof -
    have c: "bsep n c" "bsep b c" "?nx \<noteq> 0 \<Longrightarrow> bsep ?nx c" using bs nx that by auto
    have d: "?nx \<noteq> b" "?nx = 0 \<Longrightarrow> c \<noteq> 0" using dist nz nx that by auto
    show ?thesis
    proof (cases "?nx = 0")
      case True
      with c d nb nbs show ?thesis unfolding m_def by (cases g) simp_all
    next
      case False
      moreover from this have "bsep ?nx n" using bs nx by auto
      ultimately show ?thesis using c d nb nbs unfolding m_def by (cases g) simp_all
    qed
  qed
  show thesis
  proof
    show "merge_with_next b s = s\<lparr>mem := m, heap_tail := t\<rparr>"
      using nbs nb nblk(6)
      by (simp add: merge_with_next_def Let_def blk nblk block_adjacent_def n_def [symmetric] m_def t_def)
    have "hchain m 0 (map fst xs) b = hchain ?M 0 (map fst xs) b"
    proof (rule hchain_cong)
      fix c assume c: "c \<in> set (map fst xs)"
      then have "c \<noteq> n" "c \<noteq> b" "c \<noteq> ?nx" "c \<in> ?D"
        using left_of_notin [of c "map fst xs" "[b, n]" "map fst ys"] dist nz by simp_all
      then show "kget m c KPrev = kget ?M c KPrev \<and> kget m c KNext = kget ?M c KNext" by (simp add: K)
    qed
    moreover have "hchain m b (map fst ys) 0"
    proof (cases ys)
      case (Cons y ys')
      have "hchain m (fst y) (map fst ys') 0 = hchain ?M (fst y) (map fst ys') 0"
      proof (rule hchain_cong)
        fix c assume c: "c \<in> set (map fst ys')"
        then have "c \<noteq> n" "c \<noteq> b" "c \<noteq> ?nx" "c \<in> ?D"
          using right_of_notin [of c "map fst ys'" "map fst xs @ [b, n]" "fst y"] dist Cons by simp_all
        then show "kget m c KPrev = kget ?M c KPrev \<and> kget m c KNext = kget ?M c KNext" by (simp add: K)
      qed
      then show ?thesis using ch(2) K [of "fst y"] dist nz Cons by auto
    qed simp
    moreover have "kget m b KPrev = last (0 # map fst xs)" "kget m b KNext = ?nx"
      using K [of b] left_of_notin [of b "[b]" "[n]" "map fst ys"] dist nz nb blk(2) by simp_all
    ultimately have "hchain m 0 (map fst ?w) 0" using ch(1) by (simp add: hchain_append)
    moreover have "header m x" if x: "x \<in> set ?w" for x
    proof (cases "x = (b, z + (48 + y), f)")
      case False
      then have x: "x \<in> set xs \<union> set ys" using x by auto
      then have "fst x \<in> ?D" "fst x \<noteq> n" "fst x \<noteq> b" using dist by auto
      with K [of "fst x"] hd [OF x] show ?thesis by (cases x) simp
    qed (use K nb blk in simp_all)
    moreover have "t = last (0 # map fst ?w)"
      using rep nz by (cases ys) (auto simp: t_def heap_rep_def)
    ultimately show "heap_rep m (heap_head s) t ?w"
      using hh tw unfolding heap_rep_def by blast
    have S: "region x 48 \<subseteq> header_bytes ?w" if "x \<in> set (map fst ?w)" for x
      using that by (force simp: header_bytes_def)
    show "only_changes (header_bytes ?w) ?M m"
      unfolding m_def by (cases "?nx = 0") (use nx S in \<open>auto intro!: kset_changes\<close>)
  qed
qed

lemma header_bytes_image: "header_bytes v = (\<Union>b\<in>fst ` set v. region b 48)"
  by (simp add: header_bytes_def)

lemma header_bytes_mono: "fst ` set v \<subseteq> fst ` set w \<Longrightarrow> header_bytes v \<subseteq> header_bytes w"
  unfolding header_bytes_image by (rule UN_mono) auto

lemma merge_with_next_rep:
  assumes rep: "heap_rep (mem s) (heap_head s) (heap_tail s) (xs @ (b, z, f) # ys)"
  obtains m t where "merge_with_next b s = s\<lparr>mem := m, heap_tail := t\<rparr>"
    "heap_rep m (heap_head s) t (xs @ coalesce (b, z, f) ys)"
    "only_changes (header_bytes (xs @ (b, z, f) # ys)) (mem s) m"
proof -
  note blk = heap_rep_block [OF rep]
  show thesis
  proof (cases "\<exists>y ys'. ys = (b + 48 + z, y, True) # ys'")
    case True
    then obtain y ys' where ys: "ys = (b + 48 + z, y, True) # ys'" by blast
    obtain m t where m: "merge_with_next b s = s\<lparr>mem := m, heap_tail := t\<rparr>"
      "heap_rep m (heap_head s) t (xs @ (b, z + (48 + y), f) # ys')"
      "only_changes (header_bytes (xs @ (b, z + (48 + y), f) # ys')) (mem s) m"
      by (rule merge_pair_rep [OF rep [unfolded ys]])
    moreover have "only_changes (header_bytes (xs @ (b, z, f) # ys)) (mem s) m"
      by (rule only_changes_mono [OF m(3)]) (rule header_bytes_mono, unfold ys, simp, blast)
    ultimately show thesis using ys that by simp
  next
    case False
    have "merge_with_next b s = s"
    proof (cases ys)
      case Nil
      then show ?thesis using blk by (simp add: merge_with_next_def)
    next
      case (Cons x ys')
      obtain c y g where x: "x = (c, y, g)" by (cases x) auto
      note nblk = heap_rep_block [of _ _ _ "xs @ [(b, z, f)]" c y g ys', simplified, OF rep [unfolded Cons x]]
      have "g \<Longrightarrow> c \<noteq> b + 48 + z" using False Cons x by (cases g) auto
      then show ?thesis
        using blk nblk Cons x by (auto simp: merge_with_next_def block_adjacent_def Let_def)
    qed
    moreover have "coalesce (b, z, f) ys = (b, z, f) # ys"
    proof (cases ys)
      case (Cons x ys')
      then obtain c y g where x: "x = (c, y, g)" by (cases x) auto
      show ?thesis using False unfolding Cons x by (cases g) auto
    qed simp
    ultimately show thesis using rep that [where m = "mem s" and t = "heap_tail s"] by simp
  qed
qed

lemma tiled_bsep_addr: "tiled v \<Longrightarrow> b \<in> set (map fst v) \<Longrightarrow> c \<in> set (map fst v) \<Longrightarrow> bsep b c"
  using tiled_bsep by fastforce

lemma set_free_rep:
  assumes rep: "heap_rep m h t (xs @ (b, z, f) # ys)"
  shows "heap_rep (kset b KFree (if g then 1 else 0) m) h t (xs @ (b, z, g) # ys)"
    and "only_changes (header_bytes (xs @ (b, z, g) # ys)) m (kset b KFree (if g then 1 else 0) m)"
proof -
  let ?v = "xs @ (b, z, f) # ys" and ?w = "xs @ (b, z, g) # ys" and ?m = "kset b KFree (if g then 1 else 0) m"
  have tv: "tiled ?v" by (rule heap_rep_tiled [OF rep])
  then have tw: "tiled ?w" by (auto simp: tiled_append tiled_Cons)
  have dist: "distinct (map fst ?v)" by (rule tiled_distinct [OF tv])
  have K: "kget ?m c k = (if c = b \<and> k = KFree then (if g then 1 else 0) else kget m c k)"
    if "c \<in> set (map fst ?v)" for c k
  proof -
    have "bsep b c" using tiled_bsep_addr [OF tv _ that, of b] by simp
    then show ?thesis by auto
  qed
  have "hchain ?m 0 (map fst ?v) 0 = hchain m 0 (map fst ?v) 0"
    by (rule hchain_cong) (intro conjI K [THEN trans], simp_all)
  moreover have "header ?m x" if x: "x \<in> set ?w" for x
  proof (cases "x = (b, z, g)")
    case True
    then show ?thesis using K [of b] heap_rep_block [OF rep] by simp
  next
    case False
    then have x: "x \<in> set xs \<union> set ys" using x by auto
    then have "header m x" "fst x \<noteq> b" "fst x \<in> set (map fst ?v)" using rep dist by (auto simp: heap_rep_def)
    with K [of "fst x"] show ?thesis by (cases x) simp
  qed
  ultimately show "heap_rep ?m h t ?w" using rep tw by (auto simp: heap_rep_def hd_append)
  show "only_changes (header_bytes ?w) m ?m"
    by (rule kset_changes) (auto simp: header_bytes_def)
qed

lemma heap_rep_frame:
  assumes rep: "heap_rep m h t v" and eq: "\<And>x. x \<in> header_bytes v \<Longrightarrow> m' x = m x"
  shows "heap_rep m' h t v"
proof -
  have K: "kget m' c k = kget m c k" if "c \<in> set (map fst v)" for c k
    using that eq by (intro kget_cong) (auto simp: header_bytes_image)
  have "hchain m' 0 (map fst v) 0 = hchain m 0 (map fst v) 0"
    by (rule hchain_cong) (intro conjI K)
  moreover have "header m' x = header m x" if "x \<in> set v" for x
  proof (cases x)
    case (fields c y g)
    then have "c \<in> set (map fst v)" using that by force
    then show ?thesis unfolding fields by (simp only: header.simps K)
  qed
  ultimately show ?thesis using rep by (simp add: heap_rep_def)
qed

text \<open>The first-fit search.\<close>

lemma kmalloc_find_suffix:
  assumes "hchain m p (map fst v) 0" "\<forall>x\<in>set v. header m x" "0 \<notin> set (map fst v)"
  shows "kmalloc_find m (hd (map fst v @ [0])) sz =
    Some (case find (\<lambda>(b, z, f). f \<and> sz \<le> z) v of None \<Rightarrow> 0 | Some x \<Rightarrow> fst x)"
  using assms
proof (induction v arbitrary: p)
  case Nil
  then show ?case by (simp add: kmalloc_find.simps)
next
  case (Cons x v)
  obtain b z f where x: "x = (b, z, f)" by (cases x) auto
  have "kget m b KNext = hd (map fst v @ [0])" using Cons.prems(1) x by simp
  then show ?case using Cons.IH [of b] Cons.prems x
    by (cases f) (simp_all add: kmalloc_find.simps [of m b])
qed

lemma kmalloc_find_rep:
  "heap_rep m h t v \<Longrightarrow> kmalloc_find m h sz =
     Some (case find (\<lambda>(b, z, f). f \<and> sz \<le> z) v of None \<Rightarrow> 0 | Some x \<Rightarrow> fst x)"
  using kmalloc_find_suffix [of m 0 v sz] tiled_nonzero by (auto simp: heap_rep_def)

text \<open>Appending a block.\<close>

lemma hchain_snoc:
  assumes c: "hchain m 0 (bs @ [c]) 0" 
    and "kget m' b KPrev = last (0 # bs @ [c])" "kget m' b KNext = 0" "kget m' c KPrev = kget m c KPrev"
    and "kget m' c KNext = b" "\<And>x. x \<in> set bs \<Longrightarrow> kget m' x KPrev = kget m x KPrev \<and> kget m' x KNext = kget m x KNext"
  shows "hchain m' 0 (bs @ [c, b]) 0"
  using assms hchain_cong [of bs m' m] by (simp add: hchain_append)

lemma heap_append_rep:
  assumes rep: "heap_rep (mem s) (heap_head s) (heap_tail s) v"
    and tv: "tiled (v @ [(b, z, f)])" and hdr: "header (mem s) (b, z, f)"
  obtains m h where "heap_append b s = s\<lparr>mem := m, heap_head := h, heap_tail := b\<rparr>"
    "heap_rep m h b (v @ [(b, z, f)])"
    "only_changes (header_bytes (v @ [(b, z, f)])) (mem s) m"
proof -
  let ?w = "v @ [(b, z, f)]" and ?M = "mem s"
  have bs: "bsep x y" if "x \<in> set (map fst ?w)" "y \<in> set (map fst ?w)" for x y
    using tiled_bsep [OF tv] that by fastforce
  have dist: "distinct (map fst ?w)" by (rule tiled_distinct [OF tv])
  have nz: "0 \<notin> set (map fst ?w)" using tiled_nonzero [OF tv] .
  have tl: "heap_tail s = last (0 # map fst v)" using rep by (simp add: heap_rep_def)
  define m where "m = (let m = kset b KNext 0 (kset b KPrev (heap_tail s) ?M) in
    if heap_tail s \<noteq> 0 then kset (heap_tail s) KNext b m else m)"
  have tl': "heap_tail s \<in> set (map fst v)" if "heap_tail s \<noteq> 0"
    using that last_in_set [of "map fst v"] tl by (cases "v = []") simp_all
  have K: "kget m c k = (if c = b \<and> k = KNext then 0 else if c = b \<and> k = KPrev then heap_tail s
     else if c = heap_tail s \<and> k = KNext then b else kget ?M c k)" if c: "c \<in> set (map fst ?w)" for c k
  proof -
    have b: "bsep b c" "bsep b b" using bs c by auto
    show ?thesis
    proof (cases "heap_tail s = 0")
      case True
      with b nz c show ?thesis by (auto simp: m_def)
    next
      case False
      then have "bsep (heap_tail s) c" "heap_tail s \<noteq> b" "bsep b (heap_tail s)"
        using bs tl' c dist by auto
      with False b show ?thesis by (simp add: m_def)
    qed
  qed
  show thesis
  proof
    show "heap_append b s = s\<lparr>mem := m, heap_head := if heap_tail s \<noteq> 0 then heap_head s else b, heap_tail := b\<rparr>"
      by (simp add: heap_append_def Let_def m_def)
    have hd: "header m x" if "x \<in> set ?w" for x
    proof (cases x)
      case (fields c y g)
      have "header ?M x" using rep hdr that by (auto simp: heap_rep_def)
      moreover have "c \<in> set (map fst ?w)" using that fields by force
      ultimately show ?thesis using fields by (simp add: K)
    qed
    show "heap_rep m (if heap_tail s \<noteq> 0 then heap_head s else b) b ?w"
    proof (cases v rule: rev_cases)
      case Nil
      then show ?thesis using tl K [of b] hd tv by (simp add: heap_rep_def)
    next
      case (snoc v' x)
      have t: "heap_tail s = fst x" "fst x \<noteq> 0" using tl snoc nz by auto
      have "hchain m 0 (map fst v' @ [fst x, b]) 0"
      proof (rule hchain_snoc)
        show "hchain ?M 0 (map fst v' @ [fst x]) 0" using rep snoc by (simp add: heap_rep_def)
        fix y assume "y \<in> set (map fst v')"
        then show "kget m y KPrev = kget ?M y KPrev \<and> kget m y KNext = kget ?M y KNext"
          using left_of_notin [of y "map fst v'" "[fst x, b]" "[]"] K [of y] snoc dist t nz by simp
      qed (use K [of b] K [of "fst x"] dist snoc t in auto)
      with t snoc hd tv rep show ?thesis by (auto simp: heap_rep_def hd_append)
    qed
    have S: "region x 48 \<subseteq> header_bytes ?w" if "x \<in> set (map fst ?w)" for x
      using that by (force simp: header_bytes_def)
    show "only_changes (header_bytes ?w) ?M m"
      unfolding m_def Let_def by (cases "heap_tail s = 0") (use tl' S in \<open>auto intro!: kset_changes\<close>)
  qed
qed

end
