(* ===== verification/Vm.thy ===== *)
theory Vm
  imports Pgtable_Spec Kmalloc
begin

text \<open>
  The kernel's address spaces, \<^verbatim>\<open>kernel/vm.c\<close>: the identity map of RAM and of the UART in every
  page table, switching the table in \<^verbatim>\<open>satp\<close>, and opening pages of the kernel's own table to user
  mode. The kernel reaches user buffers through the table in \<^verbatim>\<open>satp\<close>; \<open>vload8\<close> and \<open>vstore8\<close> are
  the accesses of the hart in S-mode, by the Sv39 walk of the privileged specification.
\<close>

section \<open>State and operations\<close>

record vm_state = heap_state +
  kernel_pagetable :: ptr

definition UART0_BASE :: u64 where "UART0_BASE = 0x10000000"
definition QEMU_RAM_BASE :: u64 where "QEMU_RAM_BASE = 0x80000000"
definition QEMU_RAM_END :: u64 where "QEMU_RAM_END = 0x88000000"

definition vm_switch :: "ptr \<Rightarrow> 'a machine_scheme \<Rightarrow> 'a machine_scheme option" where
  "vm_switch root s =
     do { kassert (root \<noteq> 0);
          kassert (root AND PAGE_MASK = 0);
          Some (csr_write_satp (SATP_MODE_SV39 OR drop_bit 12 root) s) }"

definition vm_kernel_pagetable :: "'a vm_state_scheme \<Rightarrow> ptr" where
  "vm_kernel_pagetable s = kernel_pagetable s"

definition vm_map_kernel :: "ptr \<Rightarrow> 'a page_state_scheme \<Rightarrow> (int \<times> 'a page_state_scheme) option" where
  "vm_map_kernel root s =
     do { kassert (root \<noteq> 0);
          (rc, s) \<leftarrow> pgtable_map root QEMU_RAM_BASE QEMU_RAM_BASE (QEMU_RAM_END - QEMU_RAM_BASE) PAGE_KERNEL s;
          if rc \<noteq> 0 then Some (- 1, s)
          else do { (rc, s) \<leftarrow> pgtable_map root UART0_BASE UART0_BASE PAGE_SIZE PAGE_DEVICE s;
                    if rc \<noteq> 0 then Some (- 1, s) else Some (0, s) } }"

partial_function (option) allow_user_loop ::
  "u64 \<Rightarrow> u64 \<Rightarrow> 'a vm_state_scheme \<Rightarrow> 'a vm_state_scheme option" where
  "allow_user_loop va e s =
     (if va < e
      then do { (pte, s) \<leftarrow> pgtable_walk (kernel_pagetable s) va False s;
                kassert (pte \<noteq> 0);
                kassert (pte_present (load64 (mem s) pte));
                kassert (pte_leaf (load64 (mem s) pte));
                allow_user_loop (va + PAGE_SIZE) e
                  (s\<lparr>mem := store64 pte (mk_pte (pte_to_pa (load64 (mem s) pte)) (PAGE_USER OR PTE_V)) (mem s)\<rparr>) }
      else Some s)"

definition vm_allow_user_identity :: "u64 \<Rightarrow> u64 \<Rightarrow> 'a vm_state_scheme \<Rightarrow> 'a vm_state_scheme option" where
  "vm_allow_user_identity addr sz s =
     do { let start = addr AND NOT PAGE_MASK;
          let e = (addr + sz + PAGE_MASK) AND NOT PAGE_MASK;
          kassert (kernel_pagetable s \<noteq> 0);
          allow_user_loop start e s }"

definition vm_init :: "'a vm_state_scheme \<Rightarrow> 'a vm_state_scheme option" where
  "vm_init s =
     do { let (root, s) = pgtable_create s;
          let s = s\<lparr>kernel_pagetable := root\<rparr>;
          kassert (kernel_pagetable s \<noteq> 0);
          (rc, s) \<leftarrow> vm_map_kernel (kernel_pagetable s) s;
          kassert (rc = 0);
          s \<leftarrow> vm_switch (kernel_pagetable s) s;
          let s = csr_write_sstatus (csr_read_sstatus s OR SSTATUS_SUM) s;
          printk ''vm: Sv39 enabled, satp=0x%lx root=%p\<newline>''
            [ALong (csr_read_satp s), APtr (kernel_pagetable s)] s }"

section \<open>The hart's view of memory\<close>

text \<open>
  The Sv39 walk of the hart: a leaf may stand at any level, but the kernel makes leaves at level 0
  only. Canonical addresses repeat bit 38 in the bits above it.
\<close>

fun sv39 :: "memory \<Rightarrow> nat \<Rightarrow> ptr \<Rightarrow> u64 \<Rightarrow> (u64 \<times> u64) option" where
  "sv39 m 0 table va =
     (let pte = ent m table (vpn_index 0 va)
      in if pte_present pte \<and> pte_leaf pte then Some (pte, pte_to_pa pte OR take_bit 12 va) else None)"
| "sv39 m (Suc l) table va =
     (let pte = ent m table (vpn_index (Suc l) va); n = 12 + 9 * Suc l
      in if \<not> pte_present pte then None
         else if pte_leaf pte
         then if take_bit n (pte_to_pa pte) = 0 then Some (pte, pte_to_pa pte OR take_bit n va) else None
         else sv39 m l (pte_to_pa pte) va)"

definition satp_root :: "u64 \<Rightarrow> ptr" where
  "satp_root satp = push_bit 12 (take_bit 44 satp)"

definition canonical :: "u64 \<Rightarrow> bool" where
  "canonical va \<longleftrightarrow> signed_take_bit 38 va = va"

text \<open>
  The physical address of an access of the kernel, and \<open>None\<close> for a page fault, which in S-mode
  ends in a panic. User pages are open to the kernel when \<^verbatim>\<open>SUM\<close> is set.
\<close>

definition translate :: "'a machine_scheme \<Rightarrow> bool \<Rightarrow> u64 \<Rightarrow> u64 option" where
  "translate s write va =
     (if drop_bit 60 (csr_satp s) = 0 then Some va
      else if \<not> canonical va then None
      else case sv39 (mem s) 2 (satp_root (csr_satp s)) va of
             None \<Rightarrow> None
           | Some (pte, pa) \<Rightarrow>
               if pte AND (if write then PTE_W else PTE_R) \<noteq> 0
                  \<and> (pte AND PTE_U = 0 \<or> csr_sstatus s AND SSTATUS_SUM \<noteq> 0)
               then Some pa else None)"

definition in_ram :: "u64 \<Rightarrow> bool" where
  "in_ram pa \<longleftrightarrow> QEMU_RAM_BASE \<le> pa \<and> pa < QEMU_RAM_END"

text \<open>Device registers behind a translated address are outside the memory modelled here.\<close>

definition vload8 :: "'a machine_scheme \<Rightarrow> u64 \<Rightarrow> u8 option" where
  "vload8 s va = do { pa \<leftarrow> translate s False va; kassert (in_ram pa); Some (mem s pa) }"

definition vstore8 :: "u64 \<Rightarrow> u8 \<Rightarrow> 'a machine_scheme \<Rightarrow> 'a machine_scheme option" where
  "vstore8 va c s =
     do { pa \<leftarrow> translate s True va; kassert (in_ram pa); Some (s\<lparr>mem := (mem s)(pa := c)\<rparr>) }"

text \<open>The bytes of a C string before its NUL, by a reader of bytes.\<close>

partial_function (option) cstring :: "(u64 \<Rightarrow> u8 option) \<Rightarrow> u64 \<Rightarrow> u8 list option" where
  "cstring rd p =
     do { c \<leftarrow> rd p;
          if c = 0 then Some [] else do { cs \<leftarrow> cstring rd (p + 1); Some (c # cs) } }"

end
