(* ===== verification/Task.thy ===== *)
theory Task
  imports Vm
begin

text \<open>
  Processes and the scheduler, \<^verbatim>\<open>kernel/task.c\<close>: the task structure and the saved registers at
  their offsets in memory, and one definition per function. Every list walk and every walk over a
  range of pages is a partial function, as nothing in the code bounds it. The address of a static
  list head is a field of the state.
\<close>

section \<open>Structures\<close>

record task_state = vm_state +
  current :: ptr
  next_pid :: u64
  nr_runnable :: u64
  run_queue :: ptr
  all_tasks :: ptr

definition TASK_UNUSED :: u32 where "TASK_UNUSED = 0"
definition TASK_READY :: u32 where "TASK_READY = 1"
definition TASK_RUNNING :: u32 where "TASK_RUNNING = 2"
definition TASK_SLEEPING :: u32 where "TASK_SLEEPING = 3"
definition TASK_ZOMBIE :: u32 where "TASK_ZOMBIE = 4"

definition USER_TEXT_BASE :: u64 where "USER_TEXT_BASE = 0x10000"
definition USER_STACK_TOP :: u64 where "USER_STACK_TOP = 0x40000000"

text \<open>The 64-bit fields of \<open>struct task\<close>; the state is an \<open>enum\<close> of 32 bits at offset 8.\<close>

datatype task_field =
  TPid | TTf | TKernelSp | TUserSp | TEntry | TKernelStackBase | TUserStackBase | TStackSize
| TUserImageSize | TExitCode | TPagetable

fun task_off :: "task_field \<Rightarrow> u64" where
  "task_off TPid = 0"
| "task_off TTf = 16"
| "task_off TKernelSp = 24"
| "task_off TUserSp = 32"
| "task_off TEntry = 40"
| "task_off TKernelStackBase = 48"
| "task_off TUserStackBase = 56"
| "task_off TStackSize = 64"
| "task_off TUserImageSize = 72"
| "task_off TExitCode = 80"
| "task_off TPagetable = 88"

abbreviation sizeof_task :: u64 where "sizeof_task \<equiv> 128"
abbreviation task_node_off :: u64 where "task_node_off \<equiv> 96"
abbreviation run_node_off :: u64 where "run_node_off \<equiv> 112"

definition tget :: "memory \<Rightarrow> ptr \<Rightarrow> task_field \<Rightarrow> u64" where
  "tget m t f = load64 m (t + task_off f)"

definition tset :: "ptr \<Rightarrow> task_field \<Rightarrow> u64 \<Rightarrow> memory \<Rightarrow> memory" where
  "tset t f v m = store64 (t + task_off f) v m"

definition tstate :: "memory \<Rightarrow> ptr \<Rightarrow> u32" where
  "tstate m t = load32 m (t + 8)"

definition set_tstate :: "ptr \<Rightarrow> u32 \<Rightarrow> memory \<Rightarrow> memory" where
  "set_tstate t v m = store32 (t + 8) v m"

definition task_node :: "ptr \<Rightarrow> ptr" where "task_node t = t + task_node_off"
definition run_node :: "ptr \<Rightarrow> ptr" where "run_node t = t + run_node_off"

text \<open>The saved registers of \<open>struct trap_frame\<close>, in the order of the structure.\<close>

datatype tf_reg =
  TfRa | TfGp | TfTp | TfT0 | TfT1 | TfT2 | TfS0 | TfS1 | TfA0 | TfA1
  | TfA2 | TfA3 | TfA4 | TfA5 | TfA6 | TfA7 | TfS2 | TfS3 | TfS4 | TfS5
  | TfS6 | TfS7 | TfS8 | TfS9 | TfS10 | TfS11 | TfT3 | TfT4 | TfT5 | TfT6
  | TfSp | TfSepc | TfSstatus | TfReserved

fun tf_off :: "tf_reg \<Rightarrow> u64" where
  "tf_off TfRa = 0"
| "tf_off TfGp = 8"
| "tf_off TfTp = 16"
| "tf_off TfT0 = 24"
| "tf_off TfT1 = 32"
| "tf_off TfT2 = 40"
| "tf_off TfS0 = 48"
| "tf_off TfS1 = 56"
| "tf_off TfA0 = 64"
| "tf_off TfA1 = 72"
| "tf_off TfA2 = 80"
| "tf_off TfA3 = 88"
| "tf_off TfA4 = 96"
| "tf_off TfA5 = 104"
| "tf_off TfA6 = 112"
| "tf_off TfA7 = 120"
| "tf_off TfS2 = 128"
| "tf_off TfS3 = 136"
| "tf_off TfS4 = 144"
| "tf_off TfS5 = 152"
| "tf_off TfS6 = 160"
| "tf_off TfS7 = 168"
| "tf_off TfS8 = 176"
| "tf_off TfS9 = 184"
| "tf_off TfS10 = 192"
| "tf_off TfS11 = 200"
| "tf_off TfT3 = 208"
| "tf_off TfT4 = 216"
| "tf_off TfT5 = 224"
| "tf_off TfT6 = 232"
| "tf_off TfSp = 240"
| "tf_off TfSepc = 248"
| "tf_off TfSstatus = 256"
| "tf_off TfReserved = 264"

abbreviation sizeof_trap_frame :: u64 where "sizeof_trap_frame \<equiv> 272"

definition fget :: "memory \<Rightarrow> ptr \<Rightarrow> tf_reg \<Rightarrow> u64" where
  "fget m tf r = load64 m (tf + tf_off r)"

definition fset :: "ptr \<Rightarrow> tf_reg \<Rightarrow> u64 \<Rightarrow> memory \<Rightarrow> memory" where
  "fset tf r v m = store64 (tf + tf_off r) v m"

section \<open>Making and freeing a task\<close>

definition task_init_frame :: "ptr \<Rightarrow> memory \<Rightarrow> memory" where
  "task_init_frame task m =
     (let m = tset task TTf (tget m task TKernelSp - sizeof_trap_frame) m;
          tf = tget m task TTf;
          m = fold (\<lambda>i. store64 (tf + 8 * of_nat i) 0) [0..<34] m;
          m = fset tf TfSp (tget m task TUserSp) m;
          m = fset tf TfSepc (tget m task TEntry) m
      in fset tf TfSstatus (SSTATUS_SPIE OR SSTATUS_SUM) m)"

definition task_alloc :: "'a heap_state_scheme \<Rightarrow> (ptr \<times> 'a heap_state_scheme) option" where
  "task_alloc s =
     do { (task, s) \<leftarrow> kmalloc sizeof_task s;
          if task = 0 then Some (0, s)
          else do { let m = tset task TPid 0 (mem s);
                    let m = set_tstate task TASK_UNUSED m;
                    let m = fold (\<lambda>f. tset task f 0)
                      [TTf, TKernelSp, TUserSp, TEntry, TKernelStackBase, TUserStackBase, TStackSize,
                       TUserImageSize, TExitCode, TPagetable] m;
                    let m = INIT_LIST_HEAD (run_node task) (INIT_LIST_HEAD (task_node task) m);
                    Some (task, s\<lparr>mem := m\<rparr>) } }"

partial_function (option) free_user_loop ::
  "ptr \<Rightarrow> u64 \<Rightarrow> u64 \<Rightarrow> 'a page_state_scheme \<Rightarrow> 'a page_state_scheme option" where
  "free_user_loop pagetable addr e s =
     (if addr < e
      then do { (pte, s) \<leftarrow> pgtable_walk pagetable addr False s;
                if pte = 0 \<or> \<not> pte_present (load64 (mem s) pte) \<or> \<not> pte_leaf (load64 (mem s) pte)
                then free_user_loop pagetable (addr + PAGE_SIZE) e s
                else do { s \<leftarrow> page_free (pte_to_pa (load64 (mem s) pte)) s;
                          free_user_loop pagetable (addr + PAGE_SIZE) e (s\<lparr>mem := store64 pte 0 (mem s)\<rparr>) } }
      else Some s)"

definition task_free_user_pages ::
  "ptr \<Rightarrow> u64 \<Rightarrow> u64 \<Rightarrow> 'a page_state_scheme \<Rightarrow> 'a page_state_scheme option" where
  "task_free_user_pages pagetable va sz s = free_user_loop pagetable va (va + sz) s"

definition task_free :: "ptr \<Rightarrow> 'a heap_state_scheme \<Rightarrow> 'a heap_state_scheme option" where
  "task_free task s =
     do { s \<leftarrow> (if tget (mem s) task TUserStackBase \<noteq> 0
                then page_free (tget (mem s) task TUserStackBase) s else Some s);
          s \<leftarrow> (if tget (mem s) task TPagetable \<noteq> 0 \<and> tget (mem s) task TUserImageSize \<noteq> 0
                then task_free_user_pages (tget (mem s) task TPagetable) USER_TEXT_BASE
                       (tget (mem s) task TUserImageSize) s
                else Some s);
          s \<leftarrow> (if tget (mem s) task TKernelStackBase \<noteq> 0
                then page_free (tget (mem s) task TKernelStackBase) s else Some s);
          s \<leftarrow> (if tget (mem s) task TPagetable \<noteq> 0
                then pgtable_free_walk (tget (mem s) task TPagetable) s else Some s);
          kfree task s }"

text \<open>\<open>list_for_each_safe\<close> reads the next node before the body runs.\<close>

partial_function (option) reap_loop ::
  "ptr \<Rightarrow> ptr \<Rightarrow> 'a task_state_scheme \<Rightarrow> 'a task_state_scheme option" where
  "reap_loop pos nxt s =
     (if pos = all_tasks s then Some s
      else let task = list_entry pos task_node_off
           in if tstate (mem s) task \<noteq> TASK_ZOMBIE \<or> task = current s
              then reap_loop nxt (lnext (mem s) nxt) s
              else do { s \<leftarrow> printk ''task reap: pid=%lu exit_code=%d\<newline>''
                              [ALong (tget (mem s) task TPid), AInt (ucast (tget (mem s) task TExitCode))] s;
                        s \<leftarrow> task_free task (s\<lparr>mem := list_del (task_node task) (mem s)\<rparr>);
                        reap_loop nxt (lnext (mem s) nxt) s })"

definition task_reap_zombies :: "'a task_state_scheme \<Rightarrow> 'a task_state_scheme option" where
  "task_reap_zombies s =
     (let pos = lnext (mem s) (all_tasks s) in reap_loop pos (lnext (mem s) pos) s)"

text \<open>The failure branches free what they allocated, in this order.\<close>

definition discard :: "ptr \<Rightarrow> ptr \<Rightarrow> ptr \<Rightarrow> ptr \<Rightarrow> 'a heap_state_scheme \<Rightarrow> 'a heap_state_scheme option" where
  "discard user_stack kernel_stack pagetable task s =
     do { s \<leftarrow> (if user_stack \<noteq> 0 then page_free user_stack s else Some s);
          s \<leftarrow> (if kernel_stack \<noteq> 0 then page_free kernel_stack s else Some s);
          s \<leftarrow> (if pagetable \<noteq> 0 then pgtable_free_walk pagetable s else Some s);
          kfree task s }"

text \<open>Linking a finished task into both lists.\<close>

definition task_link :: "ptr \<Rightarrow> 'a task_state_scheme \<Rightarrow> 'a task_state_scheme" where
  "task_link task s =
     s\<lparr>mem := list_add_tail (run_node task) (run_queue s) (list_add_tail (task_node task) (all_tasks s) (mem s)),
       nr_runnable := nr_runnable s + 1\<rparr>"

definition task_create :: "ptr \<Rightarrow> 'a task_state_scheme \<Rightarrow> (ptr \<times> 'a task_state_scheme) option" where
  "task_create entry s =
     do { s \<leftarrow> task_reap_zombies s;
          (task, s) \<leftarrow> task_alloc s;
          if task = 0 then Some (0, s)
          else do {
            let (user_stack, s) = page_alloc s;
            let (kernel_stack, s) = page_alloc s;
            let (pagetable, s) = pgtable_create s;
            if user_stack = 0 \<or> kernel_stack = 0 \<or> pagetable = 0
            then do { s \<leftarrow> discard user_stack kernel_stack pagetable task s; Some (0, s) }
            else do {
              let m = tset task TPid (next_pid s) (mem s);
              let m = set_tstate task TASK_READY m;
              let m = tset task TKernelStackBase kernel_stack m;
              let m = tset task TUserStackBase user_stack m;
              let m = tset task TStackSize PAGE_SIZE m;
              let m = tset task TUserImageSize 0 m;
              let m = tset task TKernelSp (kernel_stack + PAGE_SIZE) m;
              let m = tset task TUserSp (user_stack + PAGE_SIZE) m;
              let m = tset task TEntry entry m;
              let m = tset task TExitCode 0 m;
              let m = tset task TPagetable pagetable m;
              s \<leftarrow> vm_allow_user_identity (tget m task TUserStackBase) (tget m task TStackSize)
                     (s\<lparr>mem := m, next_pid := next_pid s + 1\<rparr>);
              Some (task, task_link task (s\<lparr>mem := task_init_frame task (mem s)\<rparr>)) } } }"

text \<open>
  The image loop of \<open>task_create_user\<close>. On failure it has released the pages of the image it had
  mapped, and returns false; the caller releases the rest.
\<close>

partial_function (option) image_loop ::
  "u64 \<Rightarrow> u64 \<Rightarrow> u64 \<Rightarrow> ptr \<Rightarrow> u64 \<Rightarrow> 'a page_state_scheme \<Rightarrow> (bool \<times> 'a page_state_scheme) option" where
  "image_loop image_start image_size image_pages pagetable off s =
     (if off < image_pages
      then let (page, s) = page_alloc s
           in if page = 0
              then do { s \<leftarrow> task_free_user_pages pagetable USER_TEXT_BASE off s; Some (False, s) }
              else do { let copy_size = (if off + PAGE_SIZE > image_size then image_size - off else PAGE_SIZE);
                        let m = mem_copy page (image_start + off) copy_size (mem_zero page PAGE_SIZE (mem s));
                        (rc, s) \<leftarrow> pgtable_map pagetable (USER_TEXT_BASE + off) page PAGE_SIZE PAGE_USER (s\<lparr>mem := m\<rparr>);
                        if rc \<noteq> 0
                        then do { s \<leftarrow> page_free page s;
                                  s \<leftarrow> task_free_user_pages pagetable USER_TEXT_BASE off s;
                                  Some (False, s) }
                        else image_loop image_start image_size image_pages pagetable (off + PAGE_SIZE) s }
      else Some (True, s))"

definition task_create_user ::
  "u64 \<Rightarrow> u64 \<Rightarrow> ptr \<Rightarrow> 'a task_state_scheme \<Rightarrow> (ptr \<times> 'a task_state_scheme) option" where
  "task_create_user image_start image_end entry s =
     do { s \<leftarrow> task_reap_zombies s;
          (task, s) \<leftarrow> task_alloc s;
          if task = 0 then Some (0, s)
          else do {
            let image_size = image_end - image_start;
            let image_pages = align_up image_size PAGE_SIZE;
            let entry_offset = entry - image_start;
            let user_stack_va = USER_STACK_TOP - PAGE_SIZE;
            let (user_stack, s) = page_alloc s;
            let (kernel_stack, s) = page_alloc s;
            let (pagetable, s) = pgtable_create s;
            if user_stack = 0 \<or> kernel_stack = 0 \<or> pagetable = 0
            then do { s \<leftarrow> discard user_stack kernel_stack pagetable task s; Some (0, s) }
            else do {
              (rc, s) \<leftarrow> vm_map_kernel pagetable s;
              if rc \<noteq> 0
              then do { s \<leftarrow> discard user_stack kernel_stack pagetable task s; Some (0, s) }
              else do {
                (ok, s) \<leftarrow> image_loop image_start image_size image_pages pagetable 0 s;
                if \<not> ok
                then do { s \<leftarrow> discard user_stack kernel_stack pagetable task s; Some (0, s) }
                else do {
                  (rc, s) \<leftarrow> pgtable_map pagetable user_stack_va user_stack PAGE_SIZE PAGE_USER
                              (s\<lparr>mem := mem_zero user_stack PAGE_SIZE (mem s)\<rparr>);
                  if rc \<noteq> 0
                  then do { s \<leftarrow> task_free_user_pages pagetable USER_TEXT_BASE image_pages s;
                            s \<leftarrow> discard user_stack kernel_stack pagetable task s;
                            Some (0, s) }
                  else do {
                    let m = tset task TPid (next_pid s) (mem s);
                    let m = set_tstate task TASK_READY m;
                    let m = tset task TKernelStackBase kernel_stack m;
                    let m = tset task TUserStackBase user_stack m;
                    let m = tset task TStackSize PAGE_SIZE m;
                    let m = tset task TUserImageSize image_pages m;
                    let m = tset task TKernelSp (kernel_stack + PAGE_SIZE) m;
                    let m = tset task TUserSp USER_STACK_TOP m;
                    let m = tset task TEntry (USER_TEXT_BASE + entry_offset) m;
                    let m = tset task TExitCode 0 m;
                    let m = tset task TPagetable pagetable m;
                    let s = s\<lparr>mem := task_init_frame task m, next_pid := next_pid s + 1\<rparr>;
                    let s = task_link task s;
                    s \<leftarrow> printk ''task create user: pid=%lu entry=%p user_sp=%p kernel_sp=%p\<newline>''
                           [ALong (tget (mem s) task TPid), APtr (tget (mem s) task TEntry),
                            APtr (tget (mem s) task TUserSp), APtr (tget (mem s) task TKernelSp)] s;
                    Some (task, s) } } } } } }"

definition task_destroy :: "ptr \<Rightarrow> 'a task_state_scheme \<Rightarrow> 'a task_state_scheme option" where
  "task_destroy task s =
     do { kassert (task \<noteq> 0);
          kassert (task \<noteq> current s);
          let s = s\<lparr>mem := list_del (run_node task) (list_del (task_node task) (mem s))\<rparr>;
          kassert (nr_runnable s > 0);
          task_free task (s\<lparr>nr_runnable := nr_runnable s - 1\<rparr>) }"

section \<open>Scheduling\<close>

definition task_current :: "'a task_state_scheme \<Rightarrow> ptr" where
  "task_current s = current s"

definition task_set_current :: "ptr \<Rightarrow> 'a task_state_scheme \<Rightarrow> 'a task_state_scheme option" where
  "task_set_current task s =
     do { kassert (task \<noteq> 0);
          let s = s\<lparr>current := task, mem := set_tstate task TASK_RUNNING (mem s)\<rparr>;
          vm_switch (tget (mem s) (current s) TPagetable) s }"

text \<open>The scan of \<open>task_pick_next\<close>: at most \<open>nr\<close> nodes of the queue, the head skipped.\<close>

function pick_loop :: "memory \<Rightarrow> ptr \<Rightarrow> u64 \<Rightarrow> ptr \<Rightarrow> u64 \<Rightarrow> ptr" where
  "pick_loop m queue nr pos scanned =
     (if scanned < nr
      then let pos = (if pos = queue then lnext m queue else pos);
               task = list_entry pos run_node_off
           in if tstate m task = TASK_READY \<or> tstate m task = TASK_RUNNING then task
              else pick_loop m queue nr (lnext m pos) (scanned + 1)
      else 0)"
  by pat_completeness auto
termination
  by (relation "measure (\<lambda>(m, queue, nr, pos, scanned). unat nr - unat scanned)")
    (auto intro: word_plus_one_measure)

declare pick_loop.simps [simp del]

definition task_pick_next :: "'a task_state_scheme \<Rightarrow> ptr" where
  "task_pick_next s =
     (if list_empty (mem s) (run_queue s) \<or> nr_runnable s = 0 then 0
      else let pos = (if current s \<noteq> 0 then lnext (mem s) (run_node (current s))
                      else lnext (mem s) (run_queue s))
           in pick_loop (mem s) (run_queue s) (nr_runnable s) pos 0)"

definition task_exit_current :: "ptr \<Rightarrow> u64 \<Rightarrow> 'a task_state_scheme \<Rightarrow> (ptr \<times> 'a task_state_scheme) option" where
  "task_exit_current tf code s =
     do { kassert (current s \<noteq> 0);
          let dead = current s;
          let m = set_tstate dead TASK_ZOMBIE (tset dead TExitCode code (tset dead TTf tf (mem s)));
          let s = s\<lparr>mem := list_del (run_node dead) m\<rparr>;
          kassert (nr_runnable s > 0);
          let s = s\<lparr>nr_runnable := nr_runnable s - 1, current := 0\<rparr>;
          if nr_runnable s = 0 then Some (0, s)
          else do { let nxt = task_pick_next s;
                    kassert (nxt \<noteq> 0);
                    s \<leftarrow> task_set_current nxt s;
                    Some (tget (mem s) nxt TTf, s) } }"

definition task_schedule :: "ptr \<Rightarrow> 'a task_state_scheme \<Rightarrow> (ptr \<times> 'a task_state_scheme) option" where
  "task_schedule tf s =
     do { let prev = current s;
          let s = (if prev \<noteq> 0
                   then let m = tset prev TTf tf (mem s)
                        in s\<lparr>mem := (if tstate m prev = TASK_RUNNING then set_tstate prev TASK_READY m else m)\<rparr>
                   else s);
          s \<leftarrow> task_reap_zombies s;
          let nxt = task_pick_next s;
          if nxt = 0 \<or> nxt = prev \<or> tget (mem s) nxt TTf = 0
          then Some (tf, if prev \<noteq> 0 then s\<lparr>mem := set_tstate prev TASK_RUNNING (mem s)\<rparr> else s)
          else do { s \<leftarrow> task_set_current nxt s; Some (tget (mem s) nxt TTf, s) } }"

partial_function (option) dump_loop :: "ptr \<Rightarrow> 'a task_state_scheme \<Rightarrow> 'a task_state_scheme option" where
  "dump_loop pos s =
     (if pos = run_queue s then Some s
      else do { let task = list_entry pos run_node_off;
                s \<leftarrow> printk '' pid=%lu(state=%d)'' [ALong (tget (mem s) task TPid), AInt (tstate (mem s) task)] s;
                dump_loop (lnext (mem s) pos) s })"

definition task_dump_run_queue :: "'a task_state_scheme \<Rightarrow> 'a task_state_scheme option" where
  "task_dump_run_queue s =
     do { s \<leftarrow> printk ''run queue:'' [] s;
          if list_empty (mem s) (run_queue s) then printk '' empty\<newline>'' [] s
          else do { s \<leftarrow> dump_loop (lnext (mem s) (run_queue s)) s; printk ''\<newline>'' [] s } }"

section \<open>Fork\<close>

text \<open>The page at \<open>va\<close> of a page table, or null when it has none.\<close>

definition mapped_page :: "ptr \<Rightarrow> u64 \<Rightarrow> 'a page_state_scheme \<Rightarrow> (ptr \<times> 'a page_state_scheme) option" where
  "mapped_page pagetable va s =
     do { (pte, s) \<leftarrow> pgtable_walk pagetable va False s;
          Some (if pte = 0 \<or> \<not> pte_present (load64 (mem s) pte) \<or> \<not> pte_leaf (load64 (mem s) pte)
                then 0 else pte, s) }"

partial_function (option) fork_loop ::
  "ptr \<Rightarrow> ptr \<Rightarrow> u64 \<Rightarrow> u64 \<Rightarrow> 'a page_state_scheme \<Rightarrow> (bool \<times> 'a page_state_scheme) option" where
  "fork_loop parent_pagetable child_pagetable image_pages off s =
     (if off < image_pages
      then do {
        (src_pte, s) \<leftarrow> mapped_page parent_pagetable (USER_TEXT_BASE + off) s;
        if src_pte = 0 then fork_loop parent_pagetable child_pagetable image_pages (off + PAGE_SIZE) s
        else do {
          let src_page = pte_to_pa (load64 (mem s) src_pte);
          let (dst_page, s) = page_alloc s;
          if dst_page = 0
          then do { s \<leftarrow> task_free_user_pages child_pagetable USER_TEXT_BASE off s; Some (False, s) }
          else do {
            (rc, s) \<leftarrow> pgtable_map child_pagetable (USER_TEXT_BASE + off) dst_page PAGE_SIZE PAGE_USER
                        (s\<lparr>mem := mem_copy dst_page src_page PAGE_SIZE (mem s)\<rparr>);
            if rc \<noteq> 0
            then do { s \<leftarrow> page_free dst_page s;
                      s \<leftarrow> task_free_user_pages child_pagetable USER_TEXT_BASE off s;
                      Some (False, s) }
            else fork_loop parent_pagetable child_pagetable image_pages (off + PAGE_SIZE) s } } }
      else Some (True, s))"

definition task_fork :: "ptr \<Rightarrow> 'a task_state_scheme \<Rightarrow> (ptr \<times> 'a task_state_scheme) option" where
  "task_fork tf s =
     (let parent = current s
      in if parent = 0 then Some (0, s)
         else do {
           s \<leftarrow> task_reap_zombies s;
           (child, s) \<leftarrow> task_alloc s;
           if child = 0 then Some (0, s)
           else do {
             let (user_stack, s) = page_alloc s;
             let (kernel_stack, s) = page_alloc s;
             let (pagetable, s) = pgtable_create s;
             if user_stack = 0 \<or> kernel_stack = 0 \<or> pagetable = 0
             then do { s \<leftarrow> discard user_stack kernel_stack pagetable child s; Some (0, s) }
             else do {
               (rc, s) \<leftarrow> vm_map_kernel pagetable s;
               if rc \<noteq> 0
               then do { s \<leftarrow> discard user_stack kernel_stack pagetable child s; Some (0, s) }
               else do {
                 let image_pages = tget (mem s) parent TUserImageSize;
                 (ok, s) \<leftarrow> fork_loop (tget (mem s) parent TPagetable) pagetable image_pages 0 s;
                 if \<not> ok
                 then do { s \<leftarrow> discard user_stack kernel_stack pagetable child s; Some (0, s) }
                 else do {
                   (stack_pte, s) \<leftarrow> mapped_page (tget (mem s) parent TPagetable)
                                       (tget (mem s) parent TUserSp AND NOT (PAGE_SIZE - 1)) s;
                   let m = (if stack_pte \<noteq> 0
                            then mem_copy user_stack (pte_to_pa (load64 (mem s) stack_pte)) PAGE_SIZE (mem s)
                            else mem_zero user_stack PAGE_SIZE (mem s));
                   (rc, s) \<leftarrow> pgtable_map pagetable (USER_STACK_TOP - PAGE_SIZE) user_stack PAGE_SIZE PAGE_USER
                               (s\<lparr>mem := m\<rparr>);
                   if rc \<noteq> 0
                   then do { s \<leftarrow> task_free_user_pages pagetable USER_TEXT_BASE image_pages s;
                             s \<leftarrow> discard user_stack kernel_stack pagetable child s;
                             Some (0, s) }
                   else do {
                     let m = tset child TPid (next_pid s) (mem s);
                     let m = set_tstate child TASK_READY m;
                     let m = tset child TKernelStackBase kernel_stack m;
                     let m = tset child TUserStackBase user_stack m;
                     let m = tset child TStackSize PAGE_SIZE m;
                     let m = tset child TUserImageSize image_pages m;
                     let m = tset child TKernelSp (kernel_stack + PAGE_SIZE) m;
                     let m = tset child TUserSp (tget m parent TUserSp) m;
                     let m = tset child TEntry (tget m parent TEntry) m;
                     let m = tset child TExitCode 0 m;
                     let m = tset child TPagetable pagetable m;
                     let m = tset child TTf (tget m child TKernelSp - sizeof_trap_frame) m;
                     let m = mem_copy (tget m child TTf) tf sizeof_trap_frame m;
                     let m = fset (tget m child TTf) TfA0 0 m;
                     let m = fset tf TfA0 (tget m child TPid) m;
                     let s = task_link child (s\<lparr>mem := m, next_pid := next_pid s + 1\<rparr>);
                     s \<leftarrow> printk ''fork: parent=%lu child=%lu\<newline>''
                            [ALong (tget (mem s) parent TPid), ALong (tget (mem s) child TPid)] s;
                     Some (child, s) } } } } } })"

section \<open>Listing\<close>

definition state_str :: "u32 \<Rightarrow> string" where
  "state_str st =
     (if st = TASK_UNUSED then ''UNUSED''
      else if st = TASK_READY then ''READY''
      else if st = TASK_RUNNING then ''RUNNING''
      else if st = TASK_SLEEPING then ''SLEEPING''
      else if st = TASK_ZOMBIE then ''ZOMBIE''
      else ''UNKNOWN'')"

partial_function (option) list_all_loop :: "ptr \<Rightarrow> 'a task_state_scheme \<Rightarrow> 'a task_state_scheme option" where
  "list_all_loop pos s =
     (if pos = all_tasks s then Some s
      else do { let task = list_entry pos task_node_off;
                s \<leftarrow> printk ''%lu     %s''
                       [ALong (tget (mem s) task TPid), AStr (Some (map ch (state_str (tstate (mem s) task))))] s;
                s \<leftarrow> printk '' 0x%lx'' [ALong (tget (mem s) task TEntry)] s;
                s \<leftarrow> printk '' 0x%lx\<newline>'' [ALong (tget (mem s) task TUserSp)] s;
                list_all_loop (lnext (mem s) pos) s })"

definition task_list_all :: "'a task_state_scheme \<Rightarrow> 'a task_state_scheme option" where
  "task_list_all s =
     do { s \<leftarrow> printk ''PID    STATE        ENTRY      USER_SP\<newline>'' [] s;
          s \<leftarrow> printk ''------ ------------ ---------- ----------\<newline>'' [] s;
          s \<leftarrow> list_all_loop (lnext (mem s) (all_tasks s)) s;
          printk ''total: %lu runnable\<newline>'' [ALong (nr_runnable s)] s }"

end
