(* ===== verification/Initrd.thy ===== *)
theory Initrd
  imports Task
begin

text \<open>
  The initial RAM disk, \<^verbatim>\<open>kernel/initrd.c\<close>: a \<^verbatim>\<open>cpio\<close> archive in the "newc" format, parsed once
  at boot into a linked list of entries on the kernel heap, and the lookup of a file by name.
\<close>

section \<open>State and structures\<close>

record initrd_state = task_state +
  file_list :: ptr
  initrd_start :: u64
  initrd_end :: u64

definition CPIO_HEADER_SIZE :: u64 where "CPIO_HEADER_SIZE = 110"

text \<open>\<open>struct initrd_entry\<close>: 64 bytes of name, then three words.\<close>

datatype initrd_field = EData | ESize | ENext

fun initrd_off :: "initrd_field \<Rightarrow> u64" where
  "initrd_off EData = 64"
| "initrd_off ESize = 72"
| "initrd_off ENext = 80"

abbreviation sizeof_initrd_entry :: u64 where "sizeof_initrd_entry \<equiv> 88"

definition eget :: "memory \<Rightarrow> ptr \<Rightarrow> initrd_field \<Rightarrow> u64" where
  "eget m e f = load64 m (e + initrd_off f)"

definition eset :: "ptr \<Rightarrow> initrd_field \<Rightarrow> u64 \<Rightarrow> memory \<Rightarrow> memory" where
  "eset e f v m = store64 (e + initrd_off f) v m"

section \<open>Parsing\<close>

text \<open>A character that is no digit shifts the value and adds nothing.\<close>

definition hex_digit :: "u8 \<Rightarrow> u64" where
  "hex_digit c =
     (if ch CHR ''0'' \<le> c \<and> c \<le> ch CHR ''9'' then ucast (c - ch CHR ''0'')
      else if ch CHR ''a'' \<le> c \<and> c \<le> ch CHR ''f'' then ucast (c - ch CHR ''a'' + 10)
      else if ch CHR ''A'' \<le> c \<and> c \<le> ch CHR ''F'' then ucast (c - ch CHR ''A'' + 10)
      else 0)"

fun parse_hex_loop :: "memory \<Rightarrow> ptr \<Rightarrow> nat \<Rightarrow> u64 \<Rightarrow> u64" where
  "parse_hex_loop m s 0 val = val"
| "parse_hex_loop m s (Suc n) val = parse_hex_loop m (s + 1) n (push_bit 4 val OR hex_digit (m s))"

definition parse_hex :: "memory \<Rightarrow> ptr \<Rightarrow> nat \<Rightarrow> u64" where
  "parse_hex m s len = parse_hex_loop m s len 0"

definition align4 :: "u64 \<Rightarrow> u64" where
  "align4 val = (val + 3) AND NOT 3"

text \<open>The bytes at \<open>p\<close> are those of a literal.\<close>

fun bytes_at :: "memory \<Rightarrow> ptr \<Rightarrow> string \<Rightarrow> bool" where
  "bytes_at m p [] \<longleftrightarrow> True"
| "bytes_at m p (c # cs) \<longleftrightarrow> m p = ch c \<and> bytes_at m (p + 1) cs"

function copy_name :: "ptr \<Rightarrow> ptr \<Rightarrow> u64 \<Rightarrow> u64 \<Rightarrow> memory \<Rightarrow> memory" where
  "copy_name entry name namesize i m =
     (if i < namesize \<and> i < 63 then copy_name entry name namesize (i + 1) (m(entry + i := m (name + i)))
      else m)"
  by pat_completeness auto
termination
  by (relation "measure (\<lambda>(e, n, z, i, m). unat z - unat i)") (auto intro: word_plus_one_measure)

declare copy_name.simps [simp del]

definition kernel_string :: "'a machine_scheme \<Rightarrow> ptr \<Rightarrow> u8 list option" where
  "kernel_string s p = cstring (\<lambda>a. Some (mem s a)) p"

text \<open>The loop of \<open>initrd_init\<close>; a \<open>break\<close> returns the number of files found so far.\<close>

partial_function (option) initrd_loop ::
  "u64 \<Rightarrow> u32 \<Rightarrow> 'a initrd_state_scheme \<Rightarrow> (u32 \<times> 'a initrd_state_scheme) option" where
  "initrd_loop pos file_count s =
     (if pos + CPIO_HEADER_SIZE \<le> initrd_end s
      then if bytes_at (mem s) pos ''TRAIL''
      then do { s \<leftarrow> printk ''initrd: found trailer at 0x%lx\<newline>'' [ALong pos] s; Some (file_count, s) }
      else if \<not> bytes_at (mem s) pos ''070701''
      then do { s \<leftarrow> printk ''initrd: bad magic at 0x%lx\<newline>'' [ALong pos] s; Some (file_count, s) }
      else do {
        let namesize = parse_hex (mem s) (pos + 94) 8;
        let filesize = parse_hex (mem s) (pos + 54) 8;
        s \<leftarrow> printk ''initrd: entry at 0x%lx namesize=%lu filesize=%lu\<newline>''
               [ALong pos, ALong namesize, ALong filesize] s;
        let name = pos + CPIO_HEADER_SIZE;
        if mem s name = ch CHR ''.'' \<and> mem s (name + 1) = 0
        then do { s \<leftarrow> printk ''initrd: skipping '.' entry\<newline>'' [] s;
                  initrd_loop (align4 (align4 (pos + CPIO_HEADER_SIZE + namesize) + filesize)) file_count s }
        else if namesize \<ge> 64
        then do { s \<leftarrow> printk ''initrd: skipping long name (%lu bytes)\<newline>'' [ALong namesize] s;
                  initrd_loop (align4 (align4 (pos + CPIO_HEADER_SIZE + namesize) + filesize)) file_count s }
        else do {
          (entry, s) \<leftarrow> kmalloc sizeof_initrd_entry s;
          if entry = 0
          then do { s \<leftarrow> printk ''initrd: out of memory\<newline>'' [] s; Some (file_count, s) }
          else do {
            let m = copy_name entry name namesize 0 (mem s);
            let m = m(entry + (if namesize < 64 then namesize else 63) := 0);
            let m = eset entry EData (align4 (pos + CPIO_HEADER_SIZE + namesize)) m;
            let m = eset entry ESize filesize m;
            let m = eset entry ENext (file_list s) m;
            let s = s\<lparr>mem := m, file_list := entry\<rparr>;
            name_text \<leftarrow> kernel_string s entry;
            s \<leftarrow> printk ''initrd: file '%s' size=%lu at 0x%lx\<newline>''
                   [AStr (Some name_text), ALong (eget (mem s) entry ESize), ALong (eget (mem s) entry EData)] s;
            initrd_loop (align4 (eget (mem s) entry EData + filesize)) (file_count + 1) s } } }
      else Some (file_count, s))"

definition initrd_init :: "u64 \<Rightarrow> u64 \<Rightarrow> 'a initrd_state_scheme \<Rightarrow> 'a initrd_state_scheme option" where
  "initrd_init start sz s =
     do { let s = s\<lparr>initrd_start := start, initrd_end := start + sz, file_list := 0\<rparr>;
          s \<leftarrow> printk ''initrd: start=0x%lx size=0x%lx\<newline>'' [ALong start, ALong sz] s;
          (file_count, s) \<leftarrow> initrd_loop start 0 s;
          printk ''initrd: loaded %d files\<newline>'' [AInt file_count] s }"

section \<open>Lookup\<close>

text \<open>The comparison of two C strings, each behind a reader of bytes.\<close>

partial_function (option) str_match ::
  "(u64 \<Rightarrow> u8 option) \<Rightarrow> u64 \<Rightarrow> (u64 \<Rightarrow> u8 option) \<Rightarrow> u64 \<Rightarrow> bool option" where
  "str_match ra a rb b =
     do { x \<leftarrow> ra a;
          y \<leftarrow> rb b;
          if x \<noteq> 0 \<and> y \<noteq> 0 then if x \<noteq> y then Some False else str_match ra (a + 1) rb (b + 1)
          else Some (x = y) }"

text \<open>The data and the size of the first entry with the name, and a null pointer when there is none.\<close>

partial_function (option) find_loop ::
  "memory \<Rightarrow> (u64 \<Rightarrow> u8 option) \<Rightarrow> u64 \<Rightarrow> ptr \<Rightarrow> (ptr \<times> u64 option) option" where
  "find_loop m rd name entry =
     (if entry = 0 then Some (0, None)
      else do { matches \<leftarrow> str_match (\<lambda>a. Some (m a)) entry rd name;
                if matches then Some (eget m entry EData, Some (eget m entry ESize))
                else find_loop m rd name (eget m entry ENext) })"

definition initrd_find :: "(u64 \<Rightarrow> u8 option) \<Rightarrow> u64 \<Rightarrow> 'a initrd_state_scheme \<Rightarrow> (ptr \<times> u64 option) option" where
  "initrd_find rd name s = find_loop (mem s) rd name (file_list s)"

end
