(* ===== verification/Exec.thy ===== *)
theory Exec
  imports Initrd
begin

text \<open>
  Loading a program, \<^verbatim>\<open>kernel/exec.c\<close>: the check of the ELF header, the loading of the segments
  into a new page table, and the \<^verbatim>\<open>exec\<close> system call on the current task. The file is read from
  memory at the offsets of the ELF structures.
\<close>

section \<open>ELF structures\<close>

datatype ehdr_half = EType | EMachine | EEhsize | EPhentsize | EPhnum | EShentsize | EShnum | EShstrndx
datatype ehdr_word = EEntry | EPhoff | EShoff
datatype phdr_word = POffset | PVaddr | PPaddr | PFilesz | PMemsz | PAlign

fun ehdr_half_off :: "ehdr_half \<Rightarrow> u64" where
  "ehdr_half_off EType = 16"
| "ehdr_half_off EMachine = 18"
| "ehdr_half_off EEhsize = 52"
| "ehdr_half_off EPhentsize = 54"
| "ehdr_half_off EPhnum = 56"
| "ehdr_half_off EShentsize = 58"
| "ehdr_half_off EShnum = 60"
| "ehdr_half_off EShstrndx = 62"

fun ehdr_word_off :: "ehdr_word \<Rightarrow> u64" where
  "ehdr_word_off EEntry = 24"
| "ehdr_word_off EPhoff = 32"
| "ehdr_word_off EShoff = 40"

fun phdr_word_off :: "phdr_word \<Rightarrow> u64" where
  "phdr_word_off POffset = 8"
| "phdr_word_off PVaddr = 16"
| "phdr_word_off PPaddr = 24"
| "phdr_word_off PFilesz = 32"
| "phdr_word_off PMemsz = 40"
| "phdr_word_off PAlign = 48"

abbreviation sizeof_ehdr :: u64 where "sizeof_ehdr \<equiv> 64"

definition ehalf :: "memory \<Rightarrow> ptr \<Rightarrow> ehdr_half \<Rightarrow> u16" where
  "ehalf m e f = load16 m (e + ehdr_half_off f)"

definition eword :: "memory \<Rightarrow> ptr \<Rightarrow> ehdr_word \<Rightarrow> u64" where
  "eword m e f = load64 m (e + ehdr_word_off f)"

definition e_ident :: "memory \<Rightarrow> ptr \<Rightarrow> u64 \<Rightarrow> u8" where "e_ident m e i = m (e + i)"
definition e_version :: "memory \<Rightarrow> ptr \<Rightarrow> u32" where "e_version m e = load32 m (e + 20)"
definition e_flags :: "memory \<Rightarrow> ptr \<Rightarrow> u32" where "e_flags m e = load32 m (e + 48)"

definition pword :: "memory \<Rightarrow> ptr \<Rightarrow> phdr_word \<Rightarrow> u64" where
  "pword m p f = load64 m (p + phdr_word_off f)"

definition p_type :: "memory \<Rightarrow> ptr \<Rightarrow> u32" where "p_type m p = load32 m p"
definition p_flags :: "memory \<Rightarrow> ptr \<Rightarrow> u32" where "p_flags m p = load32 m (p + 4)"

definition ET_EXEC :: u16 where "ET_EXEC = 2"
definition EM_RISCV :: u16 where "EM_RISCV = 243"
definition PT_LOAD :: u32 where "PT_LOAD = 1"
definition PF_X :: u32 where "PF_X = 1"
definition PF_W :: u32 where "PF_W = 2"
definition PF_R :: u32 where "PF_R = 4"

section \<open>Operations\<close>

definition elf_verify :: "memory \<Rightarrow> ptr \<Rightarrow> u64 \<Rightarrow> int" where
  "elf_verify m ehdr sz =
     (if sz < sizeof_ehdr then - 1
      else if e_ident m ehdr 0 \<noteq> 0x7f \<or> e_ident m ehdr 1 \<noteq> ch CHR ''E''
              \<or> e_ident m ehdr 2 \<noteq> ch CHR ''L'' \<or> e_ident m ehdr 3 \<noteq> ch CHR ''F'' then - 1
      else if ehalf m ehdr EType \<noteq> ET_EXEC then - 1
      else if ehalf m ehdr EMachine \<noteq> EM_RISCV then - 1
      else 0)"

text \<open>What the loop over the pages of a segment copies into the page at \<open>page_va\<close>: page \<open>j\<close>.\<close>

definition seg_copy :: "ptr \<Rightarrow> ptr \<Rightarrow> u64 \<Rightarrow> u64 \<Rightarrow> u64 \<Rightarrow> u64 \<Rightarrow> ptr \<Rightarrow> memory \<Rightarrow> memory" where
  "seg_copy elf_data phdr file_off mem_off page_va j page m =
     (let vaddr = pword m phdr PVaddr; filesz = pword m phdr PFilesz
      in if page_va + PAGE_SIZE > vaddr \<and> page_va < vaddr + filesz
         then let seg_off = (if page_va > vaddr then page_va - vaddr else 0);
                  seg_end = (if page_va + PAGE_SIZE < vaddr + filesz then PAGE_SIZE
                             else vaddr + filesz - page_va);
                  copy_start = (if j = 0 then mem_off else 0);
                  copy_end = seg_end
              in if copy_end > copy_start
                 then mem_copy (page + copy_start) (elf_data + file_off + seg_off) (copy_end - copy_start) m
                 else m
         else m)"

definition seg_flags :: "u32 \<Rightarrow> u64" where
  "seg_flags pf =
     (let flags = PAGE_USER;
          flags = (if pf AND PF_W \<noteq> 0 then flags OR PAGE_WRITE else flags)
      in if pf AND PF_X \<noteq> 0 then flags OR PAGE_EXEC else flags)"

text \<open>The pages of one segment; false is the \<open>return 0\<close> of the C function.\<close>

partial_function (option) seg_loop ::
  "ptr \<Rightarrow> ptr \<Rightarrow> ptr \<Rightarrow> u64 \<Rightarrow> u64 \<Rightarrow> u64 \<Rightarrow> u64 \<Rightarrow> u64 \<Rightarrow> 'a page_state_scheme
    \<Rightarrow> (bool \<times> 'a page_state_scheme) option" where
  "seg_loop pagetable elf_data phdr va_start nr_pages file_off mem_off j s =
     (if j < nr_pages
      then let (page, s) = page_alloc s
           in if page = 0
              then do { s \<leftarrow> printk ''exec: out of memory\<newline>'' [] s; Some (False, s) }
              else do {
                let page_va = va_start + j * PAGE_SIZE;
                let m = seg_copy elf_data phdr file_off mem_off page_va j page (mem_zero page PAGE_SIZE (mem s));
                (rc, s) \<leftarrow> pgtable_map pagetable page_va page PAGE_SIZE (seg_flags (p_flags m phdr)) (s\<lparr>mem := m\<rparr>);
                if rc \<noteq> 0
                then do { s \<leftarrow> page_free page s; s \<leftarrow> printk ''exec: map failed\<newline>'' [] s; Some (False, s) }
                else seg_loop pagetable elf_data phdr va_start nr_pages file_off mem_off (j + 1) s }
      else Some (True, s))"

text \<open>
  The loop over the program headers. The offset \<open>i * e_phentsize\<close> is an \<open>int\<close>, sign-extended
  when it is added to the pointer.
\<close>

partial_function (option) phdr_loop ::
  "ptr \<Rightarrow> ptr \<Rightarrow> u32 \<Rightarrow> 'a page_state_scheme \<Rightarrow> (bool \<times> 'a page_state_scheme) option" where
  "phdr_loop pagetable elf_data i s =
     (if i <s ucast (ehalf (mem s) elf_data EPhnum)
      then do {
        let phdr = elf_data + eword (mem s) elf_data EPhoff
                     + scast (i * ucast (ehalf (mem s) elf_data EPhentsize));
        if p_type (mem s) phdr \<noteq> PT_LOAD then phdr_loop pagetable elf_data (i + 1) s
        else do {
          let vaddr = pword (mem s) phdr PVaddr;
          let va_start = align_down vaddr PAGE_SIZE;
          let va_end = align_up (vaddr + pword (mem s) phdr PMemsz) PAGE_SIZE;
          let nr_pages = (va_end - va_start) div PAGE_SIZE;
          (ok, s) \<leftarrow> seg_loop pagetable elf_data phdr va_start nr_pages (pword (mem s) phdr POffset)
                       (vaddr - va_start) 0 s;
          if \<not> ok then Some (False, s) else phdr_loop pagetable elf_data (i + 1) s } }
      else Some (True, s))"

definition elf_load :: "ptr \<Rightarrow> ptr \<Rightarrow> u64 \<Rightarrow> 'a page_state_scheme \<Rightarrow> (u64 \<times> 'a page_state_scheme) option" where
  "elf_load pagetable elf_data elf_size s =
     do { let entry = eword (mem s) elf_data EEntry;
          (ok, s) \<leftarrow> phdr_loop pagetable elf_data 0 s;
          Some (if ok then entry else 0, s) }"

text \<open>
  The file name is a pointer of the user: the kernel reads it through the page table in
  \<^verbatim>\<open>satp\<close>, before and, for the last message, after it has switched to the new one.
\<close>

definition sys_exec :: "u64 \<Rightarrow> ptr \<Rightarrow> 'a initrd_state_scheme \<Rightarrow> (int \<times> 'a initrd_state_scheme) option" where
  "sys_exec filename tf s =
     do { (elf_data, elf_size) \<leftarrow> initrd_find (vload8 s) filename s;
          if elf_data = 0
          then do { name \<leftarrow> cstring (vload8 s) filename;
                    s \<leftarrow> printk ''exec: file '%s' not found\<newline>'' [AStr (Some name)] s;
                    Some (- 1, s) }
          else if elf_verify (mem s) elf_data (case elf_size of Some z \<Rightarrow> z | None \<Rightarrow> 0) \<noteq> 0
          then do { s \<leftarrow> printk ''exec: invalid ELF file\<newline>'' [] s; Some (- 1, s) }
          else do {
            let (new_pagetable, s) = pgtable_create s;
            if new_pagetable = 0
            then do { s \<leftarrow> printk ''exec: out of memory\<newline>'' [] s; Some (- 1, s) }
            else do {
              (rc, s) \<leftarrow> vm_map_kernel new_pagetable s;
              if rc \<noteq> 0
              then do { s \<leftarrow> pgtable_free_walk new_pagetable s;
                        s \<leftarrow> printk ''exec: kernel map failed\<newline>'' [] s;
                        Some (- 1, s) }
              else do {
                (entry, s) \<leftarrow> elf_load new_pagetable elf_data (case elf_size of Some z \<Rightarrow> z | None \<Rightarrow> 0) s;
                if entry = 0
                then do { s \<leftarrow> pgtable_free_walk new_pagetable s; Some (- 1, s) }
                else do {
                  let (new_stack, s) = page_alloc s;
                  if new_stack = 0
                  then do { s \<leftarrow> pgtable_free_walk new_pagetable s;
                            s \<leftarrow> printk ''exec: out of memory\<newline>'' [] s;
                            Some (- 1, s) }
                  else do {
                    (rc, s) \<leftarrow> pgtable_map new_pagetable (USER_STACK_TOP - PAGE_SIZE) new_stack PAGE_SIZE
                                (PAGE_USER OR PAGE_WRITE) (s\<lparr>mem := mem_zero new_stack PAGE_SIZE (mem s)\<rparr>);
                    if rc \<noteq> 0
                    then do { s \<leftarrow> page_free new_stack s;
                              s \<leftarrow> pgtable_free_walk new_pagetable s;
                              s \<leftarrow> printk ''exec: stack map failed\<newline>'' [] s;
                              Some (- 1, s) }
                    else do {
                      let task = task_current s;
                      if task = 0
                      then do { s \<leftarrow> page_free new_stack s;
                                s \<leftarrow> pgtable_free_walk new_pagetable s;
                                Some (- 1, s) }
                      else do {
                        let m = tset task TPagetable new_pagetable (mem s);
                        let m = tset task TEntry entry m;
                        let m = tset task TUserSp USER_STACK_TOP m;
                        let m = tset task TUserImageSize 0 m;
                        let m = fset tf TfSepc entry m;
                        let m = fset tf TfSp USER_STACK_TOP m;
                        let m = fset tf TfA2 0 (fset tf TfA1 0 (fset tf TfA0 0 m));
                        s \<leftarrow> vm_switch new_pagetable (s\<lparr>mem := m\<rparr>);
                        name \<leftarrow> cstring (vload8 s) filename;
                        s \<leftarrow> printk ''exec: loaded '%s' entry=0x%lx\<newline>'' [AStr (Some name), ALong entry] s;
                        Some (0, s) } } } } } } } }"

end
