(* ===== verification/Panic.thy ===== *)
theory Panic
  imports Format
begin

text \<open>
  Panics, \<^verbatim>\<open>kernel/panic.c\<close>. A panic prints and then waits for interrupts in an endless loop,
  whose value is the least fixed point of its body: it is \<open>None\<close>, which is what \<open>kassert\<close> of the
  prelude gives a failed assertion.
\<close>

text \<open>The hart is resumed by any interrupt; nothing the kernel can see has changed.\<close>

definition cpu_wait_for_interrupt :: "'a machine_scheme \<Rightarrow> 'a machine_scheme" where
  "cpu_wait_for_interrupt s = s"

partial_function (option) wait_forever :: "'a machine_scheme \<Rightarrow> 'b option" where
  "wait_forever s = wait_forever (cpu_wait_for_interrupt s)"

definition panic_at :: "string \<Rightarrow> u32 \<Rightarrow> string \<Rightarrow> 'a machine_scheme \<Rightarrow> 'b option" where
  "panic_at file line msg s =
     do { s \<leftarrow> printk ''panic at %s:%d: %s\<newline>''
            [AStr (Some (map ch file)), AInt line, AStr (Some (map ch msg))] s;
          wait_forever s }"

definition panic :: "string \<Rightarrow> 'a machine_scheme \<Rightarrow> 'b option" where
  "panic msg s = panic_at ''?'' 0 msg s"

lemma wait_forever_None: "wait_forever s = (None :: 'b option)"
proof -
  have "False" if "wait_forever s = Some (r :: 'b)" for s :: "'a machine_scheme" and r
    using that by (rule wait_forever.raw_induct [rotated]) blast
  then show ?thesis by (cases "wait_forever s :: 'b option") auto
qed

lemma panic_None [simp]: "panic msg s = None"
  by (simp add: panic_def panic_at_def wait_forever_None bind_eq_None_conv)

end
