(* ===== verification/Syscall.thy ===== *)
theory Syscall
  imports Exec Panic
begin

text \<open>
  System calls, \<^verbatim>\<open>kernel/syscall.c\<close>: each handler, and the dispatch on the number in \<open>a7\<close> of the
  saved registers. A handler that gives the hart to another task returns that task's frame.
\<close>

definition SYS_write :: u64 where "SYS_write = 1"
definition SYS_exit :: u64 where "SYS_exit = 2"
definition SYS_read :: u64 where "SYS_read = 3"
definition SYS_yield :: u64 where "SYS_yield = 4"
definition SYS_getpid :: u64 where "SYS_getpid = 5"
definition SYS_fork :: u64 where "SYS_fork = 6"
definition SYS_ps :: u64 where "SYS_ps = 7"
definition SYS_exec :: u64 where "SYS_exec = 8"

lemmas SYS_defs = SYS_write_def SYS_exit_def SYS_read_def SYS_yield_def SYS_getpid_def SYS_fork_def
  SYS_ps_def SYS_exec_def

section \<open>Handlers\<close>

function write_loop :: "u64 \<Rightarrow> u64 \<Rightarrow> u64 \<Rightarrow> 'a machine_scheme \<Rightarrow> 'a machine_scheme option" where
  "write_loop buf len i s =
     (if i < len then do { c \<leftarrow> vload8 s (buf + i); write_loop buf len (i + 1) (uart_putc c s) }
      else Some s)"
  by pat_completeness auto
termination
  by (relation "measure (\<lambda>(buf, len, i, s). unat len - unat i)") (auto intro: word_plus_one_measure)

declare write_loop.simps [simp del]

definition sys_write :: "u64 \<Rightarrow> u64 \<Rightarrow> u64 \<Rightarrow> 'a machine_scheme \<Rightarrow> (u64 \<times> 'a machine_scheme) option" where
  "sys_write fd buf len s =
     (if fd \<noteq> 1 \<and> fd \<noteq> 2 then Some (- 1, s)
      else do { s \<leftarrow> write_loop buf len 0 s; Some (len, s) })"

text \<open>
  The loop of \<open>sys_read\<close>, up to its \<open>break\<close> or a full buffer; it waits for each byte of the
  terminal, and the line editing can take any number of them.
\<close>

partial_function (option) read_loop ::
  "u64 \<Rightarrow> u64 \<Rightarrow> u64 \<Rightarrow> 'a machine_scheme \<Rightarrow> (u64 \<times> 'a machine_scheme) option" where
  "read_loop buf len i s =
     (if i + 1 < len
      then do {
        (c, s) \<leftarrow> uart_getc s;
        let c = (if c = 13 then 10 else c);
        if c = 0x7f \<or> c = 8
        then if i > 0 then read_loop buf len (i - 1) (uart_puts [8, 32, 8] s)
             else read_loop buf len i s
        else do { let s = uart_putc c s;
                  if c = 10 then Some (i, s)
                  else do { s \<leftarrow> vstore8 (buf + i) c s; read_loop buf len (i + 1) s } } }
      else Some (i, s))"

definition sys_read :: "u64 \<Rightarrow> u64 \<Rightarrow> u64 \<Rightarrow> 'a machine_scheme \<Rightarrow> (u64 \<times> 'a machine_scheme) option" where
  "sys_read fd buf len s =
     (if fd \<noteq> 0 then Some (- 1, s)
      else if len = 0 then Some (0, s)
      else do { (i, s) \<leftarrow> read_loop buf len 0 s; s \<leftarrow> vstore8 (buf + i) 0 s; Some (i, s) })"

definition sys_exit :: "ptr \<Rightarrow> u64 \<Rightarrow> 'a task_state_scheme \<Rightarrow> (ptr \<times> 'a task_state_scheme) option" where
  "sys_exit tf code s =
     do { let task = task_current s;
          (nxt, s) \<leftarrow> task_exit_current tf code s;
          s \<leftarrow> printk ''\<newline>user exited with code %d\<newline>'' [AInt (ucast code)] s;
          s \<leftarrow> (if task \<noteq> 0 then printk ''task exit: pid=%lu\<newline>'' [ALong (tget (mem s) task TPid)] s
                else Some s);
          if nxt = 0 then panic ''sbi_shutdown returned'' (sbi_shutdown s) else Some (nxt, s) }"

definition sys_yield :: "ptr \<Rightarrow> 'a task_state_scheme \<Rightarrow> (ptr \<times> 'a task_state_scheme) option" where
  "sys_yield tf s = task_schedule tf (s\<lparr>mem := fset tf TfA0 0 (mem s)\<rparr>)"

definition sys_getpid :: "'a task_state_scheme \<Rightarrow> u64" where
  "sys_getpid s = (let task = task_current s in if task \<noteq> 0 then tget (mem s) task TPid else - 1)"

definition sys_fork :: "ptr \<Rightarrow> 'a task_state_scheme \<Rightarrow> (u64 \<times> 'a task_state_scheme) option" where
  "sys_fork tf s =
     do { (child, s) \<leftarrow> task_fork tf s;
          Some (if child = 0 then - 1 else fget (mem s) tf TfA0, s) }"

definition sys_ps :: "'a task_state_scheme \<Rightarrow> (u64 \<times> 'a task_state_scheme) option" where
  "sys_ps s = do { s \<leftarrow> task_list_all s; Some (0, s) }"

section \<open>Dispatch\<close>

text \<open>The return address after the \<^verbatim>\<open>ecall\<close>, and the result in \<open>a0\<close>.\<close>

definition skip_ecall :: "ptr \<Rightarrow> 'a machine_scheme \<Rightarrow> 'a machine_scheme" where
  "skip_ecall tf s = s\<lparr>mem := fset tf TfSepc (fget (mem s) tf TfSepc + 4) (mem s)\<rparr>"

definition set_a0 :: "ptr \<Rightarrow> u64 \<Rightarrow> 'a machine_scheme \<Rightarrow> 'a machine_scheme" where
  "set_a0 tf v s = s\<lparr>mem := fset tf TfA0 v (mem s)\<rparr>"

definition syscall_dispatch :: "ptr \<Rightarrow> 'a initrd_state_scheme \<Rightarrow> (ptr \<times> 'a initrd_state_scheme) option" where
  "syscall_dispatch tf s =
     (let n = fget (mem s) tf TfA7; a0 = fget (mem s) tf TfA0; a1 = fget (mem s) tf TfA1;
          a2 = fget (mem s) tf TfA2
      in if n = SYS_write
         then do { (r, s) \<leftarrow> sys_write a0 a1 a2 (skip_ecall tf s); Some (tf, set_a0 tf r s) }
         else if n = SYS_read
         then if \<not> uart_has_data s then task_schedule tf s
              else do { (r, s) \<leftarrow> sys_read a0 a1 a2 (skip_ecall tf s); Some (tf, set_a0 tf r s) }
         else if n = SYS_exit then sys_exit tf a0 (skip_ecall tf s)
         else if n = SYS_yield then sys_yield tf (skip_ecall tf s)
         else if n = SYS_getpid
         then let s = skip_ecall tf s in Some (tf, set_a0 tf (sys_getpid s) s)
         else if n = SYS_fork
         then do { (r, s) \<leftarrow> sys_fork tf (skip_ecall tf s); Some (tf, set_a0 tf r s) }
         else if n = SYS_ps
         then do { (r, s) \<leftarrow> sys_ps (skip_ecall tf s); Some (tf, set_a0 tf r s) }
         else if n = SYS_exec
         then do { (r, s) \<leftarrow> sys_exec a0 tf (skip_ecall tf s); Some (tf, set_a0 tf (of_int r) s) }
         else do { s \<leftarrow> printk ''unknown syscall: %lu\<newline>'' [ALong n] s; panic ''unknown syscall'' s })"

end
