(* ===== verification/Trap.thy ===== *)
theory Trap
  imports Syscall
begin

text \<open>
  Traps and the timer, \<^verbatim>\<open>kernel/trap.c\<close> and \<^verbatim>\<open>kernel/timer.c\<close>. The assembly entry saves the
  registers of the interrupted program in a frame on its kernel stack and restores the frame the
  handler returns.
\<close>

record trap_state = initrd_state +
  ticks :: u64
  trap_entry :: ptr

definition TIMER_INTERVAL :: u64 where "TIMER_INTERVAL = 1000000"

definition timer_set_next :: "'a machine_scheme \<Rightarrow> 'a machine_scheme" where
  "timer_set_next s = sbi_set_timer (csr_read_time s + TIMER_INTERVAL) s"

definition timer_init :: "'a trap_state_scheme \<Rightarrow> 'a trap_state_scheme option" where
  "timer_init s =
     (let s = timer_set_next (s\<lparr>ticks := 0\<rparr>);
          s = csr_write_sie (csr_read_sie s OR SIE_STIE) s
      in printk ''timer interrupt enabled, interval=%lu\<newline>'' [ALong TIMER_INTERVAL] s)"

definition timer_tick :: "'a trap_state_scheme \<Rightarrow> 'a trap_state_scheme" where
  "timer_tick s = timer_set_next (s\<lparr>ticks := ticks s + 1\<rparr>)"

definition trap_init :: "'a trap_state_scheme \<Rightarrow> 'a trap_state_scheme option" where
  "trap_init s =
     (let s = csr_write_stvec (trap_entry s) s
      in printk ''s-mode trap entry = %p\<newline>'' [APtr (trap_entry s)] s)"

definition trap_handler :: "ptr \<Rightarrow> 'a trap_state_scheme \<Rightarrow> (ptr \<times> 'a trap_state_scheme) option" where
  "trap_handler tf s =
     (let scause = csr_read_scause s; stval = csr_read_stval s
      in if scause = SCAUSE_USER_ECALL then syscall_dispatch tf s
         else if scause = (SCAUSE_INTERRUPT OR SCAUSE_SUPERVISOR_TIMER)
         then task_schedule tf (timer_tick s)
         else do { s \<leftarrow> printk ''\<newline>trap:\<newline>'' [] s;
                   s \<leftarrow> printk ''  scause = 0x%lx\<newline>'' [ALong scause] s;
                   s \<leftarrow> printk ''  sepc   = 0x%lx\<newline>'' [ALong (fget (mem s) tf TfSepc)] s;
                   s \<leftarrow> printk ''  stval  = 0x%lx\<newline>'' [ALong stval] s;
                   s \<leftarrow> printk ''  a0     = 0x%lx\<newline>'' [ALong (fget (mem s) tf TfA0)] s;
                   s \<leftarrow> printk ''  a7     = 0x%lx\<newline>'' [ALong (fget (mem s) tf TfA7)] s;
                   s \<leftarrow> printk ''  sp     = 0x%lx\<newline>'' [ALong (fget (mem s) tf TfSp)] s;
                   panic ''unhandled trap'' s })"

end
