(* ===== verification/Boot.thy ===== *)
theory Boot
  imports Trap
begin

text \<open>
  Booting, \<^verbatim>\<open>kernel/main.c\<close> and \<^verbatim>\<open>kernel/user.c\<close>, with the self-tests the kernel runs on the way:
  \<^verbatim>\<open>list_test.c\<close>, \<^verbatim>\<open>page_test.c\<close> and the tests at the end of \<^verbatim>\<open>kmalloc.c\<close> and \<^verbatim>\<open>pgtable.c\<close>. A test
  that fails is a panic. Symbols of the linker are fields of the state; locals whose address a
  test takes are parameters. Booting ends in the assembly routine \<^verbatim>\<open>enter_user\<close>, whose arguments
  are the result here.
\<close>

record kernel_state = trap_state +
  user_start :: ptr
  user_end :: ptr
  user_main_addr :: ptr
  user_demo_addr :: ptr
  rootfs_start :: ptr
  rootfs_end :: ptr
  kernel_main_addr :: ptr

section \<open>Self-tests\<close>

text \<open>\<open>struct list_test_node\<close> has its value at offset 0 and its link at offset 8.\<close>

abbreviation link_off :: u64 where "link_off \<equiv> 8"

partial_function (option) sum_entries :: "memory \<Rightarrow> ptr \<Rightarrow> ptr \<Rightarrow> u32 \<Rightarrow> u32 option" where
  "sum_entries m head node acc =
     (if node + link_off = head then Some acc
      else sum_entries m head (list_entry (lnext m (node + link_off)) link_off) (acc + load32 m node))"

definition list_test :: "ptr \<Rightarrow> ptr \<Rightarrow> ptr \<Rightarrow> ptr \<Rightarrow> 'a machine_scheme \<Rightarrow> 'a machine_scheme option" where
  "list_test test_list a b c s =
     do { let m = INIT_LIST_HEAD test_list (mem s);
          let m = store32 a 1 (store64 (a + 8) 0 (store64 (a + 16) 0 m));
          let m = store32 b 2 (store64 (b + 8) 0 (store64 (b + 16) 0 m));
          let m = store32 c 3 (store64 (c + 8) 0 (store64 (c + 16) 0 m));
          let m = INIT_LIST_HEAD (a + link_off) m;
          let m = INIT_LIST_HEAD (b + link_off) m;
          let m = INIT_LIST_HEAD (c + link_off) m;
          kassert (list_empty m test_list);
          let m = list_add_tail (a + link_off) test_list m;
          let m = list_add_tail (b + link_off) test_list m;
          let m = list_add_tail (c + link_off) test_list m;
          kassert (\<not> list_empty m test_list);
          kassert (list_first_entry m test_list link_off = a);
          acc \<leftarrow> sum_entries m test_list (list_entry (lnext m test_list) link_off) 0;
          kassert (acc = 6);
          let m = list_del (b + link_off) m;
          acc \<leftarrow> sum_entries m test_list (list_entry (lnext m test_list) link_off) 0;
          kassert (acc = 4);
          printk ''list test passed\<newline>'' [] (s\<lparr>mem := m\<rparr>) }"

definition page_test :: "'a page_state_scheme \<Rightarrow> 'a page_state_scheme option" where
  "page_test s =
     do { let before = page_free_count s;
          let (a, s) = page_alloc s;
          let (b, s) = page_alloc s;
          kassert (before \<ge> 2);
          kassert (a \<noteq> 0);
          kassert (b \<noteq> 0);
          kassert (a \<noteq> b);
          kassert (page_free_count s = before - 2);
          kassert (page_used_count s = 2);
          s \<leftarrow> page_free a s;
          s \<leftarrow> page_free b s;
          kassert (page_free_count s = before);
          kassert (page_used_count s = 0);
          printk ''page test passed\<newline>'' [] s }"

definition kmalloc_test :: "'a heap_state_scheme \<Rightarrow> 'a heap_state_scheme option" where
  "kmalloc_test s =
     do { (a, s) \<leftarrow> kmalloc 24 s;
          (b, s) \<leftarrow> kmalloc 128 s;
          (c, s) \<leftarrow> kmalloc 512 s;
          kassert (a \<noteq> 0);
          kassert (b \<noteq> 0);
          kassert (c \<noteq> 0);
          kassert (a AND (KMALLOC_ALIGN - 1) = 0);
          kassert (b AND (KMALLOC_ALIGN - 1) = 0);
          kassert (c AND (KMALLOC_ALIGN - 1) = 0);
          s \<leftarrow> kfree b s;
          (d, s) \<leftarrow> kmalloc 64 s;
          kassert (d = b);
          s \<leftarrow> kfree a s;
          s \<leftarrow> kfree c s;
          s \<leftarrow> kfree d s;
          (e, s) \<leftarrow> kmalloc 600 s;
          kassert (e \<noteq> 0);
          s \<leftarrow> kfree e s;
          printk ''kmalloc test passed\<newline>'' [] s }"

definition pgtable_test :: "'a page_state_scheme \<Rightarrow> 'a page_state_scheme option" where
  "pgtable_test s =
     do { let (root, s) = pgtable_create s;
          let (page, s) = page_alloc s;
          let va = 0x400000;
          kassert (root \<noteq> 0);
          kassert (page \<noteq> 0);
          (rc, s) \<leftarrow> pgtable_map root va page PAGE_SIZE PAGE_USER s;
          kassert (rc = 0);
          (pte, s) \<leftarrow> pgtable_walk root va False s;
          kassert (pte \<noteq> 0);
          kassert (pte_present (load64 (mem s) pte));
          kassert (pte_leaf (load64 (mem s) pte));
          kassert (pte_to_pa (load64 (mem s) pte) = page);
          kassert (pte_flags (load64 (mem s) pte) AND PTE_U \<noteq> 0);
          s \<leftarrow> pgtable_unmap root va PAGE_SIZE s;
          (pte, s) \<leftarrow> pgtable_walk root va False s;
          kassert (pte_none (load64 (mem s) pte));
          s \<leftarrow> page_free page s;
          s \<leftarrow> pgtable_free_walk root s;
          printk ''pgtable test passed\<newline>'' [] s }"

definition task_create_user_test :: "'a kernel_state_scheme \<Rightarrow> 'a kernel_state_scheme option" where
  "task_create_user_test s =
     do { let entry_offset = user_main_addr s - user_start s;
          (task, s) \<leftarrow> task_create_user (user_start s) (user_end s) (user_main_addr s) s;
          kassert (task \<noteq> 0);
          kassert (tstate (mem s) task = TASK_READY);
          kassert (tget (mem s) task TEntry = USER_TEXT_BASE + entry_offset);
          kassert (tget (mem s) task TUserSp = USER_STACK_TOP);
          kassert (tget (mem s) task TPagetable \<noteq> 0);
          (entry_pte, s) \<leftarrow> pgtable_walk (tget (mem s) task TPagetable) (tget (mem s) task TEntry) False s;
          kassert (entry_pte \<noteq> 0);
          kassert (pte_present (load64 (mem s) entry_pte));
          kassert (pte_leaf (load64 (mem s) entry_pte));
          kassert (pte_flags (load64 (mem s) entry_pte) AND PTE_U \<noteq> 0);
          kassert (pte_flags (load64 (mem s) entry_pte) AND PTE_X \<noteq> 0);
          (stack_pte, s) \<leftarrow> pgtable_walk (tget (mem s) task TPagetable) (USER_STACK_TOP - PAGE_SIZE) False s;
          kassert (stack_pte \<noteq> 0);
          kassert (pte_present (load64 (mem s) stack_pte));
          kassert (pte_leaf (load64 (mem s) stack_pte));
          kassert (pte_flags (load64 (mem s) stack_pte) AND PTE_U \<noteq> 0);
          kassert (pte_flags (load64 (mem s) stack_pte) AND PTE_W \<noteq> 0);
          s \<leftarrow> task_destroy task s;
          printk ''task_create_user test passed\<newline>'' [] s }"

section \<open>Entering user mode\<close>

text \<open>The result is the arguments of \<^verbatim>\<open>enter_user\<close>: stack, entry point, kernel stack.\<close>

definition user_init :: "'a kernel_state_scheme \<Rightarrow> ((u64 \<times> u64 \<times> u64) \<times> 'a kernel_state_scheme) option" where
  "user_init s =
     do { (init, s) \<leftarrow> task_create_user (user_start s) (user_end s) (user_main_addr s) s;
          (demo, s) \<leftarrow> task_create_user (user_start s) (user_end s) (user_demo_addr s) s;
          kassert (init \<noteq> 0);
          kassert (demo \<noteq> 0);
          s \<leftarrow> task_set_current init s;
          s \<leftarrow> task_dump_run_queue s;
          s \<leftarrow> printk ''entering user mode: pid=%lu\<newline>'' [ALong (tget (mem s) init TPid)] s;
          Some ((tget (mem s) init TUserSp, tget (mem s) init TEntry, tget (mem s) init TKernelSp), s) }"

definition kernel_main ::
  "ptr \<Rightarrow> ptr \<Rightarrow> ptr \<Rightarrow> ptr \<Rightarrow> 'a kernel_state_scheme \<Rightarrow> ((u64 \<times> u64 \<times> u64) \<times> 'a kernel_state_scheme) option" where
  "kernel_main test_list a b c s =
     do { s \<leftarrow> trap_init s;
          s \<leftarrow> printk ''Hello, RISC-V OS!\<newline>'' [] s;
          s \<leftarrow> printk ''QEMU virt machine booted this kernel through OpenSBI.\<newline>'' [] s;
          s \<leftarrow> printk ''kernel_main = %p\<newline>'' [APtr (kernel_main_addr s)] s;
          s \<leftarrow> printk ''printk test: char=%c string=%s dec=%d hex=0x%x percent=%%\<newline>''
                 [AInt (ucast (ch CHR ''A'')), AStr (Some (map ch ''ok'')), AInt (- 12345), AInt 0x2a] s;
          kassert ((1::int) + 1 = 2);
          s \<leftarrow> list_test test_list a b c s;
          s \<leftarrow> page_init s;
          s \<leftarrow> page_test s;
          s \<leftarrow> kmalloc_test s;
          s \<leftarrow> pgtable_test s;
          s \<leftarrow> vm_init s;
          s \<leftarrow> task_create_user_test s;
          let initrd_start = rootfs_start s;
          let initrd_size = rootfs_end s - initrd_start;
          s \<leftarrow> printk ''initrd: embedded at 0x%lx size=0x%lx\<newline>'' [ALong initrd_start, ALong initrd_size] s;
          s \<leftarrow> (if initrd_size > 0 then initrd_init initrd_start initrd_size s
                else printk ''initrd: not found\<newline>'' [] s);
          s \<leftarrow> timer_init s;
          user_init s }"

end
