(* ===== verification/Task_Spec.thy ===== *)
theory Task_Spec
  imports Boot
begin

text \<open>
  The scheduler's choice (src/kernel/task.c:369-409): what reading and writing the fields of a task
  leaves unchanged, and \<open>task_pick_next\<close> against its specification, the first runnable
  task after the current one round the run queue.
\<close>

definition tsep :: "ptr \<Rightarrow> ptr \<Rightarrow> bool" where
  "tsep t u \<longleftrightarrow> t = u \<or> sep t 128 u 128"

lemma tsep_refl [simp]: "tsep t t"
  by (simp add: tsep_def)

lemma tsep_sym: "tsep t u \<Longrightarrow> tsep u t"
  by (auto simp: tsep_def sep_sym)

text \<open>Two parts of task structures: within one structure the offsets decide.\<close>

lemma part_sep:
  assumes "tsep t u" "t = u \<Longrightarrow> sep i n j k" "i \<le> 128" "n \<le> 128 - i" "0 < n" "j \<le> 128" "k \<le> 128 - j" "0 < k"
  shows "sep (t + i) n (u + j) k"
proof (cases "t = u")
  case True
  then show ?thesis using assms(2) by (auto simp: sep_def)
next
  case False
  then show ?thesis using assms by (auto simp: tsep_def intro!: sep_off [of t 128 u 128])
qed

lemma task_off_inj [simp]: "task_off f = task_off g \<longleftrightarrow> f = g"
  by (cases f; cases g) simp_all

lemma task_off_sep: "f \<noteq> g \<Longrightarrow> sep (task_off f) 8 (task_off g) 8"
  by (cases f; cases g) (simp_all add: sep_def)

lemma task_off_state: "sep (task_off f) 8 8 4" "sep 8 4 (task_off f) 8"
  by (cases f; simp add: sep_def)+

lemma task_off_bounds: "task_off f \<le> 128" "8 \<le> 128 - task_off f" "task_off f \<le> 96" "8 \<le> 96 - task_off f"
  by (cases f; simp)+

lemma task_fields [simp]:
  assumes "tsep t u"
  shows "tget (tset t f v m) u g = (if t = u \<and> f = g then v else tget m u g)"
    and "tget (set_tstate t x m) u g = tget m u g"
    and "tstate (set_tstate t x m) u = (if t = u then x else tstate m u)"
    and "tstate (tset t f v m) u = tstate m u"
proof -
  note b = task_off_bounds
  have "load64 (store64 (t + task_off f) v m) (u + task_off g) = load64 m (u + task_off g)" if "t = u \<longrightarrow> f \<noteq> g"
    by (rule load64_store64_sep, rule part_sep [OF assms]) (use that task_off_sep b in auto)
  then show "tget (tset t f v m) u g = (if t = u \<and> f = g then v else tget m u g)"
    by (auto simp: tget_def tset_def)
  show "tget (set_tstate t x m) u g = tget m u g"
    unfolding tget_def set_tstate_def
    by (rule load64_store32_sep, rule part_sep [OF assms]) (use task_off_state b in auto)
  have "load32 (store32 (t + 8) x m) (u + 8) = load32 m (u + 8)" if "t \<noteq> u"
    by (rule load32_store32_sep, rule part_sep [OF assms]) (use that in auto)
  then show "tstate (set_tstate t x m) u = (if t = u then x else tstate m u)"
    by (auto simp: tstate_def set_tstate_def)
  show "tstate (tset t f v m) u = tstate m u"
    unfolding tstate_def tset_def
    by (rule load32_store64_sep, rule part_sep [OF assms]) (use task_off_state b in auto)
qed

lemma task_field_changes [frame_intros]:
  "region t 96 \<subseteq> S \<Longrightarrow> only_changes S m m' \<Longrightarrow> only_changes S m (tset t f v m')"
  "region t 96 \<subseteq> S \<Longrightarrow> only_changes S m m' \<Longrightarrow> only_changes S m (set_tstate t x m')"
proof -
  have "region (t + task_off f) 8 \<subseteq> region t 96" by (rule region_offset_subset) (rule task_off_bounds)+
  moreover have "region (t + 8) 4 \<subseteq> region t 96" by (rule region_offset_subset) simp_all
  ultimately show "region t 96 \<subseteq> S \<Longrightarrow> only_changes S m m' \<Longrightarrow> only_changes S m (tset t f v m')"
    "region t 96 \<subseteq> S \<Longrightarrow> only_changes S m m' \<Longrightarrow> only_changes S m (set_tstate t x m')"
    unfolding tset_def set_tstate_def by (auto intro!: only_changes_store64 only_changes_store32)
qed

lemma task_field_cong:
  assumes "\<And>x. x \<in> region t 96 \<Longrightarrow> m' x = m x"
  shows "tget m' t f = tget m t f" "tstate m' t = tstate m t"
proof -
  have "region (t + task_off f) 8 \<subseteq> region t 96" by (rule region_offset_subset) (rule task_off_bounds)+
  moreover have "region (t + 8) 4 \<subseteq> region t 96" by (rule region_offset_subset) simp_all
  ultimately show "tget m' t f = tget m t f" "tstate m' t = tstate m t"
    unfolding tget_def tstate_def using assms by (auto intro!: load64_cong load32_cong)
qed

section \<open>The scan\<close>

definition runnable :: "memory \<Rightarrow> ptr \<Rightarrow> bool" where
  "runnable m t \<longleftrightarrow> tstate m t = TASK_READY \<or> tstate m t = TASK_RUNNING"

text \<open>The queue from the task after \<open>c\<close> on, round to \<open>c\<close> itself; all of it when no task runs.\<close>

definition rotation :: "ptr \<Rightarrow> ptr list \<Rightarrow> ptr list" where
  "rotation c ts =
     (if c \<in> set ts then tl (dropWhile (\<lambda>t. t \<noteq> c) ts) @ takeWhile (\<lambda>t. t \<noteq> c) ts @ [c] else ts)"

definition pick_spec :: "memory \<Rightarrow> ptr \<Rightarrow> ptr list \<Rightarrow> ptr" where
  "pick_spec m c ts = (case find (runnable m) (rotation c ts) of None \<Rightarrow> 0 | Some t \<Rightarrow> t)"

lemma rotation_split: "c \<notin> set xs \<Longrightarrow> rotation c (xs @ c # ys) = ys @ xs @ [c]"
  by (simp add: rotation_def dropWhile_append takeWhile_append)

lemma list_entry_run [simp]: "list_entry (run_node t) run_node_off = t"
  by (simp add: list_entry_def run_node_def)

lemma list_entry_task [simp]: "list_entry (task_node t) task_node_off = t"
  by (simp add: list_entry_def task_node_def)

text \<open>\<open>leads m q pos t\<close>: the scan at \<open>pos\<close> looks at \<open>t\<close>, after skipping the head.\<close>

definition leads :: "memory \<Rightarrow> ptr \<Rightarrow> ptr \<Rightarrow> ptr \<Rightarrow> bool" where
  "leads m q pos t \<longleftrightarrow> (if pos = q then lnext m q else pos) = run_node t"

fun scan_path :: "memory \<Rightarrow> ptr \<Rightarrow> ptr \<Rightarrow> ptr list \<Rightarrow> bool" where
  "scan_path m q pos [] \<longleftrightarrow> True"
| "scan_path m q pos (t # ts) \<longleftrightarrow> leads m q pos t \<and> scan_path m q (lnext m (run_node t)) ts"

lemma pick_loop_scan:
  "scan_path m q pos ts \<Longrightarrow> unat nr - unat k = length ts \<Longrightarrow>
   pick_loop m q nr pos k = (case find (runnable m) ts of None \<Rightarrow> 0 | Some t \<Rightarrow> t)"
proof (induction ts arbitrary: pos k)
  case Nil
  then show ?case by (simp add: pick_loop.simps [of m q nr pos k] word_less_nat_alt)
next
  case (Cons t ts)
  then have k: "k < nr" by (simp add: word_less_nat_alt)
  have p: "(if pos = q then lnext m q else pos) = run_node t" using Cons.prems(1) by (simp add: leads_def)
  have "unat nr - unat (k + 1) = length ts" using Cons.prems(2) unat_plus_one [OF k] by simp
  then have "pick_loop m q nr (lnext m (run_node t)) (k + 1) = (case find (runnable m) ts of None \<Rightarrow> 0 | Some t \<Rightarrow> t)"
    using Cons by simp
  then show ?case
    by (simp add: pick_loop.simps [of m q nr pos k] k Let_def p flip: runnable_def)
qed

lemma scan_path_append:
  "scan_path m q pos (xs @ ys) \<longleftrightarrow> scan_path m q pos xs \<and>
     scan_path m q (if xs = [] then pos else lnext m (run_node (last xs))) ys"
  by (induction xs arbitrary: pos) auto

lemma scan_path_dlist:
  assumes "dlist m q (map run_node (xs @ ys))"
  shows "scan_path m q (hd (map run_node ys @ [q])) ys"
    and "ys \<noteq> [] \<Longrightarrow> lnext m (run_node (last ys)) = q"
proof -
  show "scan_path m q (hd (map run_node ys @ [q])) ys" using assms
  proof (induction ys arbitrary: xs)
    case (Cons y ys)
    have d: "dlist m q (map run_node xs @ run_node y # map run_node ys)" using Cons.prems by simp
    obtain bs p r cs where e: "q # map run_node xs = bs @ [p]" "map run_node ys @ [q] = r # cs" "r = hd (map run_node ys @ [q])"
      by (rule obtain_ends)
    have "lnext m (run_node y) = r"
      using dlist_split(3) [OF d e(1), of "run_node y" "r # cs"] e(2) by simp
    moreover have "run_node y \<noteq> q" using dlist_distinct [OF d] by auto
    moreover have "scan_path m q (hd (map run_node ys @ [q])) ys"
      using Cons.IH [of "xs @ [y]"] Cons.prems by simp
    ultimately show ?case by (simp add: leads_def e(3))
  qed simp
  assume "ys \<noteq> []"
  then obtain zs z where z: "ys = zs @ [z]" by (metis append_butlast_last_id)
  have d: "dlist m q (map run_node (xs @ zs) @ run_node z # [])" using assms z by simp
  obtain bs p where e: "q # map run_node (xs @ zs) = bs @ [p]" by (metis append_butlast_last_id list.discI)
  show "lnext m (run_node (last ys)) = q" using dlist_split(3) [OF d e, of "run_node z" "[q]"] z by simp
qed

lemma task_pick_next_scan:
  assumes d: "dlist (mem s) (run_queue s) (map run_node ts)" and n: "unat (nr_runnable s) = length ts"
    and c: "current s = 0 \<and> 0 \<notin> set ts \<or> current s \<noteq> 0 \<and> current s \<in> set ts"
  shows "task_pick_next s = pick_spec (mem s) (current s) ts"
proof (cases "ts = []")
  case True
  then show ?thesis using list_empty_dlist [OF d] by (simp add: task_pick_next_def pick_spec_def rotation_def)
next
  case False
  have ne: "\<not> (list_empty (mem s) (run_queue s) \<or> nr_runnable s = 0)"
    using list_empty_dlist [OF d] False n by (auto simp: unat_eq_zero)
  have nh: "lnext (mem s) (run_queue s) = hd (map run_node ts @ [run_queue s])" by (rule dlist_next_head [OF d])
  define pos where "pos = (if current s \<noteq> 0 then lnext (mem s) (run_node (current s)) else lnext (mem s) (run_queue s))"
  have "scan_path (mem s) (run_queue s) pos (rotation (current s) ts) \<and> length (rotation (current s) ts) = length ts"
  proof (cases "current s = 0")
    case True
    then show ?thesis using scan_path_dlist(1) [of "mem s" "run_queue s" "[]" ts] d nh c
      by (simp add: pos_def rotation_def)
  next
    case cur: False
    then obtain xs ys where x: "ts = xs @ current s # ys" "current s \<notin> set xs" using c split_list_first by fastforce
    let ?c = "current s"
    have d2: "dlist (mem s) (run_queue s) (map run_node ((xs @ [?c]) @ ys))" using d x by simp
    have d3: "dlist (mem s) (run_queue s) (map run_node (xs @ [?c] @ ys))" using d x by simp
    have whole: "scan_path (mem s) (run_queue s) (hd (map run_node ts @ [run_queue s])) ((xs @ [?c]) @ ys)"
      using scan_path_dlist(1) [of "mem s" "run_queue s" "[]" ts] d x by simp
    have nc: "lnext (mem s) (run_node ?c) = hd (map run_node ys @ [run_queue s])"
    proof (cases ys)
      case Nil
      then show ?thesis using scan_path_dlist(2) [of "mem s" "run_queue s" xs "[?c]"] d x by simp
    next
      case (Cons y ys')
      have "scan_path (mem s) (run_queue s) (lnext (mem s) (run_node ?c)) ys"
        using whole unfolding scan_path_append by simp
      moreover have "lnext (mem s) (run_node ?c) \<noteq> run_queue s"
      proof -
        obtain bs p where e: "run_queue s # map run_node xs = bs @ [p]" by (metis append_butlast_last_id list.discI)
        have "lnext (mem s) (run_node ?c) = run_node y"
          using dlist_split(3) [of "mem s" "run_queue s" "map run_node xs" "run_node ?c # map run_node ys" bs p "run_node ?c"
            "map run_node ys @ [run_queue s]"] d x e Cons by simp
        then show ?thesis using dlist_distinct [OF d] x Cons by auto
      qed
      ultimately show ?thesis using Cons by (simp add: leads_def)
    qed
    have r: "rotation ?c ts = ys @ xs @ [?c]" using x rotation_split by simp
    have "scan_path (mem s) (run_queue s) pos ys" using scan_path_dlist(1) [OF d2] nc cur by (simp add: pos_def)
    moreover have "scan_path (mem s) (run_queue s) (if ys = [] then pos else lnext (mem s) (run_node (last ys))) (xs @ [?c])"
    proof -
      have q: "(if ys = [] then pos else lnext (mem s) (run_node (last ys))) = run_queue s"
        using scan_path_dlist(2) [OF d2] nc cur by (auto simp: pos_def)
      have first: "scan_path (mem s) (run_queue s) (lnext (mem s) (run_queue s)) (xs @ [?c])"
        using whole nh unfolding scan_path_append [of _ _ _ "xs @ [?c]" ys] by simp
      then have "scan_path (mem s) (run_queue s) (run_queue s) (xs @ [?c])"
        by (cases "xs @ [?c]") (auto simp: leads_def split: if_splits)
      then show ?thesis unfolding q .
    qed
    ultimately show ?thesis unfolding r scan_path_append [of _ _ _ ys] using x by simp
  qed
  then have "pick_loop (mem s) (run_queue s) (nr_runnable s) pos 0 = pick_spec (mem s) (current s) ts"
    unfolding pick_spec_def by (intro pick_loop_scan) (simp_all add: n)
  then show ?thesis using ne by (simp add: task_pick_next_def pos_def Let_def)
qed

text \<open>
  C18: \<open>task_pick_next\<close> returns the first task that is ready or running, going round the run
  queue from the task after the current one back to the current one itself (from the head when no
  task runs), and null when there is none; its scan bounded by the number of runnable tasks
  looks at each task of the queue exactly once.
\<close>

theorem task_pick_next_spec:
  assumes d: "dlist (mem s) (run_queue s) (map run_node ts)" and n: "unat (nr_runnable s) = length ts"
    and c: "current s = 0 \<and> 0 \<notin> set ts \<or> current s \<noteq> 0 \<and> current s \<in> set ts"
  shows "task_pick_next s = pick_spec (mem s) (current s) ts"
  using assms by (rule task_pick_next_scan)

end
