(* ===== verification/Kmalloc_Spec.thy ===== *)
theory Kmalloc_Spec
  imports Kmalloc
begin

text \<open>
  What the kernel heap promises: \<open>kmalloc_spec\<close> and \<open>free_view\<close> are first fit and coalescing
  release on a list of \<open>(address, size, free)\<close> triples, \<open>heap_inv\<close> ties them to memory, and
  \<open>kmalloc\<close> and \<open>kfree\<close> refine them. The locale \<open>heap_allocator\<close> is the contract the owners of
  heap objects use.
\<close>

section \<open>First fit and release on the block list\<close>

definition take_block :: "u64 \<Rightarrow> ptr \<Rightarrow> u64 \<Rightarrow> kblock list" where
  "take_block sz b z =
     (if unat z < unat sz + 64 then [(b, z, False)]
      else [(b, sz, False), (b + 48 + sz, z - sz - 48, True)])"

fun alloc_view :: "u64 \<Rightarrow> kblock list \<Rightarrow> (ptr \<times> kblock list) option" where
  "alloc_view sz [] = None"
| "alloc_view sz ((b, z, f) # v) =
     (if f \<and> sz \<le> z then Some (b + 48, take_block sz b z @ v)
      else map_option (\<lambda>(p, w). (p, (b, z, f) # w)) (alloc_view sz v))"

definition kmalloc_spec ::
  "u64 \<Rightarrow> kblock list \<times> ptr list \<times> ptr list \<Rightarrow> ptr \<times> kblock list \<times> ptr list \<times> ptr list" where
  "kmalloc_spec sz = (\<lambda>(v, hp, ps).
     (let n = align_up sz 16
      in if sz = 0 \<or> n > 4048 then (0, v, hp, ps)
         else case alloc_view n v of
             Some (p, w) \<Rightarrow> (p, w, hp, ps)
           | None \<Rightarrow> (case ps of [] \<Rightarrow> (0, v, hp, ps)
                     | q # qs \<Rightarrow> (q + 48, v @ take_block n q 4048, hp @ [q], qs))))"

fun set_free :: "kblock \<Rightarrow> kblock" where
  "set_free (b, z, f) = (b, z, True)"

fun free_view :: "ptr \<Rightarrow> kblock list \<Rightarrow> kblock list" where
  "free_view b [] = []"
| "free_view b (x # v) =
     (if fst x = b then coalesce (set_free x) v
      else case v of
          [] \<Rightarrow> [x]
        | y # w \<Rightarrow> if fst y = b \<and> snd (snd x) then coalesce x (coalesce (set_free y) w)
                  else x # free_view b v)"

definition heap_inv :: "'a heap_state_scheme \<Rightarrow> kblock list \<Rightarrow> ptr list \<Rightarrow> ptr list \<Rightarrow> bool" where
  "heap_inv s v hp ps \<longleftrightarrow> page_inv s ps \<and> heap_rep (mem s) (heap_head s) (heap_tail s) v \<and>
     distinct hp \<and> (\<forall>p\<in>set hp. page_ok s p \<and> p \<notin> set ps) \<and>
     heap_bytes v = (\<Union>p\<in>set hp. region p 4096)"

lemma alloc_view_split:
  assumes "alloc_view sz v = Some (p, w)"
  obtains xs b z ys where "v = xs @ (b, z, True) # ys" "sz \<le> z" "p = b + 48"
    "w = xs @ take_block sz b z @ ys" "find (\<lambda>(b, z, f). f \<and> sz \<le> z) v = Some (b, z, True)"
  using assms
proof (induction sz v arbitrary: w thesis rule: alloc_view.induct)
  case (2 sz b z f v)
  show ?case
  proof (cases "f \<and> sz \<le> z")
    case True
    then show ?thesis using "2.prems"(2) by (intro "2.prems"(1) [of "[]" b z v]) auto
  next
    case False
    then obtain w' where w': "alloc_view sz v = Some (p, w')" "w = (b, z, f) # w'"
      using "2.prems"(2) by auto
    obtain xs c y ys where "v = xs @ (c, y, True) # ys" "sz \<le> y" "p = c + 48"
      "w' = xs @ take_block sz c y @ ys" "find (\<lambda>(b, z, f). f \<and> sz \<le> z) v = Some (c, y, True)"
      using "2.IH" [OF False _ w'(1)] by blast
    with False w'(2) show ?thesis by (intro "2.prems"(1) [of "(b, z, f) # xs" c y ys]) auto
  qed
qed simp

lemma alloc_view_None: "alloc_view sz v = None \<longleftrightarrow> find (\<lambda>(b, z, f). f \<and> sz \<le> z) v = None"
  by (induction sz v rule: alloc_view.induct) auto

lemma alloc_view_append:
  "alloc_view sz v = None \<Longrightarrow> alloc_view sz (v @ w) = map_option (\<lambda>(p, u). (p, v @ u)) (alloc_view sz w)"
proof (induction sz v rule: alloc_view.induct)
  case (1 sz)
  then show ?case by (cases "alloc_view sz w") simp_all
next
  case (2 sz b z f v)
  then have f: "\<not> (f \<and> sz \<le> z)" "alloc_view sz v = None" by (auto split: if_splits)
  from "2.IH" [OF this] f(2) show ?case
    by (cases "alloc_view sz w") (simp_all add: f(1) split_def del: de_Morgan_conj)
qed

text \<open>The block that is handed out, and the rest of it.\<close>

lemma take_block_rep:
  assumes rep: "heap_rep (mem s) (heap_head s) (heap_tail s) (xs @ (b, z, True) # ys)"
    and sz: "16 dvd unat sz" "unat sz \<le> 4048"
  obtains m t where "split_block b sz s = s\<lparr>mem := m, heap_tail := t\<rparr>"
    "heap_rep (kset b KFree 0 m) (heap_head s) t (xs @ take_block sz b z @ ys)"
    "only_changes (header_bytes (xs @ take_block sz b z @ ys)) (mem s) (kset b KFree 0 m)"
proof (cases "unat z < unat sz + 64")
  case True
  have "unat (sz + 48 + KMALLOC_ALIGN) = unat sz + 64"
    using sz by (simp add: KMALLOC_ALIGN_def unat_word_ariths)
  then have "kget (mem s) b KSize < sz + 48 + KMALLOC_ALIGN"
    using True heap_rep_block [OF rep] by (simp only: word_less_nat_alt)
  then have "split_block b sz s = s\<lparr>mem := mem s, heap_tail := heap_tail s\<rparr>"
    by (simp add: split_block_def)
  with set_free_rep [OF rep, of False] True show thesis
    by (intro that [where m = "mem s" and t = "heap_tail s"]) (simp_all add: take_block_def)
next
  case False
  then have le: "unat sz + 64 \<le> unat z" by simp
  obtain m t where m: "split_block b sz s = s\<lparr>mem := m, heap_tail := t\<rparr>"
    "heap_rep m (heap_head s) t (xs @ (b, sz, True) # (b + 48 + sz, z - sz - 48, True) # ys)"
    "only_changes (header_bytes (xs @ (b, sz, True) # (b + 48 + sz, z - sz - 48, True) # ys)) (mem s) m"
    by (rule split_block_rep [OF rep sz(1) le])
  have "header_bytes (xs @ (b, sz, True) # (b + 48 + sz, z - sz - 48, True) # ys) =
    header_bytes (xs @ take_block sz b z @ ys)"
    using False by (simp add: take_block_def header_bytes_def)
  moreover have "only_changes (header_bytes (xs @ take_block sz b z @ ys)) m (kset b KFree 0 m)"
    by (rule kset_changes) (auto simp: header_bytes_def take_block_def)
  ultimately have "only_changes (header_bytes (xs @ take_block sz b z @ ys)) (mem s) (kset b KFree 0 m)"
    using m(3) by (auto intro: only_changes_trans')
  with m set_free_rep [OF m(2), of False] False show thesis
    by (intro that [where m = m and t = t]) (simp_all add: take_block_def)
qed

lemma kmalloc_loop_fit:
  assumes rep: "heap_rep (mem s) (heap_head s) (heap_tail s) v"
    and sz: "16 dvd unat sz" "unat sz \<le> 4048" and a: "alloc_view sz v = Some (p, w)"
  obtains m t where "kmalloc_loop sz s = Some (p, s\<lparr>mem := m, heap_tail := t\<rparr>)"
    "heap_rep m (heap_head s) t w" "only_changes (header_bytes w) (mem s) m"
proof -
  obtain xs b z ys where v: "v = xs @ (b, z, True) # ys" "p = b + 48"
    "w = xs @ take_block sz b z @ ys" and f: "find (\<lambda>(b, z, f). f \<and> sz \<le> z) v = Some (b, z, True)"
    by (rule alloc_view_split [OF a])
  have "b \<noteq> 0" using heap_rep_block(6) rep v by fastforce
  obtain m t where m: "split_block b sz s = s\<lparr>mem := m, heap_tail := t\<rparr>"
    "heap_rep (kset b KFree 0 m) (heap_head s) t w"
    "only_changes (header_bytes w) (mem s) (kset b KFree 0 m)"
    using take_block_rep [OF rep [unfolded v(1)] sz] v(3) by metis
  have "kmalloc_loop sz s = Some (p, s\<lparr>mem := kset b KFree 0 m, heap_tail := t\<rparr>)"
    using kmalloc_find_rep [OF rep, of sz] f \<open>b \<noteq> 0\<close> v(2) m(1)
    by (simp add: kmalloc_loop.simps [of sz s])
  with m that show thesis by blast
qed

lemma heap_bytes_append: "heap_bytes (v @ w) = heap_bytes v \<union> heap_bytes w"
  by (auto simp: heap_bytes_def)

lemma heap_bytes_simps [simp]: "heap_bytes [] = {}" "heap_bytes (x # v) = block_bytes x \<union> heap_bytes v"
  by (auto simp: heap_bytes_def)

lemma header_in_block: "block_ok x \<Longrightarrow> region (fst x) 48 \<subseteq> block_bytes x"
proof (cases x)
  case (fields b z f)
  then show "block_ok x \<Longrightarrow> ?thesis" using region_mono [OF block_ok_48 [of b z f]] by simp
qed

lemma header_in_heap: "tiled v \<Longrightarrow> header_bytes v \<subseteq> heap_bytes v"
  unfolding header_bytes_def heap_bytes_def by (rule UN_mono [OF order.refl header_in_block [OF tiled_block_ok]])

lemma take_block_bytes:
  assumes "tiled (xs @ (b, z, f) # ys)" "16 dvd unat sz" "sz \<le> z"
  shows "heap_bytes (take_block sz b z) = block_bytes (b, z, f)"
proof (cases "unat z < unat sz + 64")
  case False
  then show ?thesis using tiled_split(2) [OF assms(1,2), of False True]
    by (simp only: take_block_def if_False heap_bytes_simps Un_empty_right not_less if_not_P not_le)
qed (simp add: take_block_def)

lemma alloc_view_bytes:
  assumes "alloc_view sz v = Some (p, w)" "tiled v" "16 dvd unat sz"
  shows "heap_bytes w = heap_bytes v"
proof -
  obtain xs b z ys where v: "v = xs @ (b, z, True) # ys" "sz \<le> z" "w = xs @ take_block sz b z @ ys"
    by (rule alloc_view_split [OF assms(1)])
  then show ?thesis using take_block_bytes [of xs b z True ys sz] assms
    by (simp add: heap_bytes_append del: block_bytes.simps)
qed

lemma page_disjoint_heap:
  assumes "heap_inv s v hp ps" "page_ok s p" "p \<notin> set hp"
  shows "region p 4096 \<inter> heap_bytes v = {}"
proof -
  have "region p 4096 \<inter> region q 4096 = {}" if "q \<in> set hp" for q
    by (rule sep_disjoint [OF page_ok_sep [of s]]) (use assms that in \<open>auto simp: heap_inv_def\<close>)
  then show ?thesis using assms(1) by (auto simp: heap_inv_def)
qed

lemma foot_disjoint_heap:
  assumes "heap_inv s v hp ps" shows "page_foot s ps \<inter> heap_bytes v = {}"
proof -
  have "region q 4096 \<inter> page_foot s ps = {}" if "q \<in> set hp" for q
    using page_foot_pages [of s ps q] assms that by (auto simp: heap_inv_def)
  then show ?thesis using assms by (auto simp: heap_inv_def)
qed

lemma heap_inv_page_tiled:
  assumes "heap_inv s v hp (q # qs)"
  shows "tiled (v @ [(q, 4048, f)])"
proof -
  have q: "page_ok s q" "q \<notin> set hp" and t: "tiled v"
    using assms by (auto simp: heap_inv_def page_inv_def heap_rep_def)
  have "16 dvd unat q" using q(1) by (auto simp: page_ok_def page_aligned_iff elim: dvd_trans [rotated])
  moreover have "q + 48 \<noteq> 0"
  proof
    assume "q + 48 = 0"
    then have "0 - q = 48" by (metis add.commute add_diff_cancel_right')
    with page_ok_no_zero [OF q(1)] show False by (simp add: region_iff)
  qed
  ultimately have ok: "block_ok (q, 4048, f)" using page_ok_no_zero [OF q(1)] by simp
  have "apart x (q, 4048, f)" if x: "x \<in> set v" for x
  proof -
    obtain b z g where xx: "x = (b, z, g)" by (cases x) auto
    have "region q 4096 \<inter> region b (48 + z) = {}"
      using page_disjoint_heap [OF assms q] x xx by (force simp: heap_bytes_def)
    moreover have "0 < 48 + z" using tiled_block_ok [OF t x] xx block_ok_pos by blast
    ultimately have "sep b (48 + z) q 4096" by (intro sep_sym [OF disjoint_sep]) auto
    then show ?thesis by (simp add: xx)
  qed
  moreover have "tiled [(q, 4048, f)]" using ok by (simp add: tiled_def)
  ultimately show ?thesis using t by (simp add: tiled_append)
qed

lemma align16: "16 dvd unat (align_up sz 16)"
proof -
  have "align_up sz 16 = (sz + 15) AND NOT (mask 4)" by (simp add: align_up_def mask_numeral add.commute)
  then have "unat (align_up sz 16) = unat (sz + 15) div 16 * 16"
    by (simp add: and_not_mask_mod minus_mod_eq_div_mult)
  then show ?thesis by simp
qed

lemma align_up_ge: "sz \<le> 4048 \<Longrightarrow> sz \<le> align_up sz 16"
proof -
  assume "sz \<le> 4048"
  then have "unat sz + 2 ^ 4 - 1 < 2 ^ 64" by (simp add: word_le_nat_alt)
  from unat_align_up [OF this] show ?thesis by (simp add: word_le_nat_alt)
qed

text \<open>Taking a page into the heap.\<close>

lemma heap_grow_inv:
  assumes inv: "heap_inv s v hp (q # qs)"
  obtains s' where "heap_grow s = (q, s')" "heap_inv s' (v @ [(q, 4048, True)]) (hp @ [q]) qs"
    "page_ok s' = page_ok s" "free_page_list s' = free_page_list s"
    "only_changes (page_foot s (q # qs) \<union> region q 4096 \<union> header_bytes v) (mem s) (mem s')"
proof -
  have pi: "page_inv s (q # qs)" and rep: "heap_rep (mem s) (heap_head s) (heap_tail s) v"
    using inv by (simp_all add: heap_inv_def)
  have q: "page_ok s q" "q \<notin> set hp" "q \<noteq> 0" using inv by (auto simp: heap_inv_def page_inv_def page_ok_def)
  obtain s1 where s1: "page_alloc s = (q, s1)" "page_inv s1 qs" "page_step s s1"
    "only_changes (page_foot s (q # qs)) (mem s) (mem s1)" by (rule page_alloc_Cons [OF pi])
  note st = page_step_fields [OF s1(3)]
  have q1: "page_ok s1 q" "q \<notin> set qs" using q st kpage.repr_distinct [OF pi] by auto
  have h1: "heap_head s1 = heap_head s" "heap_tail s1 = heap_tail s" 
    using s1(3) by (auto simp: page_step_def)
  have fd: "page_foot s (q # qs) \<inter> heap_bytes v = {}" by (rule foot_disjoint_heap [OF inv])
  have hh: "header_bytes v \<subseteq> heap_bytes v" by (rule header_in_heap [OF heap_rep_tiled [OF rep]])
  have qd: "region q 4096 \<inter> heap_bytes v = {}" by (rule page_disjoint_heap [OF inv q(1,2)])
  have rep1: "heap_rep (mem s1) (heap_head s) (heap_tail s) v"
    by (rule heap_rep_frame [OF rep]) (use s1(4) fd hh in \<open>auto simp: only_changes_def\<close>)
  define m2 where "m2 = kset q KReserved 0 (kset q KMagic KMALLOC_MAGIC (kset q KFree 1
    (kset q KSize 4048 (mem s1))))"
  have c48: "region q 48 \<subseteq> region q 4096" by (rule region_mono) simp
  have c2: "only_changes (region q 4096) (mem s1) m2"
    unfolding m2_def using c48 by (intro kset_changes) simp_all
  have rep2: "heap_rep m2 (heap_head s) (heap_tail s) v"
    by (rule heap_rep_frame [OF rep1]) (use c2 qd hh in \<open>auto simp: only_changes_def\<close>)
  have hd2: "header m2 (q, 4048, True)" by (simp add: m2_def)
  have tv: "tiled (v @ [(q, 4048, True)])" by (rule heap_inv_page_tiled [OF inv])
  let ?s2 = "s1\<lparr>mem := m2\<rparr>"
  obtain m h where m: "heap_append q ?s2 = ?s2\<lparr>mem := m, heap_head := h, heap_tail := q\<rparr>"
    "heap_rep m h q (v @ [(q, 4048, True)])"
    "only_changes (header_bytes (v @ [(q, 4048, True)])) (mem ?s2) m"
  proof (rule heap_append_rep [OF _ tv])
    show "heap_rep (mem ?s2) (heap_head ?s2) (heap_tail ?s2) v" using rep2 h1 by simp
    show "header (mem ?s2) (q, 4048, True)" using hd2 by simp
  qed
  have m3: "only_changes (header_bytes (v @ [(q, 4048, True)])) m2 m" using m(3) by simp
  have hb: "header_bytes (v @ [(q, 4048, True)]) \<subseteq> region q 4096 \<union> header_bytes v"
    using c48 by (auto simp: header_bytes_def)
  have c: "only_changes (region q 4096 \<union> header_bytes v) (mem s1) m"
    by (rule only_changes_trans' [OF only_changes_mono [OF c2] only_changes_mono [OF m3 hb]]) simp
  have "region q 4096 \<inter> page_foot s1 qs = {}" by (rule page_foot_pages [OF s1(2) q1])
  moreover have "page_foot s1 qs \<subseteq> page_foot s (q # qs)" unfolding st(1) by (intro node_bytes_mono) auto
  ultimately have pf: "(region q 4096 \<union> header_bytes v) \<inter> page_foot s1 qs = {}" using fd hh by blast
  let ?s' = "s1\<lparr>mem := m, heap_head := h, heap_tail := q\<rparr>"
  have "page_inv (s1\<lparr>mem := m\<rparr>) qs" by (rule page_inv_frame [OF s1(2) c pf])
  then have "page_inv ?s' qs" by (simp add: page_inv_def page_ok_def)
  moreover have "page_ok ?s' = page_ok s" by (simp add: st(3) [symmetric] page_ok_def fun_eq_iff)
  moreover have "heap_bytes (v @ [(q, 4048, True)]) = (\<Union>p\<in>set (hp @ [q]). region p 4096)"
    using inv by (auto simp: heap_inv_def heap_bytes_append)
  ultimately have inv': "heap_inv ?s' (v @ [(q, 4048, True)]) (hp @ [q]) qs"
    using inv m(2) q1 q by (auto simp: heap_inv_def)
  have c': "only_changes (page_foot s (q # qs) \<union> (region q 4096 \<union> header_bytes v)) (mem s) m"
    by (rule only_changes_trans [OF s1(4) c])
  show thesis
  proof (rule that)
    show "heap_grow s = (q, ?s')"
      using s1(1) q(3) m(1) by (simp add: heap_grow_def Let_def m2_def)
  qed (use inv' c' st in \<open>simp_all add: Un_assoc page_ok_def fun_eq_iff\<close>)
qed

lemma heap_inv_update:
  assumes inv: "heap_inv s v hp ps" and rep: "heap_rep m (heap_head s) t w"
    and c: "only_changes (heap_bytes v) (mem s) m" and b: "heap_bytes w = heap_bytes v"
  shows "heap_inv (s\<lparr>mem := m, heap_tail := t\<rparr>) w hp ps"
proof -
  have "page_inv (s\<lparr>mem := m\<rparr>) ps"
    using page_inv_frame [of s ps "heap_bytes v" m] inv c foot_disjoint_heap [OF inv]
    by (auto simp: heap_inv_def)
  with inv rep b show ?thesis by (simp add: heap_inv_def page_inv_def page_ok_def)
qed

definition kmalloc_foot :: "'a heap_state_scheme \<Rightarrow> kblock list \<Rightarrow> ptr list \<Rightarrow> u64 set" where
  "kmalloc_foot s w ps = header_bytes w \<union> page_foot s ps \<union>
     (case ps of [] \<Rightarrow> {} | q # qs \<Rightarrow> region q 4096)"

lemma kmalloc_refines_spec:
  assumes inv: "heap_inv s v hp ps" and r: "kmalloc_spec sz (v, hp, ps) = (p, w, hp', ps')"
  obtains s' where "kmalloc sz s = Some (p, s')" "heap_inv s' w hp' ps'" "page_ok s' = page_ok s"
    "free_page_list s' = free_page_list s" "only_changes (kmalloc_foot s w ps) (mem s) (mem s')"
proof -
  let ?n = "align_up sz 16"
  have rep: "heap_rep (mem s) (heap_head s) (heap_tail s) v" using inv by (simp add: heap_inv_def)
  have tv: "tiled v" by (rule heap_rep_tiled [OF rep])
  show thesis
  proof (cases "sz = 0 \<or> ?n > 4048")
    case True
    with r inv show thesis by (intro that [of s]) (auto simp: kmalloc_spec_def kmalloc_def KMALLOC_ALIGN_def Let_def)
  next
    case False
    then have n: "16 dvd unat ?n" "unat ?n \<le> 4048" "?n \<le> 4048" "sz \<noteq> 0" "\<not> 4048 < ?n"
      by (simp_all add: align16 word_le_nat_alt word_less_nat_alt)
    have k: "kmalloc sz s = kmalloc_loop ?n s"
      using n by (simp add: kmalloc_def KMALLOC_ALIGN_def Let_def)
    show thesis
    proof (cases "alloc_view ?n v")
      case (Some a)
      then have a: "alloc_view ?n v = Some (p, w)" "hp' = hp" "ps' = ps"
        using r n by (auto simp: kmalloc_spec_def Let_def split: prod.splits)
      obtain m t where m: "kmalloc_loop ?n s = Some (p, s\<lparr>mem := m, heap_tail := t\<rparr>)"
        "heap_rep m (heap_head s) t w" "only_changes (header_bytes w) (mem s) m"
        by (rule kmalloc_loop_fit [OF rep n(1,2) a(1)])
      have b: "heap_bytes w = heap_bytes v" by (rule alloc_view_bytes [OF a(1) tv n(1)])
      have "only_changes (heap_bytes v) (mem s) m"
        using only_changes_mono [OF m(3) header_in_heap [OF heap_rep_tiled [OF m(2)]]] b by simp
      from heap_inv_update [OF inv m(2) this b] m a k show thesis
        by (intro that [of "s\<lparr>mem := m, heap_tail := t\<rparr>"])
          (auto simp: kmalloc_foot_def page_ok_def fun_eq_iff elim!: only_changes_mono)
    next
      case None
      have find0: "kmalloc_find (mem s) (heap_head s) ?n = Some 0"
        using kmalloc_find_rep [OF rep, of ?n] None by (simp add: alloc_view_None)
      show thesis
      proof (cases ps)
        case Nil
        then have "page_alloc s = (0, s)" using inv by (auto simp: heap_inv_def intro: page_alloc_empty)
        then have "kmalloc_loop ?n s = Some (0, s)"
          using find0 by (simp add: kmalloc_loop.simps [of ?n s] heap_grow_def)
        with k r inv None Nil n show thesis
          by (intro that [of s]) (auto simp: kmalloc_spec_def Let_def)
      next
        case (Cons q qs)
        then have e: "p = q + 48" "w = v @ take_block ?n q 4048" "hp' = hp @ [q]" "ps' = qs"
          using r n None by (auto simp: kmalloc_spec_def Let_def)
        have q0: "q \<noteq> 0" using inv Cons by (auto simp: heap_inv_def page_inv_def page_ok_def)
        obtain s1 where s1: "heap_grow s = (q, s1)" "heap_inv s1 (v @ [(q, 4048, True)]) (hp @ [q]) qs"
          "page_ok s1 = page_ok s" "free_page_list s1 = free_page_list s"
          "only_changes (page_foot s (q # qs) \<union> region q 4096 \<union> header_bytes v) (mem s) (mem s1)"
          by (rule heap_grow_inv [OF inv [unfolded Cons]])
        have loop: "kmalloc_loop ?n s = kmalloc_loop ?n s1"
          using find0 s1(1) q0 by (simp add: kmalloc_loop.simps [of ?n s])
        have rep1: "heap_rep (mem s1) (heap_head s1) (heap_tail s1) (v @ [(q, 4048, True)])"
          using s1(2) by (simp add: heap_inv_def)
        have a: "alloc_view ?n (v @ [(q, 4048, True)]) = Some (p, w)"
          using n by (simp add: alloc_view_append [OF None] e)
        obtain m t where m: "kmalloc_loop ?n s1 = Some (p, s1\<lparr>mem := m, heap_tail := t\<rparr>)"
          "heap_rep m (heap_head s1) t w" "only_changes (header_bytes w) (mem s1) m"
          by (rule kmalloc_loop_fit [OF rep1 n(1,2) a])
        have b: "heap_bytes w = heap_bytes (v @ [(q, 4048, True)])"
          by (rule alloc_view_bytes [OF a heap_rep_tiled [OF rep1] n(1)])
        have "only_changes (heap_bytes (v @ [(q, 4048, True)])) (mem s1) m"
          using only_changes_mono [OF m(3) header_in_heap [OF heap_rep_tiled [OF m(2)]]] b by simp
        note inv' = heap_inv_update [OF s1(2) m(2) this b]
        have "header_bytes v \<subseteq> header_bytes w" unfolding e by (auto simp: header_bytes_def)
        then have foot: "page_foot s (q # qs) \<union> region q 4096 \<union> header_bytes v \<union> header_bytes w \<subseteq> kmalloc_foot s w ps"
          by (auto simp: kmalloc_foot_def Cons)
        have "only_changes (kmalloc_foot s w ps) (mem s) m"
          by (rule only_changes_mono [OF only_changes_trans [OF s1(5) m(3)] foot])
        with inv' m k loop s1 e show thesis
          by (intro that [of "s1\<lparr>mem := m, heap_tail := t\<rparr>"]) (auto simp: page_ok_def fun_eq_iff)
      qed
    qed
  qed
qed

section \<open>Freeing\<close>

lemma coalesce_heap_bytes: "tiled (x # v) \<Longrightarrow> heap_bytes (coalesce x v) = block_bytes x \<union> heap_bytes v"
proof (induction x v rule: coalesce.induct)
  case (1 b z f c y v)
  then show ?case using tiled_merge(2) [of "[]" b z f y True v f]
    by (auto simp del: block_bytes.simps)
qed (simp_all del: block_bytes.simps)

lemma coalesce_in_bytes:
  "tiled (xs @ x # ys) \<Longrightarrow> heap_bytes (xs @ coalesce x ys) = heap_bytes (xs @ x # ys)"
  by (simp add: tiled_append heap_bytes_append coalesce_heap_bytes)

lemma coalesce_fst: "\<exists>y w. coalesce x v = y # w \<and> fst y = fst x \<and> snd (snd y) = snd (snd x)"
  by (induction x v rule: coalesce.induct) auto

lemma header_bytes_coalesce: "header_bytes (coalesce x v) \<subseteq> header_bytes (x # v)"
  by (induction x v rule: coalesce.induct) (auto simp: header_bytes_def)

lemma free_view_split:
  assumes "b \<notin> fst ` set xs"
  shows "free_view b (xs @ (b, z, f) # ys) =
    (if xs \<noteq> [] \<and> snd (snd (last xs)) then butlast xs @ coalesce (last xs) (coalesce (b, z, True) ys)
     else xs @ coalesce (b, z, True) ys)"
  using assms
proof (induction xs)
  case (Cons x xs)
  then show ?case by (cases xs) auto
qed simp

lemma kfree_refines_spec:
  assumes inv: "heap_inv s v hp ps" and p: "(p - 48, z, False) \<in> set v" "p \<noteq> 0"
  obtains s' where "kfree p s = Some s'" "heap_inv s' (free_view (p - 48) v) hp ps"
    "page_ok s' = page_ok s" "free_page_list s' = free_page_list s"
    "only_changes (header_bytes v) (mem s) (mem s')"
proof -
  note result = that
  define b where "b = p - 48"
  have rep: "heap_rep (mem s) (heap_head s) (heap_tail s) v" using inv by (simp add: heap_inv_def)
  obtain xs ys where v: "v = xs @ (b, z, False) # ys" using p unfolding b_def by (meson split_list)
  note rep = rep [unfolded v]
  have dist: "distinct (map fst v)" using tiled_distinct [OF heap_rep_tiled [OF rep]] v by simp
  note blk = heap_rep_block [OF rep]
  let ?s1 = "s\<lparr>mem := kset b KFree 1 (mem s)\<rparr>"
  have r1: "heap_rep (mem ?s1) (heap_head ?s1) (heap_tail ?s1) (xs @ (b, z, True) # ys)"
    "only_changes (header_bytes v) (mem s) (mem ?s1)"
    using set_free_rep [OF rep, of True] v by (simp_all add: header_bytes_def)
  obtain m2 t2 where m2: "merge_with_next b ?s1 = ?s1\<lparr>mem := m2, heap_tail := t2\<rparr>"
    "heap_rep m2 (heap_head ?s1) t2 (xs @ coalesce (b, z, True) ys)"
    "only_changes (header_bytes (xs @ (b, z, True) # ys)) (mem ?s1) m2"
    by (rule merge_with_next_rep [OF r1(1)])
  let ?s2 = "?s1\<lparr>mem := m2, heap_tail := t2\<rparr>"
  obtain z' w where co: "coalesce (b, z, True) ys = (b, z', True) # w"
    using coalesce_fst [of "(b, z, True)" ys] by fastforce
  note r2 = m2(2) [unfolded co]
  have nin: "b \<notin> fst ` set xs" using dist v by simp
  have prv: "kget (mem ?s2) b KPrev = last (0 # map fst xs)" using heap_rep_block(2) [OF r2] by simp
  have c2: "only_changes (header_bytes v) (mem s) m2"
    using only_changes_trans' [OF r1(2)] m2(3) v by (simp add: header_bytes_def)
  have hv: "header_bytes v \<subseteq> heap_bytes v"
    by (rule header_in_heap [OF heap_rep_tiled]) (use inv in \<open>auto simp: heap_inv_def\<close>)
  have kf: "kfree p s = Some (if kget (mem ?s2) b KPrev \<noteq> 0 \<and> kget (mem ?s2) (kget (mem ?s2) b KPrev) KFree \<noteq> 0
    then merge_with_next (kget (mem ?s2) b KPrev) ?s2 else ?s2)"
    using p(2) blk m2(1) by (simp add: kfree_def b_def [symmetric] Let_def)
  have hb1: "heap_bytes (xs @ (b, z', True) # w) = heap_bytes v"
    using coalesce_in_bytes [OF heap_rep_tiled [OF r1(1)]] by (simp add: co v heap_bytes_append)
  have th: thesis if g: "xs = us @ [(c, y, True)]" for us c y
  proof -
    note r2' = r2 [unfolded g, simplified]
    have pr: "kget (mem ?s2) b KPrev = c" "c \<noteq> 0" "kget m2 c KFree \<noteq> 0"
      using prv heap_rep_block(4,6) [OF r2'] by (simp_all add: g)
    obtain m3 t3 where m3: "merge_with_next c ?s2 = ?s2\<lparr>mem := m3, heap_tail := t3\<rparr>"
      "heap_rep m3 (heap_head ?s2) t3 (us @ coalesce (c, y, True) ((b, z', True) # w))"
      "only_changes (header_bytes (us @ (c, y, True) # (b, z', True) # w)) (mem ?s2) m3"
    proof (rule merge_with_next_rep)
      show "heap_rep (mem ?s2) (heap_head ?s2) (heap_tail ?s2) (us @ (c, y, True) # (b, z', True) # w)"
        using r2' by simp
    qed
    have fv: "free_view b v = us @ coalesce (c, y, True) ((b, z', True) # w)"
      unfolding v free_view_split [OF nin] by (simp add: g co)
    have "header_bytes (us @ (c, y, True) # (b, z', True) # w) \<subseteq> header_bytes v"
      using header_bytes_coalesce [of "(b, z, True)" ys] by (auto simp: co v g header_bytes_def)
    then have "only_changes (header_bytes v) m2 m3" using only_changes_mono [OF m3(3)] by simp
    then have c3: "only_changes (header_bytes v) (mem s) m3" by (rule only_changes_trans' [OF c2])
    have "heap_bytes (us @ coalesce (c, y, True) ((b, z', True) # w)) = heap_bytes (xs @ (b, z', True) # w)"
      using coalesce_in_bytes [OF heap_rep_tiled [OF r2']] by (simp only: g append_assoc append.simps)
    with hb1 have hb: "heap_bytes (free_view b v) = heap_bytes v" by (simp only: fv)
    have "heap_rep m3 (heap_head s) t3 (free_view b v)" using m3(2) by (simp only: fv) simp
    from heap_inv_update [OF inv this only_changes_mono [OF c3 hv] hb] show thesis
      using pr m3(1) c3 b_def
      by (intro result [of "s\<lparr>mem := m3, heap_tail := t3\<rparr>"])
        (simp_all add: kf page_ok_def fun_eq_iff)
  qed
  have th2: thesis if g: "\<not> (xs \<noteq> [] \<and> snd (snd (last xs)))"
  proof -
    have fv: "free_view b v = xs @ (b, z', True) # w"
      unfolding v using free_view_split [OF nin, of z False ys] g by (auto simp: co)
    have no: "\<not> (kget (mem ?s2) b KPrev \<noteq> 0 \<and> kget (mem ?s2) (kget (mem ?s2) b KPrev) KFree \<noteq> 0)"
    proof (cases xs rule: rev_cases)
      case Nil
      then show ?thesis using prv by simp
    next
      case (snoc us x)
      then obtain c y where x: "xs = us @ [(c, y, False)]" using g by (cases x) auto
      from heap_rep_block(4) [OF r2 [unfolded x, simplified]] prv show ?thesis by (simp add: x)
    qed
    have hb: "heap_bytes (free_view b v) = heap_bytes v" using hb1 by (simp only: fv)
    have "heap_rep m2 (heap_head s) t2 (free_view b v)" using r2 by (simp only: fv) simp
    from heap_inv_update [OF inv this only_changes_mono [OF c2 hv] hb] show thesis
      using no c2 b_def
      by (intro result [of "s\<lparr>mem := m2, heap_tail := t2\<rparr>"])
        (auto simp: kf page_ok_def fun_eq_iff)
  qed
  show thesis
  proof (cases xs rule: rev_cases)
    case (snoc us x)
    then show thesis using th [of us] th2 by (cases x) auto
  qed (simp add: th2)
qed

section \<open>Allocations in use\<close>

definition live :: "kblock list \<Rightarrow> (ptr \<times> u64) set" where
  "live v = {(b + 48, z) | b z. (b, z, False) \<in> set v}"

lemma live_simps [simp]:
  "live [] = {}" "live ((b, z, f) # v) = (if f then live v else insert (b + 48, z) (live v))"
  by (auto simp: live_def)

lemma live_append: "live (xs @ ys) = live xs \<union> live ys"
  by (auto simp: live_def)

lemma live_iff: "(p, z) \<in> live v \<longleftrightarrow> (p - 48, z, False) \<in> set v"
  by (auto simp: live_def intro: exI [of _ "p - 48"])

lemma live_take_block: "sz \<le> z \<Longrightarrow> \<exists>k. sz \<le> k \<and> live (take_block sz b z) = {(b + 48, k)}"
  by (auto simp: take_block_def)

lemma alloc_view_live:
  assumes "alloc_view sz v = Some (p, w)" "tiled v"
  shows "\<exists>k. sz \<le> k \<and> live w = insert (p, k) (live v) \<and> p \<notin> fst ` live v"
proof -
  obtain xs b z ys where v: "v = xs @ (b, z, True) # ys" "sz \<le> z" "p = b + 48"
    "w = xs @ take_block sz b z @ ys" by (rule alloc_view_split [OF assms(1)])
  have "b \<notin> fst ` (set xs \<union> set ys)" using tiled_distinct [OF assms(2)] v by auto
  then have "p \<notin> fst ` live v" unfolding v by (force simp: live_append live_def)
  with live_take_block [OF v(2), of b] v show ?thesis by (auto simp: live_append)
qed

lemma live_coalesce: "live (coalesce (b, z, True) v) = live v"
  by (induction "(b, z, True)" v rule: coalesce.induct) auto

lemma live_free_view:
  assumes "distinct (map fst v)" "(b, z, False) \<in> set v"
  shows "live (free_view b v) = live v - {(b + 48, z)}"
proof -
  obtain xs ys where v: "v = xs @ (b, z, False) # ys" using assms(2) by (meson split_list)
  with assms(1) have n: "b \<notin> fst ` set xs" "b \<notin> fst ` set ys" by auto
  then have l: "(b + 48, z) \<notin> live xs \<union> live ys" by (force simp: live_def)
  show ?thesis
  proof (cases "xs \<noteq> [] \<and> snd (snd (last xs))")
    case True
    then obtain us c y where "xs = us @ [(c, y, True)]"
      by (metis append_butlast_last_id prod.collapse)
    with free_view_split [OF n(1), of z False ys] True l show ?thesis
      by (simp add: v live_append live_coalesce)
  next
    case False
    with free_view_split [OF n(1), of z False ys] l show ?thesis
      by (auto simp: v live_append live_coalesce)
  qed
qed

lemma payload_in_block: "block_ok (b, z, f) \<Longrightarrow> region (b + 48) z \<subseteq> block_bytes (b, z, f)"
  using region_offset_subset [of 48 "48 + z" z b] block_ok_48 [of b z f] by simp

lemma blocks_disjoint:
  assumes "tiled v" "x \<in> set v" "y \<in> set v" "x \<noteq> y"
  shows "block_bytes x \<inter> block_bytes y = {}"
proof -
  obtain xs ys where "v = xs @ x # ys" using assms(2) by (meson split_list)
  with assms have "apart x y" by (auto intro: tiled_apart)
  then show ?thesis by (cases x; cases y) (simp add: sep_disjoint)
qed

lemma payload_headers:
  assumes t: "tiled v" and p: "(p, z) \<in> live v"
  shows "region p z \<inter> header_bytes v = {}"
proof -
  define b where "b = p - 48"
  have b: "(b, z, False) \<in> set v" "p = b + 48" using p by (simp_all add: live_iff b_def)
  have ok: "block_ok (b, z, False)" using tiled_block_ok [OF t b(1)] .
  have "region p z \<inter> region (fst x) 48 = {}" if x: "x \<in> set v" for x
  proof (cases "x = (b, z, False)")
    case True
    have "u < 48 \<Longrightarrow> \<not> u - 48 < z" for u
    proof
      assume u: "u < 48" "u - 48 < z"
      have "unat (u - 48) = 2 ^ 64 - (48 - unat u)"
        using u(1) unat_minus64 [of "48 - u"] less_imp_neq [OF u(1)] by (simp add: unat_sub word_less_nat_alt word_le_nat_alt)
      moreover have "unat z + 48 < 2 ^ 64" using ok by simp
      moreover have "unat u < 48" using u(1) by (simp add: word_less_nat_alt)
      ultimately show False using u(2) by (simp add: word_less_nat_alt)
    qed
    then show ?thesis using True b(2) by (auto simp: region_iff diff_diff_eq [symmetric])
  next
    case False
    then show ?thesis
      using blocks_disjoint [OF t b(1) x] payload_in_block [OF ok] header_in_block [OF tiled_block_ok [OF t x]] b(2)
      by blast
  qed
  then show ?thesis by (auto simp: header_bytes_def)
qed

lemma live_disjoint:
  assumes t: "tiled v" and p: "(p, z) \<in> live v" "(q, y) \<in> live v" "p \<noteq> q"
  shows "region p z \<inter> region q y = {}"
  using blocks_disjoint [OF t, of "(p - 48, z, False)" "(q - 48, y, False)"] p
    payload_in_block [OF tiled_block_ok [OF t], of "p - 48" z False]
    payload_in_block [OF tiled_block_ok [OF t], of "q - 48" y False]
  by (auto simp: live_iff)

lemma live_unique: "tiled v \<Longrightarrow> (p, z) \<in> live v \<Longrightarrow> (p, y) \<in> live v \<Longrightarrow> z = y"
  using tiled_distinct by (auto simp: live_iff dest: eq_key_imp_eq_value)

lemma live_in_heap:
  assumes "tiled v" "(p, z) \<in> live v" shows "region p z \<subseteq> heap_bytes v"
proof -
  have b: "(p - 48, z, False) \<in> set v" using assms(2) by (simp add: live_iff)
  have "region p z \<subseteq> block_bytes (p - 48, z, False)"
    using payload_in_block [OF tiled_block_ok [OF assms(1) b]] by simp
  also have "\<dots> \<subseteq> heap_bytes v" unfolding heap_bytes_def by (rule UN_upper [OF b])
  finally show ?thesis .
qed

section \<open>The contract\<close>

text \<open>
  What the owners of heap objects rely on: \<open>inv s L\<close> says that \<open>L\<close> is the set of the objects
  handed out and not yet freed, with their capacities.
\<close>

locale heap_allocator =
  fixes alloc :: "u64 \<Rightarrow> 's \<Rightarrow> (ptr \<times> 's) option"
    and release :: "ptr \<Rightarrow> 's \<Rightarrow> 's option"
    and inv :: "'s \<Rightarrow> (ptr \<times> u64) set \<Rightarrow> bool"
    and bytes :: "'s \<Rightarrow> memory"
    and put :: "memory \<Rightarrow> 's \<Rightarrow> 's"
  assumes bytes_put: "bytes (put m s) = m"
    and alloc_total: "inv s L \<Longrightarrow> \<exists>p s'. alloc n s = Some (p, s') \<and>
      (if p = 0 then inv s' L
       else \<exists>k. (n \<le> 4048 \<longrightarrow> n \<le> k) \<and> p \<notin> fst ` L \<and> inv s' (insert (p, k) L)) \<and>
      (\<forall>(q, j)\<in>L. \<forall>x\<in>region q j. bytes s' x = bytes s x)"
    and release_ok: "inv s L \<Longrightarrow> (p, k) \<in> L \<Longrightarrow> p \<noteq> 0 \<Longrightarrow>
      \<exists>s'. release p s = Some s' \<and> inv s' (L - {(p, k)}) \<and>
        (\<forall>(q, j)\<in>L. \<forall>x\<in>region q j. bytes s' x = bytes s x)"
    and write_ok: "inv s L \<Longrightarrow> (p, k) \<in> L \<Longrightarrow> only_changes (region p k) (bytes s) m \<Longrightarrow>
      inv (put m s) L"
    and objects_apart: "inv s L \<Longrightarrow> (p, k) \<in> L \<Longrightarrow> (q, j) \<in> L \<Longrightarrow> p \<noteq> q \<Longrightarrow>
      region p k \<inter> region q j = {}"
    and objects_unique: "inv s L \<Longrightarrow> (p, k) \<in> L \<Longrightarrow> (p, j) \<in> L \<Longrightarrow> k = j"
begin

text \<open>An object keeps what its owner wrote to it while another is allocated and released.\<close>

lemma object_kept:
  assumes i: "inv s L" and p: "(p, k) \<in> L" and w: "only_changes (region p k) (bytes s) m"
    and a: "alloc n (put m s) = Some (q, s')" "q \<noteq> 0"
  shows "\<exists>s''. release q s' = Some s'' \<and> inv s'' L \<and> (\<forall>x\<in>region p k. bytes s'' x = m x)"
proof -
  have i1: "inv (put m s) L" by (rule write_ok [OF i p w])
  then obtain j where j: "q \<notin> fst ` L" "inv s' (insert (q, j) L)" "\<forall>x\<in>region p k. bytes s' x = m x"
    using alloc_total [OF i1, of n] a p by (fastforce simp: bytes_put)
  obtain s'' where "release q s' = Some s''" "inv s'' (insert (q, j) L - {(q, j)})"
    "\<forall>x\<in>region p k. bytes s'' x = bytes s' x"
    using release_ok [OF j(2) _ a(2), of j] p by fastforce
  moreover have "insert (q, j) L - {(q, j)} = L" using j(1) by (force simp: image_iff)
  ultimately show ?thesis using j(3) by auto
qed

text \<open>Two allocations never overlap, and releasing the first leaves the second.\<close>

lemma alloc_twice:
  assumes i: "inv s L" and a: "alloc n s = Some (p, s1)" "p \<noteq> 0"
    and b: "alloc n' s1 = Some (q, s2)" "q \<noteq> 0" and n: "n \<le> 4048" "n' \<le> 4048"
  shows "\<exists>k j s3. n \<le> k \<and> n' \<le> j \<and> p \<noteq> q \<and> region p k \<inter> region q j = {} \<and>
    release p s2 = Some s3 \<and> inv s3 (insert (q, j) L)"
proof -
  obtain k where k: "n \<le> k" "p \<notin> fst ` L" "inv s1 (insert (p, k) L)"
    using alloc_total [OF i, of n] a n by auto
  obtain j where j: "n' \<le> j" "q \<notin> fst ` insert (p, k) L" "inv s2 (insert (q, j) (insert (p, k) L))"
    using alloc_total [OF k(3), of n'] b n by auto
  have "p \<noteq> q" using j(2) by auto
  moreover have "region p k \<inter> region q j = {}" by (rule objects_apart [OF j(3)]) (use \<open>p \<noteq> q\<close> in auto)
  moreover obtain s3 where "release p s2 = Some s3" "inv s3 (insert (q, j) (insert (p, k) L) - {(p, k)})"
    using release_ok [OF j(3) _ a(2), of k] by auto
  moreover have "insert (q, j) (insert (p, k) L) - {(p, k)} = insert (q, j) L"
    using k(2) \<open>p \<noteq> q\<close> by (force simp: image_iff)
  ultimately show ?thesis using k(1) j(1) by auto
qed

end

definition objects :: "'a heap_state_scheme \<Rightarrow> (ptr \<times> u64) set \<Rightarrow> bool" where
  "objects s L \<longleftrightarrow> (\<exists>v hp ps. heap_inv s v hp ps \<and> L = live v)"

lemma heap_inv_tiled: "heap_inv s v hp ps \<Longrightarrow> tiled v"
  by (auto simp: heap_inv_def heap_rep_def)

lemma alloc_view_nonzero: "alloc_view sz v = Some (p, w) \<Longrightarrow> tiled v \<Longrightarrow> p \<noteq> 0"
  by (auto elim!: alloc_view_split simp: tiled_append tiled_Cons)

lemma heap_inv_page_fresh:
  assumes inv: "heap_inv s v hp (q # qs)"
  shows "q + 48 \<noteq> 0 \<and> q + 48 \<notin> fst ` live v"
proof -
  have t: "tiled (v @ [(q, 4048, True)])" by (rule heap_inv_page_tiled [OF inv])
  then have "distinct (map fst (v @ [(q, 4048, True)]))" by (rule tiled_distinct)
  with t show ?thesis by (force simp: tiled_append tiled_Cons live_def)
qed

lemma kmalloc_spec_live:
  assumes inv: "heap_inv s v hp ps" and r: "kmalloc_spec sz (v, hp, ps) = (p, w, hp', ps')"
  shows "if p = 0 then live w = live v
    else \<exists>k. align_up sz 16 \<le> k \<and> p \<notin> fst ` live v \<and> live w = insert (p, k) (live v)"
proof (cases "sz = 0 \<or> align_up sz 16 > 4048")
  case False
  then have n: "\<not> 4048 < align_up sz 16" "sz \<noteq> 0" "align_up sz 16 \<le> 4048" by auto
  show ?thesis
  proof (cases "alloc_view (align_up sz 16) v")
    case None
    show ?thesis
    proof (cases ps)
      case (Cons q qs)
      then have "p = q + 48" "w = v @ take_block (align_up sz 16) q 4048"
        using r None n by (auto simp: kmalloc_spec_def Let_def)
      with heap_inv_page_fresh [OF inv [unfolded Cons]] live_take_block [OF n(3), of q] show ?thesis
        by (auto simp: live_append)
    qed (use r None n in \<open>auto simp: kmalloc_spec_def Let_def\<close>)
  next
    case (Some a)
    then have a: "alloc_view (align_up sz 16) v = Some (p, w)"
      using r n by (auto simp: kmalloc_spec_def Let_def split: prod.splits)
    with alloc_view_live [OF a heap_inv_tiled [OF inv]] alloc_view_nonzero [OF a heap_inv_tiled [OF inv]]
    show ?thesis by auto
  qed
qed (use r in \<open>auto simp: kmalloc_spec_def Let_def\<close>)

lemma kmalloc_spec_keeps_live:
  assumes inv: "heap_inv s v hp ps" and r: "kmalloc_spec sz (v, hp, ps) = (p, w, hp', ps')"
    and w: "tiled w" and l: "(q, j) \<in> live v"
  shows "region q j \<inter> kmalloc_foot s w ps = {}"
proof -
  have "(q, j) \<in> live w" using kmalloc_spec_live [OF inv r] l by (auto split: if_splits)
  then have "region q j \<inter> header_bytes w = {}" by (rule payload_headers [OF w])
  moreover have h: "region q j \<subseteq> heap_bytes v" by (rule live_in_heap [OF heap_inv_tiled [OF inv] l])
  moreover have "page_foot s ps \<inter> heap_bytes v = {}" by (rule foot_disjoint_heap [OF inv])
  moreover have "region c 4096 \<inter> heap_bytes v = {}" if "ps = c # cs" for c cs
    by (rule page_disjoint_heap [OF inv]) (use inv that in \<open>auto simp: heap_inv_def page_inv_def\<close>)
  ultimately show ?thesis unfolding kmalloc_foot_def by (cases ps) auto
qed

lemma kmalloc_objects:
  assumes "objects s L"
  shows "\<exists>p s'. kmalloc sz s = Some (p, s') \<and>
    (if p = 0 then objects s' L
     else \<exists>k. (sz \<le> 4048 \<longrightarrow> sz \<le> k) \<and> p \<notin> fst ` L \<and> objects s' (insert (p, k) L)) \<and>
    (\<forall>(q, j)\<in>L. \<forall>x\<in>region q j. mem s' x = mem s x)"
proof -
  obtain v hp ps where inv: "heap_inv s v hp ps" and L: "L = live v"
    using assms by (auto simp: objects_def)
  obtain p w hp' ps' where r: "kmalloc_spec sz (v, hp, ps) = (p, w, hp', ps')"
    by (cases "kmalloc_spec sz (v, hp, ps)") auto
  obtain s' where s': "kmalloc sz s = Some (p, s')" "heap_inv s' w hp' ps'"
    "only_changes (kmalloc_foot s w ps) (mem s) (mem s')"
    by (rule kmalloc_refines_spec [OF inv r])
  have "mem s' x = mem s x" if "(q, j) \<in> L" "x \<in> region q j" for q j x
    using kmalloc_spec_keeps_live [OF inv r heap_inv_tiled [OF s'(2)], of q j] that s'(3) L
    by (auto simp: only_changes_def)
  moreover have "objects s' (live w)" using s'(2) by (auto simp: objects_def)
  ultimately show ?thesis
    using s'(1) kmalloc_spec_live [OF inv r] align_up_ge [of sz] L
    by (auto split: if_splits) (meson order_trans)
qed

lemma kfree_objects:
  assumes o: "objects s L" and p: "(p, k) \<in> L"
  shows "\<exists>s'. kfree p s = Some s' \<and> objects s' (L - {(p, k)}) \<and>
    (\<forall>(q, j)\<in>L. \<forall>x\<in>region q j. mem s' x = mem s x)"
proof -
  obtain v hp ps where inv: "heap_inv s v hp ps" and L: "L = live v"
    using o by (auto simp: objects_def)
  have t: "tiled v" by (rule heap_inv_tiled [OF inv])
  have b: "(p - 48, k, False) \<in> set v" using p L by (simp add: live_iff)
  then have "p \<noteq> 0" using tiled_block_ok [OF t b] by auto
  then obtain s' where s': "kfree p s = Some s'" "heap_inv s' (free_view (p - 48) v) hp ps"
    "only_changes (header_bytes v) (mem s) (mem s')"
    using kfree_refines_spec [OF inv b] by metis
  have "live (free_view (p - 48) v) = L - {(p, k)}"
    using live_free_view [OF tiled_distinct [OF t] b] L by simp
  moreover have "mem s' x = mem s x" if "(q, j) \<in> L" "x \<in> region q j" for q j x
    using payload_headers [OF t, of q j] that s'(3) L by (auto simp: only_changes_def)
  ultimately show ?thesis using s' by (auto simp: objects_def)
qed

lemma objects_write:
  assumes o: "objects s L" and p: "(p, k) \<in> L" and w: "only_changes (region p k) (mem s) m"
  shows "objects (s\<lparr>mem := m\<rparr>) L"
proof -
  obtain v hp ps where inv: "heap_inv s v hp ps" and L: "L = live v"
    using o by (auto simp: objects_def)
  have t: "tiled v" by (rule heap_inv_tiled [OF inv])
  have "heap_rep m (heap_head s) (heap_tail s) v"
  proof (rule heap_rep_frame)
    show "heap_rep (mem s) (heap_head s) (heap_tail s) v" using inv by (simp add: heap_inv_def)
  qed (use payload_headers [OF t p [unfolded L]] w in \<open>auto simp: only_changes_def\<close>)
  from heap_inv_update [OF inv this only_changes_mono [OF w live_in_heap [OF t p [unfolded L]]]] L
  have "heap_inv (s\<lparr>mem := m, heap_tail := heap_tail s\<rparr>) v hp ps" by simp
  then show ?thesis using L unfolding objects_def by auto
qed

interpretation kheap: heap_allocator kmalloc kfree objects mem "\<lambda>m s. s\<lparr>mem := m\<rparr>"
proof (unfold_locales, goal_cases)
  case (2 s L n) then show ?case by (rule kmalloc_objects)
next
  case (3 s L p k) then show ?case by (simp add: kfree_objects)
next
  case (4 s L p k m) then show ?case by (rule objects_write)
next
  case (5 s L p k q j) then show ?case
    by (auto simp: objects_def dest: live_disjoint [OF heap_inv_tiled, rotated 3])
next
  case (6 s L p k j) then show ?case
    by (auto simp: objects_def dest: live_unique [OF heap_inv_tiled])
qed simp

section \<open>Properties\<close>

text \<open>An empty heap over three free pages.\<close>

definition empty_heap :: heap_state where
  "empty_heap = page_state.extend three_pages \<lparr>heap_head = 0, heap_tail = 0\<rparr>"

lemma empty_heap_inv: "heap_inv empty_heap [] [] [0x80202000, 0x80201000, 0x80200000]"
  using three_pages_inv
  by (simp add: heap_inv_def empty_heap_def page_state.extend_def heap_rep_def tiled_def heap_bytes_def
      page_inv_def page_ok_def)

text \<open>
  C2: \<open>kmalloc\<close> always returns, keeps the heap well formed and implements first fit: it takes the
  first free block that is large enough, splits it when at least a header and 16 bytes are left
  over, takes a page from the frame allocator when no block fits, and returns null exactly when
  the size is zero, the aligned size exceeds what a page holds, or no page is left. It writes block
  headers, free-list nodes and the new page only.
\<close>

theorem kmalloc_refines:
  assumes "heap_inv s v hp ps"
  shows "case kmalloc_spec sz (v, hp, ps) of (p, w, hp', ps') \<Rightarrow>
    \<exists>s'. kmalloc sz s = Some (p, s') \<and> heap_inv s' w hp' ps' \<and>
      only_changes (kmalloc_foot s w ps) (mem s) (mem s')"
proof -
  obtain p w hp' ps' where r: "kmalloc_spec sz (v, hp, ps) = (p, w, hp', ps')"
    by (cases "kmalloc_spec sz (v, hp, ps)") auto
  then show ?thesis using kmalloc_refines_spec [OF assms r] by (auto; metis)
qed

theorem kmalloc_refines_witness:
  "\<exists>s'. kmalloc 100 empty_heap = Some (0x80202030, s') \<and>
     heap_inv s' [(0x80202000, 112, False), (0x802020A0, 3888, True)] [0x80202000]
       [0x80201000, 0x80200000]"
  using kmalloc_refines [OF empty_heap_inv, of 100]
  by (simp add: kmalloc_spec_def align_up_def take_block_def) blast

text \<open>
  C5: freeing an object in use never panics, keeps the heap well formed, and marks the block free
  and merges it with the neighbours that are free and adjacent; it writes block headers only.
\<close>

theorem kfree_refines:
  assumes "heap_inv s v hp ps" "(p - 48, z, False) \<in> set v"
  shows "\<exists>s'. kfree p s = Some s' \<and> heap_inv s' (free_view (p - 48) v) hp ps \<and>
    only_changes (header_bytes v) (mem s) (mem s')"
proof -
  have "p \<noteq> 0" using tiled_block_ok [OF heap_inv_tiled [OF assms(1)] assms(2)] by auto
  with kfree_refines_spec [OF assms] show ?thesis by metis
qed

theorem kfree_refines_witness:
  "\<exists>s s'. kmalloc 100 empty_heap = Some (0x80202030, s) \<and> kfree 0x80202030 s = Some s' \<and>
     heap_inv s' [(0x80202000, 4048, True)] [0x80202000] [0x80201000, 0x80200000]"
proof -
  obtain s where s: "kmalloc 100 empty_heap = Some (0x80202030, s)"
    "heap_inv s [(0x80202000, 112, False), (0x802020A0, 3888, True)] [0x80202000]
       [0x80201000, 0x80200000]"
    by (rule kmalloc_refines_spec [OF empty_heap_inv, of 100])
      (simp_all add: kmalloc_spec_def align_up_def take_block_def)
  from kfree_refines [OF s(2), of "0x80202030" 112]
  obtain s' where "kfree 0x80202030 s = Some s'"
    "heap_inv s' [(0x80202000, 4048, True)] [0x80202000] [0x80201000, 0x80200000]"
    by auto
  with s(1) show ?thesis by blast
qed

text \<open>
  C8: objects are isolated. What the owner of an object \<open>p\<close> writes into it, within its capacity,
  survives the allocation and release of any other object, and the heap is as before afterwards.
\<close>

theorem kmalloc_object_kept:
  assumes "objects s L" "(p, k) \<in> L" "only_changes (region p k) (mem s) m"
    and "kmalloc sz (s\<lparr>mem := m\<rparr>) = Some (q, s')" "q \<noteq> 0"
  shows "\<exists>s''. kfree q s' = Some s'' \<and> objects s'' L \<and> (\<forall>x\<in>region p k. mem s'' x = m x)"
  by (rule kheap.object_kept [OF assms])

theorem kmalloc_object_kept_witness:
  "\<exists>s1 s2 s3. kmalloc 100 empty_heap = Some (0x80202030, s1) \<and>
     kmalloc 100 (s1\<lparr>mem := (mem s1)(0x80202040 := 7)\<rparr>) = Some (0x802020D0, s2) \<and>
     kfree 0x802020D0 s2 = Some s3 \<and> mem s3 0x80202040 = 7"
proof -
  let ?v = "[(0x80202000, 112, False), (0x802020A0, 3888, True)]" and ?ps = "[0x80201000, 0x80200000]"
  obtain s1 where s1: "kmalloc 100 empty_heap = Some (0x80202030, s1)" "heap_inv s1 ?v [0x80202000] ?ps"
    by (rule kmalloc_refines_spec [OF empty_heap_inv, of 100])
      (simp_all add: kmalloc_spec_def align_up_def take_block_def)
  let ?m = "(mem s1)(0x80202040 := 7)"
  have o: "objects s1 {(0x80202030, 112)}" using s1(2) unfolding objects_def by fastforce
  have c: "only_changes (region 0x80202030 112) (mem s1) ?m"
    by (auto simp: only_changes_def region_iff)
  have h: "only_changes (heap_bytes ?v) (mem s1) ?m"
    by (auto simp: only_changes_def region_iff)
  have i: "heap_inv (s1\<lparr>mem := ?m, heap_tail := heap_tail s1\<rparr>) ?v [0x80202000] ?ps"
  proof (rule heap_inv_update [OF s1(2) _ h])
    show "heap_rep ?m (heap_head s1) (heap_tail s1) ?v"
      by (rule heap_rep_frame [of "mem s1"]) (use s1(2) in \<open>auto simp: heap_inv_def header_bytes_def region_iff\<close>)
  qed simp
  obtain s2 where s2: "kmalloc 100 (s1\<lparr>mem := ?m\<rparr>) = Some (0x802020D0, s2)"
    by (rule kmalloc_refines_spec [OF i, of 100]) (simp_all add: kmalloc_spec_def align_up_def take_block_def)
  from kmalloc_object_kept [OF o _ c s2] have "\<exists>s3. kfree 0x802020D0 s2 = Some s3 \<and> mem s3 0x80202040 = 7"
    by (force simp: region_iff)
  with s1(1) s2 show ?thesis by blast
qed

end
