(* ===== verification/Reclaim.thy ===== *)
theory Reclaim
  imports Task_Spec Kmalloc_Spec
begin

text \<open>
  Giving a task's memory back (src/kernel/task.c:100-134): which pages a task owns, and the proof
  that \<open>task_free\<close> never panics, always returns, and puts exactly these pages on the free list
  and the task structure back into the heap.
\<close>

section \<open>Giving pages back\<close>

text \<open>
  \<open>reclaims s ps F B s' ps'\<close>: going from \<open>s\<close> to \<open>s'\<close> the frames \<open>F\<close> joined the free list, and
  only the free list and the pages \<open>B\<close> were written.
\<close>

definition reclaims ::
  "'a page_state_scheme \<Rightarrow> ptr list \<Rightarrow> ptr set \<Rightarrow> ptr set \<Rightarrow> 'a page_state_scheme \<Rightarrow> ptr list \<Rightarrow> bool" where
  "reclaims s ps F B s' ps' \<longleftrightarrow> page_inv s' ps' \<and> set ps' = set ps \<union> F \<and> page_step s s' \<and>
     only_changes (page_foot s ps \<union> table_bytes B) (mem s) (mem s')"

lemma reclaims_refl: "page_inv s ps \<Longrightarrow> reclaims s ps {} B s ps"
  by (simp add: reclaims_def)

lemma reclaims_trans:
  assumes "reclaims s ps F B s1 ps1" "reclaims s1 ps1 G B s2 ps2" "F \<subseteq> B"
  shows "reclaims s ps (F \<union> G) B s2 ps2"
proof -
  have st: "page_step s s1" "page_step s1 s2" using assms by (simp_all add: reclaims_def)
  have "page_foot s1 ps1 \<subseteq> page_foot s ps \<union> table_bytes B"
    by (rule page_foot_sub) (use assms(1,3) page_step_fields(1) [OF st(1)] in \<open>auto simp: reclaims_def\<close>)
  then have "only_changes (page_foot s ps \<union> table_bytes B) (mem s1) (mem s2)"
    using assms(2) by (auto simp: reclaims_def elim: only_changes_mono)
  with assms page_step_trans [OF st] show ?thesis
    by (auto simp: reclaims_def intro: only_changes_trans')
qed

lemma reclaims_mono: "reclaims s ps F A s' ps' \<Longrightarrow> A \<subseteq> B \<Longrightarrow> reclaims s ps F B s' ps'"
  by (auto simp: reclaims_def elim!: only_changes_mono intro: table_bytes_mono [THEN subsetD])

lemma reclaims_page_free:
  assumes "page_inv s ps" "page_ok s p" "p \<notin> set ps"
  obtains s' where "page_free p s = Some s'" "reclaims s ps {p} {p} s' (p # ps)"
proof -
  obtain s' where s': "page_free p s = Some s'" "page_inv s' (p # ps)" "page_step s s'"
    "only_changes (page_foot s (p # ps)) (mem s) (mem s')"
    using page_free_Cons [OF assms] by blast
  have "page_foot s (p # ps) \<subseteq> page_foot s ps \<union> table_bytes {p}"
    by (rule page_foot_sub) auto
  then have "reclaims s ps {p} {p} s' (p # ps)"
    unfolding reclaims_def using s' only_changes_mono by auto
  with s'(1) show thesis by (rule that)
qed

text \<open>What stays as it was: bytes of pages that are neither free nor written.\<close>

lemma reclaims_keeps:
  assumes "reclaims s ps F B s' ps'" "page_inv s ps" "frames_ok s C" "frames_ok s B" "C \<inter> B = {}" "C \<inter> set ps = {}"
    "x \<in> table_bytes C"
  shows "mem s' x = mem s x"
proof -
  have "page_foot s ps \<inter> table_bytes C = {}"
    by (rule foot_disjoint_tables [OF assms(2,3)]) (use assms(6) in blast)
  moreover have "table_bytes B \<inter> table_bytes C = {}"
    by (rule table_bytes_disjoint) (use assms(3-5) frames_ok_aligned in blast)+
  ultimately show ?thesis using assms(1,7) by (auto simp: reclaims_def only_changes_def)
qed

section \<open>The pages of a user image\<close>

fun image_list :: "memory \<Rightarrow> ptr \<Rightarrow> u64 \<Rightarrow> nat \<Rightarrow> ptr list" where
  "image_list m root addr 0 = []"
| "image_list m root addr (Suc n) =
     (if pte_present (plookup m 2 root addr) then [pte_to_pa (plookup m 2 root addr)] else []) @
     image_list m root (addr + 4096) n"

lemma image_list_cong:
  assumes "\<And>x. in_pages addr n x \<Longrightarrow> plookup m' 2 root x = plookup m 2 root' x" "unat addr + 4096 * n < 2 ^ 64"
  shows "image_list m' root addr n = image_list m root' addr n"
  using assms
proof (induction n arbitrary: addr)
  case (Suc n)
  have a: "unat (addr + 4096) = unat addr + 4096" using Suc.prems(2) by (simp add: unat_word_ariths)
  have "plookup m' 2 root addr = plookup m 2 root' addr" using Suc.prems(1) by (simp add: in_pages_def)
  moreover have "image_list m' root (addr + 4096) n = image_list m root' (addr + 4096) n"
    by (rule Suc.IH) (use Suc.prems a in \<open>auto simp: in_pages_def\<close>)
  ultimately show ?case by simp
qed simp

lemma pwf_leaf: "pwf m l t \<Longrightarrow> pte_present (plookup m l t va) \<Longrightarrow> pte_leaf (plookup m l t va)"
proof (induction l arbitrary: t)
  case 0
  then show ?case using vpn_index_less by (auto simp: kids_def)
next
  case (Suc l)
  then have p: "pte_present (ent m t (vpn_index (Suc l) va))" by (auto split: if_splits)
  then have "vpn_index (Suc l) va \<in> kids m t" by (simp add: kids_def vpn_index_less)
  then show ?case using Suc p by auto
qed

lemma slot_region: "pslot m l t va \<noteq> 0 \<Longrightarrow> region (pslot m l t va) 8 \<subseteq> table_bytes (ptables m l t)"
proof (induction l arbitrary: t)
  case 0
  then show ?case using pte_region [OF vpn_index_less] by (simp add: table_bytes_def)
next
  case (Suc l)
  then have p: "pte_present (ent m t (vpn_index (Suc l) va))" by (auto split: if_splits)
  then have k: "vpn_index (Suc l) va \<in> kids m t" by (simp add: kids_def vpn_index_less)
  have "region (pslot m (Suc l) t va) 8 \<subseteq> table_bytes (ptables m l (child m t (vpn_index (Suc l) va)))"
    using Suc p by simp
  also have "\<dots> \<subseteq> table_bytes (ptables m (Suc l) t)" by (rule table_bytes_mono [OF ptables_child [OF k]])
  finally show ?case .
qed

lemma free_user_loop_ok:
  assumes "page_inv s ps" "pwf (mem s) 2 root" "ptables (mem s) 2 root = T"
    and "frames_ok s (T \<union> set I \<union> set ps)" "T \<inter> set I = {}" "T \<inter> set ps = {}" "set I \<inter> set ps = {}" "distinct I"
    and "I = image_list (mem s) root addr n" "page_aligned addr" "unat e = unat addr + 4096 * n" "unat e \<le> 2 ^ 38"
  shows "\<exists>s' ps'. free_user_loop root addr e s = Some s' \<and> reclaims s ps (set I) (T \<union> set I) s' ps' \<and>
    pwf (mem s') 2 root \<and> ptables (mem s') 2 root = T"
  using assms
proof (induction n arbitrary: addr s ps I)
  case 0
  then have "e = addr" by (auto intro: unsigned_word_eqI)
  then have "free_user_loop root addr e s = Some s" by (simp add: free_user_loop.simps)
  with 0 show ?case by (auto intro!: reclaims_refl)
next
  case (Suc n)
  have ae: "addr < e" and a4: "unat (addr + 4096) = unat addr + 4096"
    using Suc.prems(11,12) by (simp_all add: word_less_nat_alt unat_word_ariths)
  have am: "addr < MAXVA" unfolding less_MAXVA using Suc.prems(11,12) by simp
  let ?r = "pslot (mem s) 2 root addr" and ?v = "plookup (mem s) 2 root addr"
  have rt: "root \<in> T" using ptables_root [of root "mem s" 2] Suc.prems(3) by simp
  have root0: "root \<noteq> 0" using rt Suc.prems(4) by (auto simp: frames_ok_def page_ok_def)
  have w: "pgtable_walk root addr False s = Some (?r, s)"
    using am root0 walk_lookup [OF Suc.prems(2)] by (simp add: pgtable_walk_def)
  have al: "page_aligned (addr + 4096)" "unat e = unat (addr + 4096) + 4096 * n"
    using Suc.prems(10,11) a4 page_aligned_add by simp_all
  have fT: "frames_ok s (ptables (mem s) 2 root)" using Suc.prems(3,4) by (simp add: frames_ok_Un)
  show ?case
  proof (cases "pte_present ?v")
    case False
    have "?r = 0 \<or> \<not> pte_present (load64 (mem s) ?r)" using False plookup_slot by metis
    then have loop: "free_user_loop root addr e s = free_user_loop root (addr + 4096) e s"
      using ae w by (auto simp: free_user_loop.simps [of root addr])
    have "I = image_list (mem s) root (addr + 4096) n" using Suc.prems(9) False by simp
    from Suc.IH [OF Suc.prems(1-8) this al Suc.prems(12)] show ?thesis unfolding loop .
  next
    case True
    define pa J where "pa = pte_to_pa ?v" and "J = image_list (mem s) root (addr + 4096) n"
    have I: "I = pa # J" using Suc.prems(9) True by (simp add: pa_def J_def)
    have r0: "?r \<noteq> 0" using present_slot [OF fT True] .
    have ld: "load64 (mem s) ?r = ?v" using plookup_slot [OF r0] by simp
    have lf: "pte_leaf ?v" using pwf_leaf [OF Suc.prems(2) True] .
    have pok: "page_ok s pa" "pa \<notin> set ps" using Suc.prems(4,7) I by (auto simp: frames_ok_def)
    obtain s1 where s1: "page_free pa s = Some s1" "reclaims s ps {pa} {pa} s1 (pa # ps)"
      using reclaims_page_free [OF Suc.prems(1) pok] by blast
    have st1: "page_step s s1" using s1(2) by (simp add: reclaims_def)
    have keep: "mem s1 x = mem s x" if "x \<in> table_bytes T" for x
      by (rule reclaims_keeps [OF s1(2) Suc.prems(1) _ _ _ _ that])
        (use Suc.prems(4-7) I in \<open>auto simp: frames_ok_Un frames_ok_def\<close>)
    have tree: "ptables (mem s1) 2 root = T" "pwf (mem s1) 2 root" "pslot (mem s1) 2 root y = pslot (mem s) 2 root y"
      "plookup (mem s1) 2 root y = plookup (mem s) 2 root y" for y
      using tree_frame [of "mem s" 2 root "mem s1" y] keep Suc.prems(2,3) by auto
    have inv1: "pt_inv s1 root (pa # ps)"
      using s1(2) tree(1,2) Suc.prems(4-6) I frames_ok_step [OF st1]
      by (auto simp: pt_inv_def reclaims_def frames_ok_def)
    let ?s2 = "s1\<lparr>mem := store64 ?r 0 (mem s1)\<rparr>"
    have L: "pt_step s1 root (pa # ps) ?s2 (pa # ps)"
      "\<And>x. pget ?s2 root x = (if same_page 2 addr x then 0 else pget s root x)"
      using leaf_root [OF inv1, of addr 0] r0 tree(3,4) by simp_all
    have T2: "page_inv ?s2 (pa # ps)" "pwf (mem ?s2) 2 root" "ptables (mem ?s2) 2 root = T"
      using L(1) tree(1) by (auto simp: pt_step_def pt_inv_def)
    have slotT: "region ?r 8 \<subseteq> table_bytes T"
      using slot_region [OF r0] Suc.prems(3) by simp
    have rec2: "reclaims s1 (pa # ps) {} T ?s2 (pa # ps)"
      unfolding reclaims_def using T2(1) slotT
      by (auto intro!: only_changes_store64 page_step_mem)
    have rec: "reclaims s ps {pa} (T \<union> set I) ?s2 (pa # ps)"
      using reclaims_trans [OF reclaims_mono [OF s1(2)] reclaims_mono [OF rec2], of "T \<union> set I"] I by auto
    have J2: "J = image_list (mem ?s2) root (addr + 4096) n"
      unfolding J_def
    proof (rule image_list_cong)
      fix x assume x: "in_pages (addr + 4096) n x"
      have xm: "x < MAXVA" unfolding less_MAXVA using x a4 Suc.prems(11,12) by (simp add: in_pages_def)
      have "\<not> same_page 2 addr x" using x same_page_pages [OF Suc.prems(10) am xm] a4 by (simp add: in_pages_def)
      then show "pget s root x = pget ?s2 root x" using L(2) by simp
    next
      show "unat (addr + 4096) + 4096 * n < 2 ^ 64" using al(2) Suc.prems(12) by simp
    qed
    have fr2: "frames_ok ?s2 = frames_ok s"
      using frames_ok_step [OF page_step_mem [OF st1]] by simp
    obtain s' ps' where ih: "free_user_loop root (addr + 4096) e ?s2 = Some s'" "reclaims ?s2 (pa # ps) (set J) (T \<union> set J) s' ps'"
      "pwf (mem s') 2 root" "ptables (mem s') 2 root = T"
      using Suc.IH [OF T2 _ _ _ _ _ J2 al Suc.prems(12)] Suc.prems(4-8) I unfolding fr2 by (auto simp: frames_ok_def)
    have "reclaims s ps ({pa} \<union> set J) (T \<union> set I) s' ps'"
      by (rule reclaims_trans [OF rec reclaims_mono [OF ih(2)]]) (auto simp: I)
    moreover have "free_user_loop root addr e s = free_user_loop root (addr + 4096) e ?s2"
      using ae w r0 ld True lf s1(1) by (simp add: free_user_loop.simps [of root addr] pa_def)
    ultimately show ?thesis using ih by (auto simp: I)
  qed
qed

section \<open>What a heap operation may change besides memory\<close>

definition heap_step :: "'a heap_state_scheme \<Rightarrow> 'a heap_state_scheme \<Rightarrow> bool" where
  "heap_step s s' \<longleftrightarrow> (\<exists>m n h t. s' = s\<lparr>mem := m, nr_free_pages := n, heap_head := h, heap_tail := t\<rparr>)"

lemma heap_step_refl [simp]: "heap_step s s"
  unfolding heap_step_def
  by (rule exI [of _ "mem s"], rule exI [of _ "nr_free_pages s"], rule exI [of _ "heap_head s"],
    rule exI [of _ "heap_tail s"]) simp

lemma heap_step_trans: "heap_step s s' \<Longrightarrow> heap_step s' s'' \<Longrightarrow> heap_step s s''"
  unfolding heap_step_def by (elim exE, hypsubst, simp, blast)

lemma page_heap_step: "page_step s s' \<Longrightarrow> heap_step s s'"
proof -
  assume "page_step s s'"
  then obtain m n where "s' = s\<lparr>mem := m, nr_free_pages := n\<rparr>" by (auto simp: page_step_def)
  then have "s' = s\<lparr>mem := m, nr_free_pages := n, heap_head := heap_head s, heap_tail := heap_tail s\<rparr>" by simp
  then show ?thesis unfolding heap_step_def by blast
qed

lemma heap_step_mem: "heap_step s (s\<lparr>mem := m\<rparr>)"
  by (rule page_heap_step) (rule page_step_mem, simp)

lemma heap_stepI:
  "heap_step s (s\<lparr>mem := m\<rparr>)" "heap_step s (s\<lparr>mem := m, heap_tail := t\<rparr>)"
proof -
  have "s\<lparr>mem := m, heap_tail := t\<rparr> =
    s\<lparr>mem := m, nr_free_pages := nr_free_pages s, heap_head := heap_head s, heap_tail := t\<rparr>" by simp
  then show "heap_step s (s\<lparr>mem := m, heap_tail := t\<rparr>)" unfolding heap_step_def by blast
qed (rule heap_step_mem)

lemma merge_step: "heap_step s (merge_with_next b s)"
  by (auto simp: merge_with_next_def Let_def intro: heap_stepI)

lemma kfree_step: "kfree p s = Some s' \<Longrightarrow> heap_step s s'"
  using heap_step_trans [OF heap_step_mem heap_step_trans [OF merge_step merge_step]]
    heap_step_trans [OF heap_step_mem merge_step]
  by (auto simp: kfree_def Let_def split: if_splits)

lemma heap_step_fields:
  "heap_step s s' \<Longrightarrow> free_page_list s' = free_page_list s" "heap_step s s' \<Longrightarrow> page_ok s' = page_ok s"
  "heap_step s s' \<Longrightarrow> frames_ok s' = frames_ok s"
  by (auto simp: heap_step_def page_ok_def frames_ok_def fun_eq_iff)

section \<open>The pages of a task\<close>

definition image_pages :: "memory \<Rightarrow> ptr \<Rightarrow> ptr list" where
  "image_pages m t =
     image_list m (tget m t TPagetable) USER_TEXT_BASE (unat (tget m t TUserImageSize) div 4096)"

definition task_tables :: "memory \<Rightarrow> ptr \<Rightarrow> ptr set" where
  "task_tables m t = ptables m 2 (tget m t TPagetable)"

definition task_stacks :: "memory \<Rightarrow> ptr \<Rightarrow> ptr set" where
  "task_stacks m t = {tget m t TUserStackBase, tget m t TKernelStackBase}"

definition task_pages :: "memory \<Rightarrow> ptr \<Rightarrow> ptr set" where
  "task_pages m t = task_stacks m t \<union> task_tables m t \<union> set (image_pages m t)"

definition task_owns :: "'a page_state_scheme \<Rightarrow> ptr \<Rightarrow> bool" where
  "task_owns s t \<longleftrightarrow> (let m = mem s in
     frames_ok s (task_pages m t) \<and> pwf m 2 (tget m t TPagetable) \<and>
     tget m t TUserStackBase \<noteq> tget m t TKernelStackBase \<and> distinct (image_pages m t) \<and>
     task_stacks m t \<inter> (task_tables m t \<union> set (image_pages m t)) = {} \<and>
     task_tables m t \<inter> set (image_pages m t) = {} \<and>
     page_aligned (tget m t TUserImageSize) \<and> unat (tget m t TUserImageSize) \<le> 2 ^ 38 - 2 ^ 16)"

definition page_fields :: "task_field set" where
  "page_fields = {TUserStackBase, TKernelStackBase, TPagetable, TUserImageSize}"

lemma task_pages_cong:
  assumes f: "\<And>f. f \<in> page_fields \<Longrightarrow> tget m' t f = tget m t f"
    and m: "\<And>x. x \<in> table_bytes (task_tables m t) \<Longrightarrow> m' x = m x"
  shows "task_tables m' t = task_tables m t" "image_pages m' t = image_pages m t"
    "task_stacks m' t = task_stacks m t" "task_pages m' t = task_pages m t"
    "pwf m' 2 (tget m' t TPagetable) = pwf m 2 (tget m t TPagetable)"
proof -
  note T = tree_frame [of m 2 "tget m t TPagetable" m', OF m, unfolded task_tables_def]
  have F: "tget m' t TUserStackBase = tget m t TUserStackBase" "tget m' t TKernelStackBase = tget m t TKernelStackBase"
    "tget m' t TPagetable = tget m t TPagetable" "tget m' t TUserImageSize = tget m t TUserImageSize"
    by (simp_all add: f page_fields_def)
  show a: "task_tables m' t = task_tables m t" "pwf m' 2 (tget m' t TPagetable) = pwf m 2 (tget m t TPagetable)"
    using T by (simp_all add: task_tables_def F)
  have "image_list m' r a n = image_list m r a n" if "r = tget m t TPagetable" for a n r
    using T that by (induction n arbitrary: a) simp_all
  then show b: "image_pages m' t = image_pages m t" by (simp add: image_pages_def F)
  show c: "task_stacks m' t = task_stacks m t" by (simp add: task_stacks_def F)
  show "task_pages m' t = task_pages m t" by (simp add: task_pages_def a b c)
qed

lemma task_owns_cong:
  assumes "task_owns s t" "frames_ok s' = frames_ok s" "\<And>f. f \<in> page_fields \<Longrightarrow> tget (mem s') t f = tget (mem s) t f"
    and m: "\<And>x. x \<in> table_bytes (task_tables (mem s) t) \<Longrightarrow> mem s' x = mem s x"
  shows "task_owns s' t"
proof -
  have F: "tget (mem s') t TUserStackBase = tget (mem s) t TUserStackBase"
    "tget (mem s') t TKernelStackBase = tget (mem s) t TKernelStackBase"
    "tget (mem s') t TUserImageSize = tget (mem s) t TUserImageSize"
    by (simp_all add: assms(3) page_fields_def)
  show ?thesis
    using assms(1) unfolding task_owns_def Let_def task_pages_cong [OF assms(3) m, simplified] F assms(2) .
qed

lemma freed_reclaims: "freed s ps T s' \<Longrightarrow> \<exists>ps'. reclaims s ps T T s' ps'"
  by (auto simp: freed_def reclaims_def)

lemma heap_inv_reclaims:
  assumes "heap_inv s v hp ps" "reclaims s ps F B s' ps'" "frames_ok s (set hp)" "frames_ok s B"
    "F \<subseteq> B" "B \<inter> set hp = {}"
  shows "heap_inv s' v hp ps'" "\<And>x. x \<in> heap_bytes v \<Longrightarrow> mem s' x = mem s x"
proof -
  have H: "page_inv s ps" "heap_rep (mem s) (heap_head s) (heap_tail s) v" "distinct hp"
    "\<forall>p\<in>set hp. page_ok s p \<and> p \<notin> set ps" "heap_bytes v = table_bytes (set hp)"
    using assms(1) by (auto simp: heap_inv_def table_bytes_def)
  have R: "page_inv s' ps'" "set ps' = set ps \<union> F" "page_step s s'" using assms(2) by (simp_all add: reclaims_def)
  show k: "mem s' x = mem s x" if "x \<in> heap_bytes v" for x
    by (rule reclaims_keeps [OF assms(2) H(1) assms(3,4)]) (use assms(6) H(4,5) that in auto)
  have hd: "heap_head s' = heap_head s" "heap_tail s' = heap_tail s" using R(3) by (auto simp: page_step_def)
  have "heap_rep (mem s') (heap_head s') (heap_tail s') v"
    unfolding hd by (rule heap_rep_frame [OF H(2)]) (use k header_in_heap [OF heap_rep_tiled [OF H(2)]] in blast)
  then show "heap_inv s' v hp ps'"
    using H R assms(5,6) page_step_fields(3) [OF R(3)] by (auto simp: heap_inv_def table_bytes_def)
qed


lemma live_task_region:
  assumes "tiled v" "(t - 48, z, False) \<in> set v" "128 \<le> z"
  shows "region t 128 \<subseteq> heap_bytes v" "t \<noteq> 0" "region t 128 \<inter> header_bytes v = {}"
proof -
  have ok: "block_ok (t - 48, z, False)" by (rule tiled_block_ok [OF assms(1,2)])
  have r: "region t 128 \<subseteq> region t z" by (rule region_mono [OF assms(3)])
  have "region t z \<subseteq> block_bytes (t - 48, z, False)" using payload_in_block [OF ok] by simp
  moreover have "block_bytes (t - 48, z, False) \<subseteq> heap_bytes v" unfolding heap_bytes_def using assms(2) by blast
  ultimately show "region t 128 \<subseteq> heap_bytes v" using r by blast
  show "t \<noteq> 0" using ok by auto
  have "(t, z) \<in> live v" using assms(2) by (simp add: live_iff)
  from payload_headers [OF assms(1) this] r show "region t 128 \<inter> header_bytes v = {}" by blast
qed

lemma task_free_ok:
  assumes inv: "heap_inv s v hp ps" and t: "(t - 48, z, False) \<in> set v" "128 \<le> z"
    and own: "task_owns s t" and fr: "frames_ok s (set hp \<union> set ps)"
    and dis: "task_pages (mem s) t \<inter> set ps = {}" "task_pages (mem s) t \<inter> set hp = {}"
  shows "\<exists>s' ps'. task_free t s = Some s' \<and> heap_inv s' (free_view (t - 48) v) hp ps' \<and>
    set ps' = set ps \<union> task_pages (mem s) t \<and> heap_step s s' \<and>
    only_changes (page_foot s ps \<union> table_bytes (task_pages (mem s) t) \<union> header_bytes v) (mem s) (mem s')"
proof -
  define us ks pt isz where "us = tget (mem s) t TUserStackBase" and "ks = tget (mem s) t TKernelStackBase"
    and "pt = tget (mem s) t TPagetable" and "isz = tget (mem s) t TUserImageSize"
  define T I P where "T = task_tables (mem s) t" and "I = image_pages (mem s) t" and "P = task_pages (mem s) t"
  have P: "P = {us, ks} \<union> T \<union> set I" by (simp add: P_def task_pages_def task_stacks_def us_def ks_def T_def I_def)
  have O: "frames_ok s P" "pwf (mem s) 2 pt" "us \<noteq> ks" "distinct I" "us \<notin> T" "us \<notin> set I" "ks \<notin> T" "ks \<notin> set I"
    "T \<inter> set I = {}" "page_aligned isz" "unat isz \<le> 2 ^ 38 - 2 ^ 16"
    using own unfolding task_owns_def Let_def task_stacks_def
    by (simp_all add: us_def ks_def pt_def isz_def T_def I_def P_def)
  have Td: "ptables (mem s) 2 pt = T" by (simp add: T_def task_tables_def pt_def)
  have tv: "tiled v" by (rule heap_inv_tiled [OF inv])
  have pinv: "page_inv s ps" using inv by (simp add: heap_inv_def)
  note tr = live_task_region [OF tv t]
  have D: "P \<inter> set ps = {}" "P \<inter> set hp = {}" using dis by (simp_all add: P_def)
  have nz: "us \<noteq> 0" "ks \<noteq> 0" "pt \<noteq> 0"
    using O(1) ptables_root [of pt "mem s" 2] unfolding Td P by (auto simp: frames_ok_def page_ok_def)
  have fields: "tget (mem s') t f = tget (mem s) t f" if "reclaims s ps F P s' ps'" "F \<subseteq> P" for s' ps' F f
  proof -
    have "mem s' x = mem s x" if "x \<in> heap_bytes v" for x
      using heap_inv_reclaims(2) [OF inv \<open>reclaims s ps F P s' ps'\<close> _ O(1) \<open>F \<subseteq> P\<close> D(2) that] fr
      by (simp add: frames_ok_Un)
    moreover have "region t 96 \<subseteq> heap_bytes v" using tr(1) region_mono [of 96 128 t] by auto
    ultimately show ?thesis by (intro task_field_cong) auto
  qed
  have pok: "page_ok s us" "page_ok s ks" using O(1) by (auto simp: P frames_ok_def)
  obtain s1 where s1: "page_free us s = Some s1" "reclaims s ps {us} {us} s1 (us # ps)"
    using reclaims_page_free [OF pinv pok(1)] D(1) P by blast
  have R1: "reclaims s ps {us} P s1 (us # ps)" by (rule reclaims_mono [OF s1(2)]) (simp add: P)
  have st1: "page_step s s1" using R1 by (simp add: reclaims_def)
  have keep1: "mem s1 x = mem s x" if "x \<in> table_bytes T" for x
    by (rule reclaims_keeps [OF s1(2) pinv _ _ _ _ that]) (use O D P in \<open>auto simp: frames_ok_def\<close>)
  have tree1: "ptables (mem s1) 2 pt = T" "pwf (mem s1) 2 pt"
    "\<And>x. plookup (mem s1) 2 pt x = plookup (mem s) 2 pt x"
    using tree_frame [of "mem s" 2 pt "mem s1"] keep1 Td O(2) by simp_all
  define n where "n = unat isz div 4096"
  have I1: "I = image_list (mem s1) pt USER_TEXT_BASE n"
  proof -
    have "image_list (mem s1) pt a k = image_list (mem s) pt a k" for a k
      by (induction k arbitrary: a) (simp_all add: tree1(3))
    then show ?thesis by (simp add: I_def image_pages_def pt_def isz_def n_def)
  qed
  have isz4: "unat isz = 4096 * n" using O(10) by (simp add: n_def page_aligned_iff)
  have e: "unat (USER_TEXT_BASE + isz) = unat USER_TEXT_BASE + 4096 * n" "unat (USER_TEXT_BASE + isz) \<le> 2 ^ 38"
    "page_aligned USER_TEXT_BASE"
    using isz4 O(11) by (simp_all add: unat_word_ariths USER_TEXT_BASE_def page_aligned_iff)
  have fr1: "frames_ok s1 = frames_ok s" by (rule frames_ok_step [OF st1])
  have step2: "\<exists>s2 ps2. (if tget (mem s1) t TPagetable \<noteq> 0 \<and> tget (mem s1) t TUserImageSize \<noteq> 0
      then task_free_user_pages (tget (mem s1) t TPagetable) USER_TEXT_BASE (tget (mem s1) t TUserImageSize) s1
      else Some s1) = Some s2 \<and> reclaims s1 (us # ps) (set I) (T \<union> set I) s2 ps2 \<and>
    pwf (mem s2) 2 pt \<and> ptables (mem s2) 2 pt = T"
  proof -
    have f: "tget (mem s1) t TPagetable = pt" "tget (mem s1) t TUserImageSize = isz"
      using fields [OF R1] P by (simp_all add: pt_def isz_def)
    have pi1: "page_inv s1 (us # ps)" using s1(2) by (simp add: reclaims_def)
    show ?thesis
    proof (cases "isz = 0")
      case True
      then have "I = []" by (simp add: I1 n_def)
      then show ?thesis using True f tree1 reclaims_refl [OF pi1] by auto
    next
      case False
      have "\<exists>s2 ps2. free_user_loop pt USER_TEXT_BASE (USER_TEXT_BASE + isz) s1 = Some s2 \<and>
        reclaims s1 (us # ps) (set I) (T \<union> set I) s2 ps2 \<and> pwf (mem s2) 2 pt \<and> ptables (mem s2) 2 pt = T"
        by (rule free_user_loop_ok [OF pi1 tree1(2,1) _ O(9) _ _ O(4) I1 e(3) e(1,2)])
          (use O D P fr in \<open>auto simp: fr1 frames_ok_def\<close>)
      then show ?thesis using False f nz by (simp add: task_free_user_pages_def)
    qed
  qed
  then obtain s2 ps2 where s2: "(if tget (mem s1) t TPagetable \<noteq> 0 \<and> tget (mem s1) t TUserImageSize \<noteq> 0
      then task_free_user_pages (tget (mem s1) t TPagetable) USER_TEXT_BASE (tget (mem s1) t TUserImageSize) s1
      else Some s1) = Some s2" "reclaims s1 (us # ps) (set I) (T \<union> set I) s2 ps2"
    "pwf (mem s2) 2 pt" "ptables (mem s2) 2 pt = T" by blast
  have R2: "reclaims s ps ({us} \<union> set I) P s2 ps2"
    by (rule reclaims_trans [OF R1 reclaims_mono [OF s2(2)]]) (auto simp: P)
  have st2: "page_step s s2" and pi2: "page_inv s2 ps2" and ps2: "set ps2 = set ps \<union> ({us} \<union> set I)"
    using R2 by (simp_all add: reclaims_def)
  have fr2: "frames_ok s2 = frames_ok s" "page_ok s2 = page_ok s"
    using frames_ok_step [OF st2] page_step_fields(3) [OF st2] by simp_all
  obtain s3 where s3: "page_free ks s2 = Some s3" "reclaims s2 ps2 {ks} {ks} s3 (ks # ps2)"
    using reclaims_page_free [OF pi2, of ks] pok(2) D(1) O(3,8) P ps2 fr2(2) by auto
  have R3: "reclaims s ps ({us} \<union> set I \<union> {ks}) P s3 (ks # ps2)"
    by (rule reclaims_trans [OF R2 reclaims_mono [OF s3(2)]]) (auto simp: P)
  have st3: "page_step s s3" and pi3: "page_inv s3 (ks # ps2)" using R3 by (simp_all add: reclaims_def)
  have keep3: "mem s3 x = mem s2 x" if "x \<in> table_bytes T" for x
    by (rule reclaims_keeps [OF s3(2) pi2 _ _ _ _ that]) (use O D P ps2 in \<open>auto simp: fr2 frames_ok_def\<close>)
  have tree3: "ptables (mem s3) 2 pt = T" "pwf (mem s3) 2 pt"
    using tree_frame [of "mem s2" 2 pt "mem s3"] keep3 s2(3,4) by simp_all
  have "freeable s3 (ks # ps2) (ptables (mem s3) 2 pt)"
    using pi3 O D P ps2 fr unfolding tree3(1) freeable_def frames_ok_step [OF st3] by (auto simp: frames_ok_def)
  from free_tree [OF this tree3(2)] freed_reclaims
  obtain s4 ps4 where s4: "free_walk_from pt 0 s3 = Some s4" "reclaims s3 (ks # ps2) T T s4 ps4"
    unfolding tree3(1) by blast
  have R4: "reclaims s ps ({us} \<union> set I \<union> {ks} \<union> T) P s4 ps4"
    by (rule reclaims_trans [OF R3 reclaims_mono [OF s4(2)]]) (auto simp: P)
  have all: "{us} \<union> set I \<union> {ks} \<union> T = P" by (auto simp: P)
  note R = R4 [unfolded all]
  have h4: "heap_inv s4 v hp ps4"
    by (rule heap_inv_reclaims(1) [OF inv R _ O(1) subset_refl D(2)]) (use fr in \<open>simp add: frames_ok_Un\<close>)
  obtain s5 where s5: "kfree t s4 = Some s5" "heap_inv s5 (free_view (t - 48) v) hp ps4"
    "only_changes (header_bytes v) (mem s4) (mem s5)"
    using kfree_refines_spec [OF h4 t(1) tr(2)] by blast
  have f: "tget (mem s) t TUserStackBase = us" "tget (mem s2) t TKernelStackBase = ks" "tget (mem s3) t TPagetable = pt"
    using fields [OF R2] fields [OF R3] P by (auto simp: us_def ks_def pt_def)
  have "task_free t s = Some s5"
    unfolding task_free_def using f s1(1) s2(1) s3(1) s4(1) s5(1) nz by (simp add: pgtable_free_walk_def)
  moreover have "heap_step s s5"
    using heap_step_trans [OF page_heap_step kfree_step [OF s5(1)]] R by (auto simp: reclaims_def)
  moreover have "set ps4 = set ps \<union> P" using R by (simp add: reclaims_def)
  moreover have "only_changes (page_foot s ps \<union> table_bytes P \<union> header_bytes v) (mem s) (mem s5)"
    using only_changes_trans [OF _ s5(3)] R unfolding reclaims_def by blast
  ultimately show ?thesis using s5(2) unfolding P_def by blast
qed

end
