(* ===== verification/Kernel_Inv.thy ===== *)
theory Kernel_Inv
  imports Reclaim
begin

text \<open>
  The invariant \<open>kinv\<close> that ties the heap, the free page list, the list of all tasks, the run
  queue and the page tables of the tasks together, what keeps it (writing a task's fields, taking
  a task off a list, freeing a task) and \<open>task_reap_zombies\<close> (src/kernel/task.c:136-155), which
  frees exactly the dead tasks.
\<close>

section \<open>The kernel's invariant\<close>

definition owned :: "memory \<Rightarrow> ptr list \<Rightarrow> ptr set" where
  "owned m as = (\<Union>t\<in>set as. task_pages m t)"

definition heads_ok :: "'a task_state_scheme \<Rightarrow> ptr set \<Rightarrow> bool" where
  "heads_ok s X \<longleftrightarrow> sep (all_tasks s) 16 (run_queue s) 16 \<and> sep (all_tasks s) 16 (free_page_list s) 16 \<and>
     sep (run_queue s) 16 (free_page_list s) 16 \<and>
     (\<forall>p\<in>X. sep (all_tasks s) 16 p 4096 \<and> sep (run_queue s) 16 p 4096)"

definition kinv ::
  "'a task_state_scheme \<Rightarrow> kblock list \<Rightarrow> ptr list \<Rightarrow> ptr list \<Rightarrow> ptr list \<Rightarrow> ptr list \<Rightarrow> bool" where
  "kinv s v hp ps as ts \<longleftrightarrow>
     heap_inv s v hp ps \<and> frames_ok s (set hp \<union> set ps) \<and>
     (\<forall>t\<in>set as. (\<exists>z. (t, z) \<in> live v \<and> 128 \<le> z) \<and> task_owns s t \<and>
        task_pages (mem s) t \<inter> (set ps \<union> set hp) = {}) \<and>
     (\<forall>t\<in>set as. \<forall>u\<in>set as. t \<noteq> u \<longrightarrow> task_pages (mem s) t \<inter> task_pages (mem s) u = {}) \<and>
     heads_ok s (set hp \<union> set ps \<union> owned (mem s) as) \<and>
     dlist (mem s) (all_tasks s) (map task_node as) \<and> dlist (mem s) (run_queue s) (map run_node ts) \<and>
     set ts \<subseteq> set as \<and> unat (nr_runnable s) = length ts"

lemma kinv_heap: "kinv s v hp ps as ts \<Longrightarrow> heap_inv s v hp ps \<and> page_inv s ps \<and> tiled v"
  by (simp add: kinv_def heap_inv_def heap_rep_def)

lemma kinv_live:
  assumes "kinv s v hp ps as ts" "t \<in> set as"
  obtains z where "(t - 48, z, False) \<in> set v" "128 \<le> z" "(t, z) \<in> live v"
  using assms that unfolding kinv_def live_iff by blast

lemma kinv_task_region:
  assumes "kinv s v hp ps as ts" "t \<in> set as"
  shows "region t 128 \<subseteq> table_bytes (set hp)" "t \<noteq> 0" "region t 128 \<inter> header_bytes v = {}"
proof -
  obtain z where z: "(t - 48, z, False) \<in> set v" "128 \<le> z" using kinv_live [OF assms] by blast
  have "tiled v" using kinv_heap [OF assms(1)] by blast
  note r = live_task_region [OF this z]
  have "heap_bytes v = table_bytes (set hp)" using kinv_heap [OF assms(1)] by (auto simp: heap_inv_def table_bytes_def)
  then show "region t 128 \<subseteq> table_bytes (set hp)" "t \<noteq> 0" "region t 128 \<inter> header_bytes v = {}" using r by auto
qed

lemma kinv_tsep:
  assumes k: "kinv s v hp ps as ts" and "t \<in> set as" "u \<in> set as"
  shows "tsep t u"
proof (cases "t = u")
  case False
  obtain y z where z: "(t, z) \<in> live v" "128 \<le> z" "(u, y) \<in> live v" "128 \<le> y"
    using kinv_live [OF k assms(2)] kinv_live [OF k assms(3)] by metis
  have "tiled v" using kinv_heap [OF k] by blast
  from live_disjoint [OF this z(1,3) False] have "region t 128 \<inter> region u 128 = {}"
    using region_mono [OF z(2)] region_mono [OF z(4)] by blast
  then have "sep t 128 u 128" by (rule disjoint_sep) simp_all
  then show ?thesis by (simp add: tsep_def)
qed simp

lemma kinv_frames: "kinv s v hp ps as ts \<Longrightarrow> frames_ok s (set hp \<union> set ps \<union> owned (mem s) as)"
  by (auto simp: kinv_def owned_def task_owns_def Let_def frames_ok_def)

lemma owned_disjoint: "kinv s v hp ps as ts \<Longrightarrow> owned (mem s) as \<inter> (set ps \<union> set hp) = {}"
  by (auto simp: kinv_def owned_def)

text \<open>The bytes of the heap pages and of the heads are apart from the free list and the owned pages.\<close>

lemma kinv_apart:
  assumes k: "kinv s v hp ps as ts"
  shows "table_bytes (set hp) \<inter> page_foot s ps = {}" "table_bytes (set hp) \<inter> table_bytes (owned (mem s) as) = {}"
    "page_foot s ps \<inter> table_bytes (owned (mem s) as) = {}"
    "h \<in> {all_tasks s, run_queue s} \<Longrightarrow> region h 16 \<inter> (page_foot s ps \<union> table_bytes (set hp \<union> owned (mem s) as)) = {}"
proof -
  have f: "frames_ok s (set hp)" "frames_ok s (owned (mem s) as)" using kinv_frames [OF k] by (simp_all add: frames_ok_Un)
  have pi: "page_inv s ps" using kinv_heap [OF k] by blast
  have dh: "set hp \<inter> set ps = {}" using kinv_heap [OF k] by (auto simp: heap_inv_def)
  note od = owned_disjoint [OF k]
  show "table_bytes (set hp) \<inter> page_foot s ps = {}" using foot_disjoint_tables [OF pi f(1) dh] by blast
  show "page_foot s ps \<inter> table_bytes (owned (mem s) as) = {}"
    by (rule foot_disjoint_tables [OF pi f(2)]) (use od in blast)
  show "table_bytes (set hp) \<inter> table_bytes (owned (mem s) as) = {}"
    by (rule table_bytes_disjoint) (use f od frames_ok_aligned in blast)+
  assume h: "h \<in> {all_tasks s, run_queue s}"
  have H: "heads_ok s (set hp \<union> set ps \<union> owned (mem s) as)" using k by (simp add: kinv_def)
  have p: "region h 16 \<inter> region p 4096 = {}" if "p \<in> set hp \<union> set ps \<union> owned (mem s) as" for p
    using H h that unfolding heads_ok_def by (intro sep_disjoint) blast
  then have "region h 16 \<inter> table_bytes (set hp \<union> set ps \<union> owned (mem s) as) = {}" unfolding table_bytes_def by blast
  moreover have "region h 16 \<inter> region (free_page_list s) 16 = {}"
    using H h unfolding heads_ok_def by (intro sep_disjoint) blast
  moreover have "page_foot s ps \<subseteq> region (free_page_list s) 16 \<union> table_bytes (set ps)"
    using page_foot_sub [of s s ps "[]" "set ps"] by (auto simp: node_bytes_def)
  ultimately show "region h 16 \<inter> (page_foot s ps \<union> table_bytes (set hp \<union> owned (mem s) as)) = {}"
    unfolding table_bytes_simps(3) by blast
qed

definition list_bytes :: "'a task_state_scheme \<Rightarrow> ptr list \<Rightarrow> u64 set" where
  "list_bytes s as = region (all_tasks s) 16 \<union> region (run_queue s) 16 \<union> (\<Union>t\<in>set as. region (t + 96) 32)"

lemma node_in_list:
  assumes "t \<in> set as"
  shows "region (task_node t) 16 \<subseteq> list_bytes s as" "region (run_node t) 16 \<subseteq> list_bytes s as"
proof -
  have e: "run_node t = t + 96 + 16" by (simp add: run_node_def)
  have "region (task_node t) 16 \<subseteq> region (t + 96) 32" unfolding task_node_def by (rule region_mono) simp
  moreover have "region (run_node t) 16 \<subseteq> region (t + 96) 32" unfolding e by (rule region_offset_subset) simp_all
  ultimately show "region (task_node t) 16 \<subseteq> list_bytes s as" "region (run_node t) 16 \<subseteq> list_bytes s as"
    using assms by (auto simp: list_bytes_def)
qed

lemma list_nodes_bytes:
  "node_bytes (set (all_tasks s # map task_node as)) \<subseteq> list_bytes s as"
  "set ts \<subseteq> set as \<Longrightarrow> node_bytes (set (run_queue s # map run_node ts)) \<subseteq> list_bytes s as"
  using node_in_list [of _ as s] by (auto simp: node_bytes_def list_bytes_def [of s as]) (use node_in_list in blast)+

lemma kinv_list_apart:
  assumes k: "kinv s v hp ps as ts"
  shows "list_bytes s as \<inter> (page_foot s ps \<union> header_bytes v \<union> table_bytes (owned (mem s) as)) = {}"
    "t \<in> set as \<Longrightarrow> list_bytes s as \<inter> region t 96 = {}"
proof -
  have "tiled v" using kinv_heap [OF k] by blast
  then have hb: "header_bytes v \<subseteq> table_bytes (set hp)"
    using header_in_heap [of v] kinv_heap [OF k] by (auto simp: heap_inv_def table_bytes_def)
  have r32: "region (t + 96) 32 \<subseteq> region t 128" for t by (rule region_offset_subset) simp_all
  have t: "region (t + 96) 32 \<inter> (page_foot s ps \<union> header_bytes v \<union> table_bytes (owned (mem s) as)) = {}"
    if "t \<in> set as" for t
    using kinv_task_region [OF k that] kinv_apart(1,2) [OF k] r32 [of t] by blast
  have h: "region h 16 \<inter> (page_foot s ps \<union> header_bytes v \<union> table_bytes (owned (mem s) as)) = {}"
    if "h \<in> {all_tasks s, run_queue s}" for h
    using kinv_apart(4) [OF k that] hb by (auto simp: table_bytes_def)
  show "list_bytes s as \<inter> (page_foot s ps \<union> header_bytes v \<union> table_bytes (owned (mem s) as)) = {}"
    using t h [of "all_tasks s"] h [of "run_queue s"] unfolding list_bytes_def by blast
  assume ta: "t \<in> set as"
  have r96: "region t 96 \<subseteq> region t 128" by (rule region_mono) simp
  have "region (u + 96) 32 \<inter> region t 96 = {}" if "u \<in> set as" for u
  proof -
    have "sep (u + 96) 32 (t + 0) 96" by (rule part_sep [OF kinv_tsep [OF k that ta]]) (simp_all add: sep_def)
    then show ?thesis using sep_disjoint by fastforce
  qed
  moreover have "region h 16 \<inter> region t 96 = {}" if "h \<in> {all_tasks s, run_queue s}" for h
    using kinv_apart(4) [OF k that] kinv_task_region(1) [OF k ta] r96 unfolding table_bytes_simps(3) by blast
  ultimately show "list_bytes s as \<inter> region t 96 = {}" unfolding list_bytes_def by blast
qed


definition same_heads :: "'a task_state_scheme \<Rightarrow> 'a task_state_scheme \<Rightarrow> bool" where
  "same_heads s s' \<longleftrightarrow> free_page_list s' = free_page_list s \<and> all_tasks s' = all_tasks s \<and> run_queue s' = run_queue s"

lemma same_heads_fields:
  assumes "same_heads s s'"
  shows "frames_ok s' = frames_ok s" "heads_ok s' = heads_ok s" "page_ok s' = page_ok s"
  using assms by (simp_all add: same_heads_def frames_ok_def page_ok_def heads_ok_def fun_eq_iff)

text \<open>
  The invariant for the tasks \<open>as'\<close> after some have been taken out or fields have been written, with
  the heap and the free list given anew.
\<close>

lemma kinv_update:
  assumes k: "kinv s v hp ps as ts" and as: "set as' \<subseteq> set as" and h: "same_heads s s'"
    and inv: "heap_inv s' v' hp ps'" "frames_ok s (set ps')" "set ps' \<subseteq> set ps \<union> owned (mem s) as"
    and dis: "set ps' \<inter> owned (mem s) as' = {}"
    and live: "\<And>t z. t \<in> set as' \<Longrightarrow> (t, z) \<in> live v \<Longrightarrow> (t, z) \<in> live v'"
    and m: "\<And>x. x \<in> table_bytes (owned (mem s) as') \<Longrightarrow> mem s' x = mem s x"
    and f: "\<And>t f. t \<in> set as' \<Longrightarrow> f \<in> page_fields \<Longrightarrow> tget (mem s') t f = tget (mem s) t f"
    and l: "dlist (mem s') (all_tasks s) (map task_node as')" "dlist (mem s') (run_queue s) (map run_node ts')"
    and ts: "set ts' \<subseteq> set as'" "unat (nr_runnable s') = length ts'"
  shows "kinv s' v' hp ps' as' ts'" "\<And>t. t \<in> set as' \<Longrightarrow> task_pages (mem s') t = task_pages (mem s) t"
proof -
  note H = same_heads_fields [OF h]
  have sub: "table_bytes (task_tables (mem s) t) \<subseteq> table_bytes (owned (mem s) as')" if "t \<in> set as'" for t
    by (rule table_bytes_mono) (use that in \<open>auto simp: owned_def task_pages_def\<close>)
  show P: "task_pages (mem s') t = task_pages (mem s) t" if "t \<in> set as'" for t
    by (rule task_pages_cong(4)) (use that f m sub in blast)+
  have mk: "mem s' x = mem s x" if "t \<in> set as'" "x \<in> table_bytes (task_tables (mem s) t)" for t x
    by (rule m) (use sub that in blast)
  have own: "task_owns s t" if "t \<in> set as'" for t using k as that unfolding kinv_def by blast
  have O: "task_owns s' t" if "t \<in> set as'" for t
    by (rule task_owns_cong [OF own [OF that] H(1) f [OF that] mk [OF that]])
  have ow: "owned (mem s') as' = owned (mem s) as'" using P by (simp add: owned_def)
  have own: "owned (mem s) as' \<subseteq> owned (mem s) as" using as by (auto simp: owned_def)
  note K = k [unfolded kinv_def]
  have heads: "heads_ok s' (set hp \<union> set ps' \<union> owned (mem s') as')"
    using K own inv(3) unfolding H ow heads_ok_def by blast
  have eq: "all_tasks s' = all_tasks s" "run_queue s' = run_queue s" using h by (simp_all add: same_heads_def)
  have lv: "\<exists>z. (t, z) \<in> live v' \<and> 128 \<le> z" if "t \<in> set as'" for t using K as that live by blast
  have dp: "task_pages (mem s') t \<inter> (set ps' \<union> set hp) = {}" if "t \<in> set as'" for t
    using dis K as that P by (auto simp: owned_def)
  have dd: "task_pages (mem s') t \<inter> task_pages (mem s') u = {}" if "t \<in> set as'" "u \<in> set as'" "t \<noteq> u" for t u
    using K as that P by blast
  have fr: "frames_ok s' (set hp \<union> set ps')" using K inv(2) by (simp add: H(1) frames_ok_Un)
  show "kinv s' v' hp ps' as' ts'"
    unfolding kinv_def eq by (intro conjI ballI impI inv(1) fr lv O dp dd heads l ts; assumption?)
qed

lemma task_lists_apart:
  assumes k: "kinv s v hp ps as ts"
  shows "node_bytes (set (all_tasks s # map task_node as)) \<inter> node_bytes (set (run_queue s # map run_node ts)) = {}"
proof -
  have sub: "set ts \<subseteq> set as" using k by (simp add: kinv_def)
  have e: "run_node t = t + 112" "task_node t = t + 96" for t by (simp_all add: run_node_def task_node_def)
  have 1: "region (task_node t) 16 \<inter> region (run_node u) 16 = {}" if "t \<in> set as" "u \<in> set ts" for t u
    unfolding e by (rule sep_disjoint, rule part_sep [OF kinv_tsep [OF k]]) (use that sub in \<open>auto simp: sep_def\<close>)
  have 2: "region h 16 \<inter> region (t + 96) 32 = {}" if "h \<in> {all_tasks s, run_queue s}" "t \<in> set as" for h t
  proof -
    have "region (t + 96) 32 \<subseteq> region t 128" by (rule region_offset_subset) simp_all
    then show ?thesis using kinv_apart(4) [OF k that(1)] kinv_task_region(1) [OF k that(2)]
      unfolding table_bytes_simps(3) by blast
  qed
  have r: "region (task_node t) 16 \<subseteq> region (t + 96) 32" "region (run_node t) 16 \<subseteq> region (t + 96) 32" for t
  proof -
    have "run_node t = t + 96 + 16" by (simp add: run_node_def)
    then show "region (run_node t) 16 \<subseteq> region (t + 96) 32" using region_offset_subset [of 16 32 16 "t + 96"] by simp
    show "region (task_node t) 16 \<subseteq> region (t + 96) 32" unfolding task_node_def by (rule region_mono) simp
  qed
  have "sep (all_tasks s) 16 (run_queue s) 16" using k by (simp add: kinv_def heads_ok_def)
  then have 3: "region (all_tasks s) 16 \<inter> region (run_queue s) 16 = {}" by (rule sep_disjoint)
  have 4: "region (all_tasks s) 16 \<inter> region (run_node u) 16 = {}" "region (run_queue s) 16 \<inter> region (task_node u) 16 = {}"
    if "u \<in> set as" for u using 2 [OF _ that] r [of u] by blast+
  show ?thesis using 1 3 4 sub by (auto simp: node_bytes_def) (use 4 sub in blast)+
qed

section \<open>Reaping\<close>

lemma heap_inv_mem:
  assumes "heap_inv s v hp ps" "\<And>x. x \<in> page_foot s ps \<union> header_bytes v \<Longrightarrow> m x = mem s x"
  shows "heap_inv (s\<lparr>mem := m\<rparr>) v hp ps"
proof -
  have "page_inv (s\<lparr>mem := m\<rparr>) ps"
    by (rule page_inv_frame [where S = "- page_foot s ps"]) (use assms in \<open>auto simp: heap_inv_def only_changes_def\<close>)
  moreover have "heap_rep m (heap_head s) (heap_tail s) v"
    by (rule heap_rep_frame [of "mem s"]) (use assms in \<open>auto simp: heap_inv_def\<close>)
  moreover have "page_ok (s\<lparr>mem := m\<rparr>) = page_ok s" by (simp add: page_ok_def fun_eq_iff)
  ultimately show ?thesis using assms(1) by (simp add: heap_inv_def)
qed

lemma dlist_map_distinct: "dlist m h (map (\<lambda>t. t + (c::u64)) xs) \<Longrightarrow> distinct xs"
  using dlist_distinct [of m h "map (\<lambda>t. t + c) xs"] by (simp add: distinct_map)

lemma kinv_distinct: "kinv s v hp ps as ts \<Longrightarrow> distinct as" "kinv s v hp ps as ts \<Longrightarrow> distinct ts"
  using dlist_map_distinct [of "mem s" "all_tasks s" task_node_off as] dlist_map_distinct [of "mem s" "run_queue s" run_node_off ts]
  by (simp_all add: kinv_def task_node_def [abs_def] run_node_def [abs_def])

definition same_task :: "memory \<Rightarrow> memory \<Rightarrow> ptr \<Rightarrow> bool" where
  "same_task m m' t \<longleftrightarrow> (\<forall>f. tget m' t f = tget m t f) \<and> tstate m' t = tstate m t \<and> task_pages m' t = task_pages m t"

lemma same_task_refl [simp]: "same_task m m t"
  by (simp add: same_task_def)

lemma same_task_trans: "same_task m m' t \<Longrightarrow> same_task m' m'' t \<Longrightarrow> same_task m m'' t"
  by (simp add: same_task_def)

lemma heap_same_heads:
  fixes s :: "'a task_state_scheme"
  shows "heap_step s s' \<Longrightarrow> same_heads s s'" "heap_step s s' \<Longrightarrow> nr_runnable s' = nr_runnable s"
    "heap_step s s' \<Longrightarrow> current s' = current s"
  by (auto simp: heap_step_def same_heads_def)


lemma unlink_changes:
  assumes "dlist m h (xs @ n # ys)"
  shows "only_changes (node_bytes (set (h # xs @ n # ys))) m (list_del n m)"
proof -
  have "last (h # xs) \<in> set (h # xs)" by (rule last_in_set) simp
  moreover have "hd (ys @ [h]) \<in> set (ys @ [h])" by (rule hd_in_set) simp
  ultimately have "{n, last (h # xs), hd (ys @ [h])} \<subseteq> set (h # xs @ n # ys)" by auto
  from only_changes_mono [OF list_del_changes [OF assms] node_bytes_mono [OF this]] show ?thesis .
qed

lemma reap_one:
  fixes s :: "'a task_state_scheme"
  assumes k: "kinv s v hp ps as ts" and as: "as = xs @ z # ys" and z: "z \<notin> set ts"
  shows "\<exists>s' v' ps'. task_free z (s\<lparr>mem := list_del (task_node z) (mem s)\<rparr>) = Some s' \<and>
    kinv s' v' hp ps' (xs @ ys) ts \<and> set ps' = set ps \<union> task_pages (mem s) z \<and> heap_step s s' \<and>
    (\<forall>u\<in>set (xs @ ys). same_task (mem s) (mem s') u)"
proof -
  define as' P where "as' = xs @ ys" and "P = task_pages (mem s) z"
  define s1 where "s1 = s\<lparr>mem := list_del (task_node z) (mem s)\<rparr>"
  have sub: "z \<in> set as" "set as' \<subseteq> set as" by (auto simp: as as'_def)
  have zn: "z \<notin> set as'" using kinv_distinct(1) [OF k] by (simp add: as as'_def)
  have ma: "map task_node as = map task_node xs @ task_node z # map task_node ys" by (simp add: as)
  note K = k [unfolded kinv_def]
  have dl: "dlist (mem s) (all_tasks s) (map task_node as)" "dlist (mem s) (run_queue s) (map run_node ts)"
    using K by blast+
  have c0: "only_changes (node_bytes (set (all_tasks s # map task_node as))) (mem s) (mem s1)"
    using unlink_changes [OF dl(1) [unfolded ma]] by (simp add: s1_def ma)
  have c1: "only_changes (list_bytes s as) (mem s) (mem s1)"
    by (rule only_changes_mono [OF c0 list_nodes_bytes(1)])
  note la = kinv_list_apart [OF k]
  have k1: "mem s1 x = mem s x" if "x \<in> page_foot s ps \<union> header_bytes v \<union> table_bytes (owned (mem s) as)" for x
    by (rule only_changesD [OF c1]) (use that la(1) in blast)
  have f1: "mem s1 x = mem s x" if "t \<in> set as" "x \<in> region t 96" for t x
    by (rule only_changesD [OF c1]) (use that la(2) [OF that(1)] in blast)
  have h0: "heap_inv s v hp ps" using K by blast
  have "list_del (task_node z) (mem s) x = mem s x" if "x \<in> page_foot s ps \<union> header_bytes v" for x
    using k1 [of x] that by (auto simp: s1_def)
  then have h1: "heap_inv s1 v hp ps" unfolding s1_def by (rule heap_inv_mem [OF h0])
  have fr1: "frames_ok s1 = frames_ok s" by (simp add: s1_def frames_ok_def page_ok_def fun_eq_iff)
  have tf1: "tget (mem s1) t f = tget (mem s) t f" "tstate (mem s1) t = tstate (mem s) t" if "t \<in> set as" for t f
    using task_field_cong [OF f1 [OF that]] by simp_all
  have tb: "table_bytes (task_tables (mem s) t) \<subseteq> table_bytes (owned (mem s) as)" if "t \<in> set as" for t
    by (rule table_bytes_mono) (use that in \<open>auto simp: owned_def task_pages_def\<close>)
  have own: "task_owns s z" "P \<inter> (set ps \<union> set hp) = {}" using K sub(1) unfolding P_def by blast+
  have mz: "mem s1 x = mem s x" if "x \<in> table_bytes (task_tables (mem s) z)" for x
    by (rule k1) (use that tb [OF sub(1)] in blast)
  have P1: "task_pages (mem s1) z = P" unfolding P_def by (rule task_pages_cong(4) [OF tf1(1) [OF sub(1)] mz])
  have O1: "task_owns s1 z" by (rule task_owns_cong [OF own(1) fr1 tf1(1) [OF sub(1)] mz])
  obtain zz where zz: "(z - 48, zz, False) \<in> set v" "128 \<le> zz" using kinv_live [OF k sub(1)] by blast
  have frs: "frames_ok s1 (set hp \<union> set ps)" using K unfolding fr1 by blast
  have d1: "task_pages (mem s1) z \<inter> set ps = {}" "task_pages (mem s1) z \<inter> set hp = {}" using own(2) unfolding P1 by blast+
  obtain s' ps' where s': "task_free z s1 = Some s'" "heap_inv s' (free_view (z - 48) v) hp ps'"
    "set ps' = set ps \<union> P" "heap_step s1 s'"
    "only_changes (page_foot s1 ps \<union> table_bytes P \<union> header_bytes v) (mem s1) (mem s')"
    using task_free_ok [OF h1 zz O1 frs d1] unfolding P1 by blast
  have foot: "page_foot s1 ps = page_foot s ps" by (simp add: s1_def)
  have Po: "P \<subseteq> owned (mem s) as" unfolding owned_def P_def by (rule UN_upper [OF sub(1)])
  have own2: "owned (mem s) as' \<subseteq> owned (mem s) as" unfolding owned_def by (rule UN_mono [OF sub(2)]) simp
  note Pown = table_bytes_mono [OF Po] and ow = table_bytes_mono [OF own2]
  have hs: "heap_step s s'" using heap_step_trans [OF heap_step_mem s'(4) [unfolded s1_def]] .
  have tv: "tiled v" using kinv_heap [OF k] by blast
  have dfst: "distinct (map fst v)" by (rule tiled_distinct [OF tv])
  have "P \<inter> task_pages (mem s) t = {}" if "t \<in> set as'" for t
  proof -
    have "t \<in> set as" "z \<noteq> t" using that sub(2) zn by blast+
    then show ?thesis using K sub(1) unfolding P_def by blast
  qed
  then have apart: "P \<inter> owned (mem s) as' = {}" unfolding owned_def by blast
  have fro: "frames_ok s (owned (mem s) as)" "frames_ok s (set ps)" using kinv_frames [OF k] by (simp_all add: frames_ok_Un)
  have t2: "table_bytes P \<inter> table_bytes (owned (mem s) as') = {}"
    by (rule table_bytes_disjoint [OF _ apart]) (use frames_ok_aligned [OF fro(1)] Po own2 in blast)
  have "heap_bytes v = table_bytes (set hp)" using kinv_heap [OF k] by (simp add: heap_inv_def table_bytes_def)
  then have hb: "header_bytes v \<subseteq> table_bytes (set hp)" using header_in_heap [OF tv] by simp
  define F where "F = page_foot s ps \<union> table_bytes P \<union> header_bytes v"
  have c2: "mem s' x = mem s1 x" if "x \<notin> F" for x
    by (rule only_changesD [OF s'(5)]) (use that foot in \<open>simp add: F_def\<close>)
  have Fo: "F \<inter> table_bytes (owned (mem s) as') = {}"
    using t2 ow kinv_apart(2,3) [OF k] hb unfolding F_def by blast
  have Fr: "F \<inter> region t 128 = {}" if "t \<in> set as" for t
    using kinv_task_region [OF k that] kinv_apart(1,2) [OF k] Pown unfolding F_def by blast
  have Fl: "F \<inter> list_bytes s as = {}"
    using la(1) Pown unfolding F_def by blast
  have m: "mem s' x = mem s x" if x: "x \<in> table_bytes (owned (mem s) as')" for x
  proof -
    have "x \<notin> F" using x Fo by blast
    moreover have "mem s1 x = mem s x" by (rule k1) (use x ow in blast)
    ultimately show ?thesis using c2 by simp
  qed
  have f2: "mem s' x = mem s x" if t: "t \<in> set as'" and x: "x \<in> region t 96" for t x
  proof -
    have ta: "t \<in> set as" using t sub(2) by blast
    have "x \<in> region t 128" using x region_mono [of 96 128 t] by auto
    then have "x \<notin> F" using Fr [OF ta] by blast
    then show ?thesis using c2 f1 [OF ta x] by simp
  qed
  have fl: "tget (mem s') t f = tget (mem s) t f" "tstate (mem s') t = tstate (mem s) t" if "t \<in> set as'" for t f
    using task_field_cong [OF f2 [OF that]] by simp_all
  have lsame: "mem s' x = mem s1 x" if "x \<in> list_bytes s as" for x
    by (rule c2) (use that Fl in blast)
  have ts: "set ts \<subseteq> set as" "unat (nr_runnable s) = length ts" using K by blast+
  have N': "node_bytes (set (all_tasks s # map task_node as')) \<subseteq> list_bytes s as"
  proof -
    have "node_bytes (set (all_tasks s # map task_node as')) \<subseteq> node_bytes (set (all_tasks s # map task_node as))"
      by (rule node_bytes_mono) (use sub(2) in auto)
    then show ?thesis using list_nodes_bytes(1) [of s as] by blast
  qed
  have l1: "dlist (mem s') (all_tasks s) (map task_node as')"
  proof (rule dlist_cong)
    show "dlist (mem s1) (all_tasks s) (map task_node as')"
      using dlist_del [OF dl(1) [unfolded ma]] by (simp add: s1_def as'_def)
    show "mem s' x = mem s1 x" if "x \<in> node_bytes (set (all_tasks s # map task_node as'))" for x
      by (rule lsame) (use that N' in blast)
  qed
  have l2: "dlist (mem s') (run_queue s) (map run_node ts)"
  proof (rule dlist_cong [OF dl(2)])
    fix x assume x: "x \<in> node_bytes (set (run_queue s # map run_node ts))"
    have "mem s1 x = mem s x"
      by (rule only_changesD [OF c0]) (use x task_lists_apart [OF k] in blast)
    moreover have "x \<in> list_bytes s as" using x list_nodes_bytes(2) [OF ts(1)] by blast
    ultimately show "mem s' x = mem s x" using lsame by simp
  qed
  have lv: "(t, y) \<in> live (free_view (z - 48) v)" if "t \<in> set as'" "(t, y) \<in> live v" for t y
  proof -
    have "t \<noteq> z" using that(1) zn by blast
    then show ?thesis using live_free_view [OF dfst zz(1)] that(2) by simp
  qed
  have sts: "set ts \<subseteq> set as'" using ts(1) z by (auto simp: as as'_def)
  have fps: "frames_ok s (set ps')" unfolding s'(3) frames_ok_Un by (intro conjI fro(2) frames_ok_mono [OF fro(1) Po])
  have sps: "set ps' \<subseteq> set ps \<union> owned (mem s) as" unfolding s'(3) using Po by blast
  have dps: "set ps' \<inter> owned (mem s) as' = {}" unfolding s'(3) using apart owned_disjoint [OF k] own2 by blast
  have nr: "unat (nr_runnable s') = length ts" using ts(2) heap_same_heads(2) [OF hs] by simp
  note KU = kinv_update [OF k sub(2) heap_same_heads(1) [OF hs] s'(2) fps sps dps lv m fl(1) l1 l2 sts nr]
  have "kinv s' (free_view (z - 48) v) hp ps' as' ts" by (rule KU(1))
  moreover have "\<forall>t\<in>set as'. same_task (mem s) (mem s') t" using KU(2) fl by (simp add: same_task_def)
  ultimately show ?thesis using s'(1,3) hs unfolding s1_def P_def as'_def by blast
qed

lemma dlist_next:
  assumes "dlist m h (xs @ n # ys)"
  shows "lnext m n = hd (ys @ [h])" "n \<noteq> h"
proof -
  obtain bs p q cs where e: "h # xs = bs @ [p]" "ys @ [h] = q # cs" by (metis append_Cons append_butlast_last_id list.discI neq_Nil_conv append_is_Nil_conv)
  have "(n # ys) @ [h] = n # q # cs" using e(2) by simp
  from dlist_split(3) [OF assms e(1) this] show "lnext m n = hd (ys @ [h])" using e(2) by simp
  show "n \<noteq> h" using dlist_distinct [OF assms] by auto
qed

lemma kinv_emit [simp]:
  fixes s :: "'a task_state_scheme"
  shows "kinv (emit s t) v hp ps as ts = kinv s v hp ps as ts"
proof -
  have f: "frames_ok (emit s t) = frames_ok s" for s :: "'a task_state_scheme"
    by (simp add: frames_ok_def page_ok_def fun_eq_iff)
  have h: "heap_inv (emit s t) v hp ps = heap_inv s v hp ps" for s :: "'a task_state_scheme"
    by (simp add: heap_inv_def page_inv_def page_ok_def)
  show ?thesis by (simp add: kinv_def h f task_owns_def heads_ok_def)
qed

definition dead :: "'a task_state_scheme \<Rightarrow> ptr \<Rightarrow> bool" where
  "dead s t \<longleftrightarrow> tstate (mem s) t = TASK_ZOMBIE \<and> t \<noteq> current s"

definition reap_step :: "'a task_state_scheme \<Rightarrow> 'a task_state_scheme \<Rightarrow> bool" where
  "reap_step s s' \<longleftrightarrow> (\<exists>m n h t u. s' = s\<lparr>mem := m, nr_free_pages := n, heap_head := h, heap_tail := t, uart_tx := uart_tx s @ u\<rparr>)"

lemma reap_step_refl [simp]: "reap_step s s"
  unfolding reap_step_def
  by (rule exI [of _ "mem s"], rule exI [of _ "nr_free_pages s"], rule exI [of _ "heap_head s"],
    rule exI [of _ "heap_tail s"], rule exI [of _ "[]"]) simp

lemma reap_step_one:
  fixes s :: "'a task_state_scheme"
  assumes "heap_step (emit s t) s'"
  shows "reap_step s s'"
proof -
  obtain m n h k where e: "s' = (emit s t)\<lparr>mem := m, nr_free_pages := n, heap_head := h, heap_tail := k\<rparr>"
    using assms unfolding heap_step_def by blast
  show ?thesis unfolding reap_step_def
    by (rule exI [of _ m], rule exI [of _ n], rule exI [of _ h], rule exI [of _ k], rule exI [of _ t]) (simp add: e)
qed

lemma reap_step_trans:
  fixes s :: "'a task_state_scheme"
  assumes "reap_step s s'" "reap_step s' s''"
  shows "reap_step s s''"
proof -
  obtain m n h k t where e: "s' = s\<lparr>mem := m, nr_free_pages := n, heap_head := h, heap_tail := k, uart_tx := uart_tx s @ t\<rparr>"
    using assms(1) unfolding reap_step_def by blast
  obtain m' n' h' k' t' where e': "s'' = s'\<lparr>mem := m', nr_free_pages := n', heap_head := h', heap_tail := k', uart_tx := uart_tx s' @ t'\<rparr>"
    using assms(2) unfolding reap_step_def by blast
  show ?thesis unfolding reap_step_def
    by (rule exI [of _ m'], rule exI [of _ n'], rule exI [of _ h'], rule exI [of _ k'], rule exI [of _ "t @ t'"])
      (simp add: e e')
qed

lemma reap_step_fields:
  fixes s :: "'a task_state_scheme"
  assumes "reap_step s s'"
  shows "current s' = current s" "all_tasks s' = all_tasks s" "run_queue s' = run_queue s"
    "nr_runnable s' = nr_runnable s" "free_page_list s' = free_page_list s" "next_pid s' = next_pid s"
    "csr_satp s' = csr_satp s"
  using assms by (auto simp: reap_step_def)

lemma dead_cong: "same_task (mem s) (mem s') t \<Longrightarrow> current s' = current s \<Longrightarrow> dead s' t = dead s t"
  by (simp add: dead_def same_task_def)

lemma owned_cong: "(\<And>t. t \<in> set xs \<Longrightarrow> same_task m m' t) \<Longrightarrow> owned m' xs = owned m xs"
  by (simp add: owned_def same_task_def)

lemma reap_loop_ok:
  fixes s :: "'a task_state_scheme"
  assumes "kinv s v hp ps (xs @ ys) ts" "\<And>t. t \<in> set ys \<Longrightarrow> dead s t \<Longrightarrow> t \<notin> set ts"
  shows "\<exists>s' v' ps'.
    reap_loop (hd (map task_node ys @ [all_tasks s])) (lnext (mem s) (hd (map task_node ys @ [all_tasks s]))) s = Some s' \<and>
    kinv s' v' hp ps' (xs @ filter (\<lambda>t. \<not> dead s t) ys) ts \<and> reap_step s s' \<and>
    set ps' = set ps \<union> owned (mem s) (filter (dead s) ys) \<and>
    (\<forall>t\<in>set (xs @ filter (\<lambda>t. \<not> dead s t) ys). same_task (mem s) (mem s') t)"
  using assms
proof (induction ys arbitrary: s v ps xs)
  case Nil
  then show ?case by (intro exI [of _ s] exI [of _ v] exI [of _ ps]) (subst reap_loop.simps, simp add: owned_def)
next
  case (Cons z ys)
  note k = Cons.prems(1)
  let ?h = "all_tasks s" and ?pos = "task_node z"
  have d: "dlist (mem s) ?h (map task_node xs @ task_node z # map task_node ys)" using k by (simp add: kinv_def)
  note nx = dlist_next [OF d]
  show ?case
  proof (cases "dead s z")
    case False
    have "kinv s v hp ps ((xs @ [z]) @ ys) ts" using k by simp
    note IH = Cons.IH [OF this]
    obtain s' v' ps' where r:
      "reap_loop (hd (map task_node ys @ [?h])) (lnext (mem s) (hd (map task_node ys @ [?h]))) s = Some s'"
      "kinv s' v' hp ps' ((xs @ [z]) @ filter (\<lambda>t. \<not> dead s t) ys) ts" "reap_step s s'"
      "set ps' = set ps \<union> owned (mem s) (filter (dead s) ys)"
      "\<forall>t\<in>set ((xs @ [z]) @ filter (\<lambda>t. \<not> dead s t) ys). same_task (mem s) (mem s') t"
      using IH Cons.prems(2) by (meson list.set_intros(2))
    have "reap_loop ?pos (lnext (mem s) ?pos) s = Some s'"
      using r(1) False nx by (subst reap_loop.simps) (simp add: dead_def)
    then show ?thesis using r(2-5) False by auto
  next
    case True
    obtain t where t: "printk ''task reap: pid=%lu exit_code=%d\<newline>''
        [ALong (tget (mem s) z TPid), AInt (ucast (tget (mem s) z TExitCode))] s = Some (emit s t)"
      unfolding printk_emits by (simp add: fmt_text.simps(2) conv_def lconv_def)
    have k1: "kinv (emit s t) v hp ps (xs @ z # ys) ts" using k by simp
    obtain s1 v1 ps1 where s1: "task_free z ((emit s t)\<lparr>mem := list_del (task_node z) (mem s)\<rparr>) = Some s1"
      "kinv s1 v1 hp ps1 (xs @ ys) ts" "set ps1 = set ps \<union> task_pages (mem s) z" "heap_step (emit s t) s1"
      "\<forall>u\<in>set (xs @ ys). same_task (mem s) (mem s1) u"
      using reap_one [OF k1 refl] Cons.prems(2) True by auto
    have st: "reap_step s s1" by (rule reap_step_one [OF s1(4)])
    note F = reap_step_fields [OF st]
    have dd: "dead s1 u = dead s u" if "u \<in> set ys" for u using dead_cong [OF _ F(1)] s1(5) that by simp
    have fl: "filter (\<lambda>t. \<not> dead s1 t) ys = filter (\<lambda>t. \<not> dead s t) ys" "filter (dead s1) ys = filter (dead s) ys"
      by (rule filter_cong [OF refl], simp add: dd)+
    obtain s' v' ps' where r:
      "reap_loop (hd (map task_node ys @ [?h])) (lnext (mem s1) (hd (map task_node ys @ [?h]))) s1 = Some s'"
      "kinv s' v' hp ps' (xs @ filter (\<lambda>t. \<not> dead s t) ys) ts" "reap_step s1 s'"
      "set ps' = set ps1 \<union> owned (mem s1) (filter (dead s) ys)"
      "\<forall>u\<in>set (xs @ filter (\<lambda>t. \<not> dead s t) ys). same_task (mem s1) (mem s') u"
      using Cons.IH [OF s1(2), unfolded fl F(2)] Cons.prems(2) dd by (meson list.set_intros(2))
    have "reap_loop ?pos (lnext (mem s) ?pos) s = Some s'"
      using r(1) True nx t s1(1) by (subst reap_loop.simps) (simp add: dead_def)
    moreover have "owned (mem s1) (filter (dead s) ys) = owned (mem s) (filter (dead s) ys)"
      by (rule owned_cong) (use s1(5) in auto)
    moreover have "\<forall>u\<in>set (xs @ filter (\<lambda>t. \<not> dead s t) ys). same_task (mem s) (mem s') u"
    proof
      fix u assume u: "u \<in> set (xs @ filter (\<lambda>t. \<not> dead s t) ys)"
      then have "u \<in> set (xs @ ys)" by auto
      then show "same_task (mem s) (mem s') u" using r(5) s1(5) u same_task_trans by blast
    qed
    moreover have "owned (mem s) (z # zs) = task_pages (mem s) z \<union> owned (mem s) zs" for zs
      by (simp add: owned_def)
    ultimately show ?thesis using r(2,4) True s1(3) reap_step_trans [OF st r(3)] by (auto simp: Un_assoc)
  qed
qed

lemma kinv_same_fields:
  fixes s :: "'a task_state_scheme"
  assumes "mem s' = mem s" "free_page_list s' = free_page_list s" "nr_free_pages s' = nr_free_pages s"
    "heap_head s' = heap_head s" "heap_tail s' = heap_tail s" "all_tasks s' = all_tasks s"
    "run_queue s' = run_queue s" "nr_runnable s' = nr_runnable s"
  shows "kinv s' v hp ps as ts = kinv s v hp ps as ts"
proof -
  have p: "page_ok s' = page_ok s" by (simp add: page_ok_def fun_eq_iff assms)
  have f: "frames_ok s' = frames_ok s" by (simp add: frames_ok_def fun_eq_iff p)
  have h: "heap_inv s' v hp ps = heap_inv s v hp ps" by (simp add: heap_inv_def page_inv_def p assms)
  show ?thesis by (simp add: kinv_def h f task_owns_def heads_ok_def assms)
qed

lemma kinv_fields [simp]:
  fixes s :: "'a task_state_scheme"
  shows "kinv (s\<lparr>current := c\<rparr>) v hp ps as ts = kinv s v hp ps as ts"
    "kinv (s\<lparr>csr_satp := x\<rparr>) v hp ps as ts = kinv s v hp ps as ts"
  by (rule kinv_same_fields; simp)+

lemma kinv_write:
  fixes s :: "'a task_state_scheme"
  assumes k: "kinv s v hp ps as ts" and t: "t \<in> set as" and c: "only_changes (region t 96) (mem s) m"
    and f: "\<And>u f. u \<in> set as \<Longrightarrow> f \<in> page_fields \<Longrightarrow> tget m u f = tget (mem s) u f"
  shows "kinv (s\<lparr>mem := m\<rparr>) v hp ps as ts" "u \<in> set as \<Longrightarrow> task_pages m u = task_pages (mem s) u"
proof -
  have r: "region t 96 \<subseteq> region t 128" by (rule region_mono) simp
  have a: "region t 96 \<inter> (page_foot s ps \<union> header_bytes v \<union> table_bytes (owned (mem s) as)) = {}"
    using kinv_task_region [OF k t] kinv_apart(1,2) [OF k] r by blast
  have l: "list_bytes s as \<inter> region t 96 = {}" by (rule kinv_list_apart(2) [OF k t])
  have e: "m x = mem s x" if "x \<in> page_foot s ps \<union> header_bytes v \<union> table_bytes (owned (mem s) as) \<union> list_bytes s as" for x
    by (rule only_changesD [OF c]) (use that a l in blast)
  note K = k [unfolded kinv_def]
  have h: "heap_inv s v hp ps" using K by blast
  have "m x = mem s x" if "x \<in> page_foot s ps \<union> header_bytes v" for x by (rule e) (use that in blast)
  then have inv: "heap_inv (s\<lparr>mem := m\<rparr>) v hp ps" by (rule heap_inv_mem [OF h])
  have fr: "frames_ok s (set ps)" "set ps \<inter> owned (mem s) as = {}"
    using kinv_frames [OF k] owned_disjoint [OF k] by (auto simp: frames_ok_Un)
  have ts: "set ts \<subseteq> set as" "unat (nr_runnable s) = length ts" using K by blast+
  have d: "dlist (mem s) (all_tasks s) (map task_node as)" "dlist (mem s) (run_queue s) (map run_node ts)"
    using K by blast+
  have l1: "dlist m (all_tasks s) (map task_node as)"
    by (rule dlist_cong [OF d(1)], rule e) (use list_nodes_bytes(1) [of s as] in blast)
  have l2: "dlist m (run_queue s) (map run_node ts)"
    by (rule dlist_cong [OF d(2)], rule e) (use list_nodes_bytes(2) [OF ts(1), of s] in blast)
  have sh: "same_heads s (s\<lparr>mem := m\<rparr>)" by (simp add: same_heads_def)
  have eo: "m x = mem s x" if "x \<in> table_bytes (owned (mem s) as)" for x by (rule e) (use that in blast)
  note U = kinv_update [of s v hp ps as ts as "s\<lparr>mem := m\<rparr>" v ps ts, OF k subset_refl sh inv fr(1) _ fr(2) _ _ _ _ _ ts(1)]
  show "kinv (s\<lparr>mem := m\<rparr>) v hp ps as ts"
    by (rule U(1)) (simp_all add: eo f l1 l2 ts(2))
  show "u \<in> set as \<Longrightarrow> task_pages m u = task_pages (mem s) u"
    using U(2) [of u] by (simp add: eo f l1 l2 ts(2))
qed

lemma kinv_unqueue:
  fixes s :: "'a task_state_scheme"
  assumes k: "kinv s v hp ps as ts" and e: "ts = xs @ c # ys" and n: "unat n = length (xs @ ys)"
  shows "kinv (s\<lparr>mem := list_del (run_node c) (mem s), nr_runnable := n\<rparr>) v hp ps as (xs @ ys)"
    "u \<in> set as \<Longrightarrow> same_task (mem s) (list_del (run_node c) (mem s)) u"
proof -
  let ?m = "list_del (run_node c) (mem s)" and ?s = "s\<lparr>mem := list_del (run_node c) (mem s), nr_runnable := n\<rparr>"
  note K = k [unfolded kinv_def]
  have d: "dlist (mem s) (all_tasks s) (map task_node as)"
    "dlist (mem s) (run_queue s) (map run_node xs @ run_node c # map run_node ys)" using K by (simp_all add: e)
  have ts: "set ts \<subseteq> set as" using K by blast
  have me: "map run_node ts = map run_node xs @ run_node c # map run_node ys" by (simp add: e)
  have c0: "only_changes (node_bytes (set (run_queue s # map run_node ts))) (mem s) ?m"
    unfolding me by (rule unlink_changes [OF d(2)])
  have c1: "only_changes (list_bytes s as) (mem s) ?m"
    by (rule only_changes_mono [OF c0 list_nodes_bytes(2) [OF ts]])
  note la = kinv_list_apart [OF k]
  have e1: "?m x = mem s x" if "x \<in> page_foot s ps \<union> header_bytes v \<union> table_bytes (owned (mem s) as)" for x
    by (rule only_changesD [OF c1]) (use that la(1) in blast)
  have f: "tget ?m u f = tget (mem s) u f" "tstate ?m u = tstate (mem s) u" if "u \<in> set as" for u f
  proof -
    have "?m x = mem s x" if "x \<in> region u 96" for x
      by (rule only_changesD [OF c1]) (use that la(2) [OF \<open>u \<in> set as\<close>] in blast)
    from task_field_cong [of u ?m "mem s", OF this] show "tget ?m u f = tget (mem s) u f" "tstate ?m u = tstate (mem s) u"
      by simp_all
  qed
  have h: "heap_inv s v hp ps" using K by blast
  have "?m x = mem s x" if "x \<in> page_foot s ps \<union> header_bytes v" for x by (rule e1) (use that in blast)
  then have "heap_inv (s\<lparr>mem := ?m\<rparr>) v hp ps" by (rule heap_inv_mem [OF h])
  then have inv: "heap_inv ?s v hp ps" by (simp add: heap_inv_def page_inv_def page_ok_def)
  have fr: "frames_ok s (set ps)" "set ps \<inter> owned (mem s) as = {}"
    using kinv_frames [OF k] owned_disjoint [OF k] by (auto simp: frames_ok_Un)
  have l1: "dlist ?m (all_tasks s) (map task_node as)"
    by (rule dlist_cong [OF d(1)], rule only_changesD [OF c0]) (use task_lists_apart [OF k] in blast)
  have l2: "dlist ?m (run_queue s) (map run_node (xs @ ys))" using dlist_del [OF d(2)] by simp
  have sh: "same_heads s ?s" by (simp add: same_heads_def)
  have eo: "?m x = mem s x" if "x \<in> table_bytes (owned (mem s) as)" for x by (rule e1) (use that in blast)
  have ts': "set (xs @ ys) \<subseteq> set as" using ts by (auto simp: e)
  note U = kinv_update [of s v hp ps as ts as ?s v ps "xs @ ys", OF k subset_refl sh inv fr(1) _ fr(2) _ _ _ _ _ ts']
  show "kinv ?s v hp ps as (xs @ ys)"
    by (rule U(1)) (use n l2 in \<open>simp_all add: eo f l1\<close>)
  have "u \<in> set as \<Longrightarrow> task_pages ?m u = task_pages (mem s) u"
    using U(2) [of u] n l2 by (simp add: eo f l1)
  then show "u \<in> set as \<Longrightarrow> same_task (mem s) ?m u" using f by (simp add: same_task_def)
qed

lemma reap_zombies_ok:
  fixes s :: "'a task_state_scheme"
  assumes k: "kinv s v hp ps as ts" and z: "\<And>t. t \<in> set as \<Longrightarrow> dead s t \<Longrightarrow> t \<notin> set ts"
  obtains s' v' ps' where "task_reap_zombies s = Some s'" "kinv s' v' hp ps' (filter (\<lambda>t. \<not> dead s t) as) ts"
    "reap_step s s'" "set ps' = set ps \<union> owned (mem s) (filter (dead s) as)"
    "\<And>t. t \<in> set as \<Longrightarrow> \<not> dead s t \<Longrightarrow> same_task (mem s) (mem s') t"
proof -
  have "dlist (mem s) (all_tasks s) (map task_node as)" using k by (simp add: kinv_def)
  from dlist_next_head [OF this] have n: "lnext (mem s) (all_tasks s) = hd (map task_node as @ [all_tasks s])" .
  have k': "kinv s v hp ps ([] @ as) ts" using k by simp
  from reap_loop_ok [OF k' z] show thesis
    using that unfolding task_reap_zombies_def Let_def n by auto
qed

text \<open>
  C6: reaping never panics and always returns; it takes exactly the zombies other than the current
  task out of the list of all tasks, puts exactly the pages they own (stacks, page table, image)
  on the free list, frees their structures in the heap, changes nothing of the other tasks and
  keeps the kernel's invariant. (The walk reads the next node before the body frees the task.)
\<close>

theorem reap_frees_the_dead:
  fixes s :: "'a task_state_scheme"
  assumes "kinv s v hp ps as ts" "\<And>t. t \<in> set as \<Longrightarrow> dead s t \<Longrightarrow> t \<notin> set ts"
  shows "\<exists>s' v' ps'. task_reap_zombies s = Some s' \<and> kinv s' v' hp ps' (filter (\<lambda>t. \<not> dead s t) as) ts \<and>
    set ps' = set ps \<union> (\<Union>t\<in>{t \<in> set as. dead s t}. task_pages (mem s) t) \<and>
    (\<forall>t\<in>set as. \<not> dead s t \<longrightarrow> same_task (mem s) (mem s') t)"
proof -
  obtain s' v' ps' where r: "task_reap_zombies s = Some s'" "kinv s' v' hp ps' (filter (\<lambda>t. \<not> dead s t) as) ts"
    "reap_step s s'" "set ps' = set ps \<union> owned (mem s) (filter (dead s) as)"
    "\<And>t. t \<in> set as \<Longrightarrow> \<not> dead s t \<Longrightarrow> same_task (mem s) (mem s') t"
    by (rule reap_zombies_ok [OF assms]) simp_all
  show ?thesis
    by (intro exI [of _ s'] exI [of _ v'] exI [of _ ps'] conjI) (use r in \<open>auto simp: owned_def\<close>)
qed

end
