(* ===== verification/Sched.thy ===== *)
theory Sched
  imports Kernel_Inv
begin

text \<open>
  The scheduler (src/kernel/task.c:340-446): \<open>task_schedule\<close> and \<open>task_exit_current\<close> keep the
  invariant \<open>sched\<close>, take the tasks of the run queue in turn, and never leave the hart with a
  page table, a kernel stack or a task structure that has been freed. A concrete kernel with a
  running, a ready and a dead task shows that the invariant can hold.
\<close>

definition sched ::
  "'a task_state_scheme \<Rightarrow> kblock list \<Rightarrow> ptr list \<Rightarrow> ptr list \<Rightarrow> ptr list \<Rightarrow> ptr list \<Rightarrow> bool" where
  "sched s v hp ps as ts \<longleftrightarrow>
     kinv s v hp ps as ts \<and> current s \<in> set ts \<and> tstate (mem s) (current s) = TASK_RUNNING \<and>
     (\<forall>t\<in>set ts. t \<noteq> current s \<longrightarrow> tstate (mem s) t = TASK_READY) \<and>
     (\<forall>t\<in>set as - set ts. tstate (mem s) t = TASK_ZOMBIE) \<and> (\<forall>t\<in>set ts. tget (mem s) t TTf \<noteq> 0) \<and>
     csr_satp s = SATP_MODE_SV39 OR drop_bit 12 (tget (mem s) (current s) TPagetable)"

lemma task_states_differ [simp]:
  "TASK_READY \<noteq> TASK_ZOMBIE" "TASK_ZOMBIE \<noteq> TASK_READY" "TASK_RUNNING \<noteq> TASK_ZOMBIE" "TASK_ZOMBIE \<noteq> TASK_RUNNING"
  by (simp_all add: TASK_READY_def TASK_ZOMBIE_def TASK_RUNNING_def)

lemma rotation_hd:
  assumes "c \<in> set ts" shows "hd (rotation c ts) \<in> set ts" "rotation c ts \<noteq> []"
    "distinct ts \<Longrightarrow> hd (rotation c ts) = c \<Longrightarrow> ts = [c]"
proof -
  obtain xs ys where x: "ts = xs @ c # ys" "c \<notin> set xs" using split_list_first [OF assms] by blast
  have r: "rotation c ts = ys @ xs @ [c]" using rotation_split [OF x(2)] x(1) by simp
  show "rotation c ts \<noteq> []" by (simp add: r)
  have "hd (rotation c ts) \<in> set (rotation c ts)" by (rule hd_in_set) (simp add: r)
  then show "hd (rotation c ts) \<in> set ts" using r x(1) by auto
  show "distinct ts \<Longrightarrow> hd (rotation c ts) = c \<Longrightarrow> ts = [c]"
    unfolding r by (cases ys; cases xs) (use x in auto)
qed

text \<open>When every task of the queue can run, the next one round the queue is taken.\<close>

lemma pick_next_hd:
  fixes s :: "'a task_state_scheme"
  assumes k: "kinv s v hp ps as ts" and c: "current s \<in> set ts \<or> current s = 0 \<and> ts \<noteq> []"
    and r: "\<And>t. t \<in> set ts \<Longrightarrow> runnable (mem s) t"
  shows "task_pick_next s = hd (rotation (current s) ts)"
proof -
  have K: "dlist (mem s) (run_queue s) (map run_node ts)" "unat (nr_runnable s) = length ts" "set ts \<subseteq> set as"
    using k by (simp_all add: kinv_def)
  have nz: "0 \<notin> set ts" using kinv_task_region(2) [OF k] K(3) by blast
  have c': "current s = 0 \<and> 0 \<notin> set ts \<or> current s \<noteq> 0 \<and> current s \<in> set ts" using c nz by auto
  have h: "rotation (current s) ts \<noteq> []" "hd (rotation (current s) ts) \<in> set ts"
  proof -
    have "rotation (current s) ts \<noteq> [] \<and> hd (rotation (current s) ts) \<in> set ts"
    proof (cases "current s \<in> set ts")
      case True then show ?thesis using rotation_hd by blast
    next
      case False then show ?thesis using c by (simp add: rotation_def)
    qed
    then show "rotation (current s) ts \<noteq> []" "hd (rotation (current s) ts) \<in> set ts" by simp_all
  qed
  then obtain y zs where y: "rotation (current s) ts = y # zs" "y \<in> set ts" by (metis list.collapse)
  have "task_pick_next s = pick_spec (mem s) (current s) ts" by (rule task_pick_next_scan [OF K(1,2) c'])
  then show ?thesis using r [OF y(2)] by (simp add: pick_spec_def y(1))
qed

lemma kinv_root:
  assumes k: "kinv s v hp ps as ts" and t: "t \<in> set as"
  shows "tget (mem s) t TPagetable \<noteq> 0" "tget (mem s) t TPagetable AND PAGE_MASK = 0"
    "tget (mem s) t TPagetable \<in> task_pages (mem s) t"
proof -
  let ?r = "tget (mem s) t TPagetable"
  show r: "?r \<in> task_pages (mem s) t"
    using ptables_root [of ?r "mem s" 2] by (simp add: task_pages_def task_tables_def)
  have "task_owns s t" using k t by (simp add: kinv_def)
  then have "page_ok s ?r" using r by (simp add: task_owns_def Let_def frames_ok_def)
  then show "?r \<noteq> 0" "?r AND PAGE_MASK = 0" by (simp_all add: page_ok_def page_aligned_def)
qed

text \<open>Making a task of the queue the current one.\<close>

lemma set_current_ok:
  fixes s :: "'a task_state_scheme"
  assumes k: "kinv s v hp ps as ts" and t: "t \<in> set as"
  obtains s' where "task_set_current t s = Some s'" "kinv s' v hp ps as ts" "current s' = t"
    "csr_satp s' = SATP_MODE_SV39 OR drop_bit 12 (tget (mem s) t TPagetable)" "mem s' = set_tstate t TASK_RUNNING (mem s)"
    "\<And>u. u \<in> set as \<Longrightarrow> task_pages (mem s') u = task_pages (mem s) u"
proof -
  let ?m = "set_tstate t TASK_RUNNING (mem s)" and ?x = "SATP_MODE_SV39 OR drop_bit 12 (tget (mem s) t TPagetable)"
  have sp: "tsep t u" if "u \<in> set as" for u by (rule kinv_tsep [OF k t that])
  have c: "only_changes (region t 96) (mem s) ?m" by (intro task_field_changes) simp_all
  have f: "tget ?m u f = tget (mem s) u f" if "u \<in> set as" for u f using sp [OF that] by simp
  note W = kinv_write [OF k t c f]
  have "kinv (s\<lparr>mem := ?m, current := t, csr_satp := ?x\<rparr>) v hp ps as ts" using W(1) by simp
  moreover have "task_set_current t s = Some (s\<lparr>mem := ?m, current := t, csr_satp := ?x\<rparr>)"
    using kinv_root [OF k t] kinv_task_region(2) [OF k t] f [OF t]
    by (simp add: task_set_current_def vm_switch_def csr_write_satp_def)
  ultimately show thesis using W(2) by (intro that [of "s\<lparr>mem := ?m, current := t, csr_satp := ?x\<rparr>"]) simp_all
qed


text \<open>Between two tasks: the queue is ready, all other tasks are dead.\<close>

definition idle ::
  "'a task_state_scheme \<Rightarrow> kblock list \<Rightarrow> ptr list \<Rightarrow> ptr list \<Rightarrow> ptr list \<Rightarrow> ptr list \<Rightarrow> bool" where
  "idle s v hp ps as ts \<longleftrightarrow>
     kinv s v hp ps as ts \<and> (\<forall>t\<in>set ts. tstate (mem s) t = TASK_READY \<and> tget (mem s) t TTf \<noteq> 0) \<and>
     (\<forall>t\<in>set as - set ts. tstate (mem s) t = TASK_ZOMBIE)"

lemma kinv_sub: "kinv s v hp ps as ts \<Longrightarrow> set ts \<subseteq> set as"
  by (simp add: kinv_def)

lemma sched_current:
  assumes "sched s v hp ps as ts"
  shows "kinv s v hp ps as ts" "current s \<in> set ts" "current s \<in> set as" "current s \<noteq> 0"
proof -
  show k: "kinv s v hp ps as ts" and c: "current s \<in> set ts" using assms by (simp_all add: sched_def)
  then show a: "current s \<in> set as" using kinv_sub by blast
  show "current s \<noteq> 0" by (rule kinv_task_region(2) [OF k a])
qed

lemma idle_dispatch:
  assumes i: "idle s v hp ps as ts" and n: "n \<in> set ts"
    and k: "kinv s' v hp ps as ts" "mem s' = set_tstate n TASK_RUNNING (mem s)" "current s' = n"
      "csr_satp s' = SATP_MODE_SV39 OR drop_bit 12 (tget (mem s) n TPagetable)"
  shows "sched s' v hp ps as ts" "t \<in> set as \<Longrightarrow> tget (mem s') t f = tget (mem s) t f"
    "t \<in> set as \<Longrightarrow> t \<noteq> n \<Longrightarrow> tstate (mem s') t = tstate (mem s) t"
proof -
  note I = i [unfolded idle_def]
  have sub: "set ts \<subseteq> set as" and ki: "kinv s v hp ps as ts" using I kinv_sub by blast+
  have e: "tget (mem s') t f = tget (mem s) t f" "tstate (mem s') t = (if t = n then TASK_RUNNING else tstate (mem s) t)"
    if "t \<in> set as" for t f
    using kinv_tsep [OF ki _ that, of n] n sub k(2) by auto
  show "t \<in> set as \<Longrightarrow> tget (mem s') t f = tget (mem s) t f" by (rule e)
  show "t \<in> set as \<Longrightarrow> t \<noteq> n \<Longrightarrow> tstate (mem s') t = tstate (mem s) t" using e by simp
  have es: "tget (mem s') t f = tget (mem s) t f" "tstate (mem s') t = (if t = n then TASK_RUNNING else TASK_READY)"
    if "t \<in> set ts" for t f using e [of t] that sub I by auto
  have z: "tstate (mem s') t = TASK_ZOMBIE" if "t \<in> set as - set ts" for t using e(2) [of t] that n I by auto
  show "sched s' v hp ps as ts" unfolding sched_def using k(1,3,4) n es z I by simp
qed

lemma set_current_sched:
  fixes s :: "'a task_state_scheme"
  assumes i: "idle s v hp ps as ts" and n: "n \<in> set ts"
  obtains s' where "task_set_current n s = Some s'" "sched s' v hp ps as ts" "current s' = n"
    "\<And>t f. t \<in> set as \<Longrightarrow> tget (mem s') t f = tget (mem s) t f"
    "\<And>t. t \<in> set as \<Longrightarrow> t \<noteq> n \<Longrightarrow> tstate (mem s') t = tstate (mem s) t"
proof -
  have k: "kinv s v hp ps as ts" using i by (simp add: idle_def)
  have na: "n \<in> set as" using kinv_sub [OF k] n by blast
  from set_current_ok [OF k na] obtain s' where s': "task_set_current n s = Some s'" "kinv s' v hp ps as ts"
    "mem s' = set_tstate n TASK_RUNNING (mem s)" "current s' = n"
    "csr_satp s' = SATP_MODE_SV39 OR drop_bit 12 (tget (mem s) n TPagetable)" by blast
  note D = idle_dispatch [OF i n s'(2-5)]
  show thesis by (rule that [OF s'(1) D(1) s'(4) D(2,3)])
qed

lemma idle_pick:
  fixes s :: "'a task_state_scheme"
  assumes i: "idle s v hp ps as ts" and c: "current s \<in> set ts \<or> current s = 0 \<and> ts \<noteq> []"
  shows "task_pick_next s = hd (rotation (current s) ts)"
  by (rule pick_next_hd [of s v hp ps as]) (use i c in \<open>auto simp: idle_def runnable_def\<close>)

text \<open>The first half of \<open>task_schedule\<close>: the frame of the current task is saved and the dead are freed.\<close>

definition save_current :: "ptr \<Rightarrow> 'a task_state_scheme \<Rightarrow> 'a task_state_scheme" where
  "save_current tf s = s\<lparr>mem := set_tstate (current s) TASK_READY (tset (current s) TTf tf (mem s))\<rparr>"

definition saved :: "ptr \<Rightarrow> 'a task_state_scheme \<Rightarrow> ptr \<Rightarrow> task_field \<Rightarrow> u64" where
  "saved tf s t f = (if t = current s \<and> f = TTf then tf else tget (mem s) t f)"

lemma save_current_ok:
  fixes s :: "'a task_state_scheme"
  assumes sc: "sched s v hp ps as ts" and tf: "tf \<noteq> 0"
  shows "idle (save_current tf s) v hp ps as ts"
    "t \<in> set as \<Longrightarrow> tget (mem (save_current tf s)) t f = saved tf s t f"
    "t \<in> set as \<Longrightarrow> task_pages (mem (save_current tf s)) t = task_pages (mem s) t"
proof -
  note c = sched_current [OF sc]
  note S = sc [unfolded sched_def] and sub = kinv_sub [OF c(1)]
  let ?m = "set_tstate (current s) TASK_READY (tset (current s) TTf tf (mem s))"
  have m: "mem (save_current tf s) = ?m" by (simp add: save_current_def)
  have ch: "only_changes (region (current s) 96) (mem s) ?m" by (intro task_field_changes) simp_all
  have f: "tget ?m t f = saved tf s t f" "tstate ?m t = (if t = current s then TASK_READY else tstate (mem s) t)"
    if "t \<in> set as" for t f
    using kinv_tsep [OF c(1,3) that] by (auto simp: saved_def)
  have pf: "tget ?m t f = tget (mem s) t f" if "t \<in> set as" "f \<in> page_fields" for t f
    using f(1) [OF that(1)] that(2) by (auto simp: page_fields_def saved_def)
  note W = kinv_write [OF c(1,3) ch pf]
  have r: "tstate ?m t = TASK_READY \<and> tget ?m t TTf \<noteq> 0" if "t \<in> set ts" for t
  proof -
    have "t \<in> set as" using that sub by blast
    then show ?thesis using f [of t] that S tf by (auto simp: saved_def)
  qed
  have z: "tstate ?m t = TASK_ZOMBIE" if "t \<in> set as - set ts" for t using f(2) [of t] that S c(2) by auto
  show "idle (save_current tf s) v hp ps as ts"
    unfolding idle_def m using W(1) r z by (simp add: save_current_def)
  show "t \<in> set as \<Longrightarrow> tget (mem (save_current tf s)) t f = saved tf s t f"
    "t \<in> set as \<Longrightarrow> task_pages (mem (save_current tf s)) t = task_pages (mem s) t"
    unfolding m using f(1) W(2) by blast+
qed

lemma idle_reap:
  fixes s :: "'a task_state_scheme"
  assumes i: "idle s v hp ps as ts" and c: "current s \<in> set ts"
  obtains s' v' ps' where "task_reap_zombies s = Some s'" "idle s' v' hp ps' (filter (\<lambda>t. t \<in> set ts) as) ts"
    "reap_step s s'" "set ps' = set ps \<union> owned (mem s) (filter (\<lambda>t. t \<notin> set ts) as)"
    "\<And>t. t \<in> set ts \<Longrightarrow> same_task (mem s) (mem s') t"
proof -
  note I = i [unfolded idle_def]
  have k: "kinv s v hp ps as ts" using I by blast
  have dd: "dead s t = (t \<notin> set ts)" if "t \<in> set as" for t
    using I that c by (cases "t \<in> set ts") (auto simp: dead_def)
  have fl: "filter (\<lambda>t. \<not> dead s t) as = filter (\<lambda>t. t \<in> set ts) as"
    "filter (dead s) as = filter (\<lambda>t. t \<notin> set ts) as"
    by (rule filter_cong [OF refl], simp add: dd)+
  have zd: "t \<notin> set ts" if "t \<in> set as" "dead s t" for t using dd that by blast
  obtain s' v' ps' where r: "task_reap_zombies s = Some s'" "kinv s' v' hp ps' (filter (\<lambda>t. t \<in> set ts) as) ts"
    "reap_step s s'" "set ps' = set ps \<union> owned (mem s) (filter (\<lambda>t. t \<notin> set ts) as)"
    "\<And>t. t \<in> set as \<Longrightarrow> \<not> dead s t \<Longrightarrow> same_task (mem s) (mem s') t"
    by (rule reap_zombies_ok [OF k zd, unfolded fl]) simp_all
  have st: "same_task (mem s) (mem s') t" if "t \<in> set ts" for t
    using r(5) [of t] dd [of t] that kinv_sub [OF k] by blast
  have rd: "tstate (mem s') t = TASK_READY \<and> tget (mem s') t TTf \<noteq> 0" if "t \<in> set ts" for t
    using st [OF that] I that by (simp add: same_task_def)
  have "idle s' v' hp ps' (filter (\<lambda>t. t \<in> set ts) as) ts"
    unfolding idle_def using r(2) rd by auto
  from that [OF r(1) this r(3,4) st] show thesis .
qed

lemma task_schedule_cases:
  fixes s :: "'a task_state_scheme"
  assumes "current s \<noteq> 0" "tstate (mem s) (current s) = TASK_RUNNING" "task_reap_zombies (save_current tf s) = Some s2"
    "task_pick_next s2 = n" "n \<noteq> 0" "tget (mem s2) n TTf \<noteq> 0"
  shows "task_schedule tf s =
    (if n = current s then Some (tf, s2\<lparr>mem := set_tstate n TASK_RUNNING (mem s2)\<rparr>)
     else do { s \<leftarrow> task_set_current n s2; Some (tget (mem s) n TTf, s) })"
  unfolding task_schedule_def Let_def using assms by (auto simp: save_current_def)

lemma schedule_step:
  fixes s :: "'a task_state_scheme"
  assumes sc: "sched s v hp ps as ts" and tf: "tf \<noteq> 0"
  shows "\<exists>s' v' ps' r. task_schedule tf s = Some (r, s') \<and> sched s' v' hp ps' (filter (\<lambda>t. t \<in> set ts) as) ts \<and>
    current s' = hd (rotation (current s) ts) \<and> r = saved tf s (current s') TTf \<and>
    (\<forall>t\<in>set ts. \<forall>f. tget (mem s') t f = saved tf s t f) \<and>
    set ps' = set ps \<union> owned (mem s) (filter (\<lambda>t. t \<notin> set ts) as)"
proof -
  define c n as' where "c = current s" and "n = hd (rotation (current s) ts)" and "as' = filter (\<lambda>t. t \<in> set ts) as"
  note C = sched_current [OF sc] and S = sc [unfolded sched_def] and V = save_current_ok [OF sc tf]
  note sub = kinv_sub [OF C(1)]
  have cur: "current (save_current tf s) = c" by (simp add: save_current_def c_def)
  from idle_reap [OF V(1)] C(2) cur obtain s2 v2 ps2 where r: "task_reap_zombies (save_current tf s) = Some s2"
    "idle s2 v2 hp ps2 as' ts" "reap_step (save_current tf s) s2"
    "set ps2 = set ps \<union> owned (mem (save_current tf s)) (filter (\<lambda>t. t \<notin> set ts) as)"
    "\<And>t. t \<in> set ts \<Longrightarrow> same_task (mem (save_current tf s)) (mem s2) t"
    unfolding as'_def c_def by metis
  note F = reap_step_fields [OF r(3)]
  have cur2: "current s2 = c" using F(1) cur by simp
  have ps2: "set ps2 = set ps \<union> owned (mem s) (filter (\<lambda>t. t \<notin> set ts) as)"
    using r(4) V(3) by (simp add: owned_def)
  have fields: "tget (mem s2) t f = saved tf s t f" if "t \<in> set ts" for t f
    using r(5) [OF that] V(2) that sub by (auto simp: same_task_def)
  have n: "n \<in> set ts" unfolding n_def by (rule rotation_hd(1) [OF C(2)])
  have as: "set as' = set ts" using sub by (auto simp: as'_def)
  have pick: "task_pick_next s2 = n" using idle_pick [OF r(2)] C(2) by (simp add: cur2 n_def c_def)
  have k2: "kinv s2 v2 hp ps2 as' ts" using r(2) by (simp add: idle_def)
  have nz: "n \<noteq> 0" "tget (mem s2) n TTf \<noteq> 0"
    using r(2) n as kinv_task_region(2) [OF k2] by (simp_all add: idle_def)
  note body = task_schedule_cases [OF C(4) _ r(1) pick nz]
  obtain x s3 where s3: "task_schedule tf s = Some (x, s3)" "sched s3 v2 hp ps2 as' ts" "current s3 = n"
    "\<And>t f. t \<in> set as' \<Longrightarrow> tget (mem s3) t f = tget (mem s2) t f" "x = saved tf s n TTf"
  proof (cases "n = current s")
    case True
    let ?s3 = "s2\<lparr>mem := set_tstate n TASK_RUNNING (mem s2)\<rparr>"
    have "kinv ?s3 v2 hp ps2 as' ts"
      by (rule kinv_write(1) [OF k2, of n])
        (use n as kinv_tsep [OF k2, of n] in \<open>auto intro!: task_field_changes\<close>)
    moreover have "csr_satp ?s3 = SATP_MODE_SV39 OR drop_bit 12 (tget (mem s2) n TPagetable)"
      using S F(7) fields [OF n] by (simp add: True saved_def save_current_def)
    ultimately have "sched ?s3 v2 hp ps2 as' ts" "\<And>t f. t \<in> set as' \<Longrightarrow> tget (mem ?s3) t f = tget (mem s2) t f"
      using idle_dispatch [OF r(2) n, of ?s3] by (simp_all add: True cur2 c_def)
    then show ?thesis using that [of tf ?s3] body S True by (simp add: cur2 c_def saved_def)
  next
    case False
    from set_current_sched [OF r(2) n] obtain s3 where s3: "task_set_current n s2 = Some s3"
      "sched s3 v2 hp ps2 as' ts" "current s3 = n" "\<And>t f. t \<in> set as' \<Longrightarrow> tget (mem s3) t f = tget (mem s2) t f"
      by blast
    then show ?thesis using that [of "tget (mem s3) n TTf" s3] body S False as n fields [OF n] by simp
  qed
  have "\<forall>t\<in>set ts. \<forall>f. tget (mem s3) t f = saved tf s t f" using s3(4) fields as by simp
  then show ?thesis using s3(1-3,5) ps2 unfolding n_def as'_def by metis
qed

lemma kinv_store_fields:
  fixes s :: "'a task_state_scheme"
  assumes k: "kinv s v hp ps as ts" and t: "t \<in> set as"
  shows "kinv (s\<lparr>mem := set_tstate t x (tset t TExitCode code (tset t TTf tf (mem s)))\<rparr>) v hp ps as ts"
    "u \<in> set as \<Longrightarrow> task_pages (set_tstate t x (tset t TExitCode code (tset t TTf tf (mem s)))) u = task_pages (mem s) u"
proof -
  let ?m = "set_tstate t x (tset t TExitCode code (tset t TTf tf (mem s)))"
  have c: "only_changes (region t 96) (mem s) ?m" by (intro task_field_changes) simp_all
  have f: "tget ?m u f = tget (mem s) u f" if "u \<in> set as" "f \<in> page_fields" for u f
    using kinv_tsep [OF k t that(1)] that(2) by (auto simp: page_fields_def)
  note W = kinv_write [OF k t c f]
  show "kinv (s\<lparr>mem := ?m\<rparr>) v hp ps as ts" by (rule W(1))
  show "u \<in> set as \<Longrightarrow> task_pages ?m u = task_pages (mem s) u" by (rule W(2))
qed

text \<open>The first half of \<open>task_exit_current\<close>: the current task becomes a zombie outside the queue.\<close>

definition retire_current :: "ptr \<Rightarrow> u64 \<Rightarrow> 'a task_state_scheme \<Rightarrow> 'a task_state_scheme" where
  "retire_current tf code s =
     s\<lparr>mem := list_del (run_node (current s))
        (set_tstate (current s) TASK_ZOMBIE (tset (current s) TExitCode code (tset (current s) TTf tf (mem s)))),
       nr_runnable := nr_runnable s - 1, current := 0\<rparr>"

lemma retire_ok:
  fixes s :: "'a task_state_scheme"
  assumes sc: "sched s v hp ps as ts"
  shows "idle (retire_current tf code s) v hp ps as (remove1 (current s) ts)"
    "t \<in> set as \<Longrightarrow> t \<noteq> current s \<Longrightarrow> tget (mem (retire_current tf code s)) t f = tget (mem s) t f"
    "tget (mem (retire_current tf code s)) (current s) TExitCode = code"
    "tstate (mem (retire_current tf code s)) (current s) = TASK_ZOMBIE"
    "nr_runnable s > 0 \<and> unat (nr_runnable (retire_current tf code s)) = length (remove1 (current s) ts)"
proof -
  define c where "c = current s"
  note S = sc [unfolded sched_def, folded c_def] and C = sched_current [OF sc, folded c_def]
  note sub = kinv_sub [OF C(1)]
  obtain xs ys where x: "ts = xs @ c # ys" "c \<notin> set xs" using split_list_first [OF C(2)] by blast
  have rm: "remove1 c ts = xs @ ys" using x by (simp add: remove1_append)
  have cn: "set (xs @ ys) = set ts - {c}" using kinv_distinct(2) [OF C(1)] x by auto
  have n: "unat (nr_runnable s) = length ts" using C(1) by (simp add: kinv_def)
  have n0: "nr_runnable s > 0" using n x by (auto simp: word_greater_zero_iff unat_eq_0 [symmetric])
  then have nr: "unat (nr_runnable s - 1) = length (xs @ ys)" using n x by (simp add: unat_minus_one word_greater_zero_iff)
  show "nr_runnable s > 0 \<and> unat (nr_runnable (retire_current tf code s)) = length (remove1 (current s) ts)"
    using n0 nr rm by (simp add: c_def retire_current_def)
  define m1 where "m1 = set_tstate c TASK_ZOMBIE (tset c TExitCode code (tset c TTf tf (mem s)))"
  define m2 where "m2 = list_del (run_node c) m1"
  have k1: "kinv (s\<lparr>mem := m1\<rparr>) v hp ps as ts" unfolding m1_def by (rule kinv_store_fields(1) [OF C(1,3)])
  note U = kinv_unqueue [OF k1 x(1) nr]
  have f: "tget m2 t f = (if t = c \<and> f = TExitCode then code else if t = c \<and> f = TTf then tf else tget (mem s) t f)"
    "tstate m2 t = (if t = c then TASK_ZOMBIE else tstate (mem s) t)" if "t \<in> set as" for t f
    using kinv_tsep [OF C(1,3) that] U(2) [OF that] by (auto simp: same_task_def m2_def m1_def)
  have r: "retire_current tf code s = s\<lparr>mem := m2, nr_runnable := nr_runnable s - 1, current := 0\<rparr>"
    by (simp add: retire_current_def m2_def m1_def c_def)
  have "kinv (retire_current tf code s) v hp ps as (xs @ ys)" using U(1) by (simp add: r m2_def)
  moreover have "tstate m2 t = TASK_READY \<and> tget m2 t TTf \<noteq> 0" if "t \<in> set (xs @ ys)" for t
  proof -
    have "t \<in> set as" "t \<noteq> c" "t \<in> set ts" using that cn sub by blast+
    then show ?thesis using f [of t] S by simp
  qed
  moreover have "tstate m2 t = TASK_ZOMBIE" if "t \<in> set as - set (xs @ ys)" for t
    using f(2) [of t] that cn S by (cases "t = c") auto
  ultimately show "idle (retire_current tf code s) v hp ps as (remove1 (current s) ts)"
    unfolding idle_def by (simp add: r rm flip: c_def)
  show "t \<in> set as \<Longrightarrow> t \<noteq> current s \<Longrightarrow> tget (mem (retire_current tf code s)) t f = tget (mem s) t f"
    "tget (mem (retire_current tf code s)) (current s) TExitCode = code"
    "tstate (mem (retire_current tf code s)) (current s) = TASK_ZOMBIE"
    using f C(3) by (simp_all add: r flip: c_def)
qed

lemma task_exit_cases:
  fixes s :: "'a task_state_scheme"
  assumes "current s \<noteq> 0" "nr_runnable s > 0"
  shows "task_exit_current tf code s =
    (if nr_runnable s = 1 then Some (0, retire_current tf code s)
     else do { let nxt = task_pick_next (retire_current tf code s);
               kassert (nxt \<noteq> 0);
               s \<leftarrow> task_set_current nxt (retire_current tf code s);
               Some (tget (mem s) nxt TTf, s) })"
  using assms by (simp add: task_exit_current_def Let_def retire_current_def)

lemma exit_step:
  fixes s :: "'a task_state_scheme"
  assumes sc: "sched s v hp ps as ts"
  shows "\<exists>r s'. task_exit_current tf code s = Some (r, s') \<and> kinv s' v hp ps as (remove1 (current s) ts) \<and>
    tstate (mem s') (current s) = TASK_ZOMBIE \<and> tget (mem s') (current s) TExitCode = code \<and>
    (if ts = [current s] then r = 0 \<and> current s' = 0
     else sched s' v hp ps as (remove1 (current s) ts) \<and> current s' = hd (remove1 (current s) ts) \<and>
       r = tget (mem s) (current s') TTf \<and> r \<noteq> 0)"
proof -
  define c rest where "c = current s" and "rest = remove1 (current s) ts"
  note C = sched_current [OF sc, folded c_def] and R = retire_ok [OF sc, where tf = tf and code = code, folded c_def rest_def]
  note body = task_exit_cases [OF sched_current(4) [OF sc] conjunct1 [OF R(5)], where tf = tf and code = code]
  have one: "nr_runnable s = 1 \<longleftrightarrow> rest = []"
  proof -
    have "unat (nr_runnable s - 1) = length rest" using R(5) by (simp add: retire_current_def)
    then have "rest = [] \<longleftrightarrow> unat (nr_runnable s - 1) = 0" by (metis length_0_conv)
    also have "\<dots> \<longleftrightarrow> nr_runnable s - 1 = 0" by (rule unat_eq_0)
    finally show ?thesis by simp
  qed
  have ts: "ts = [c] \<longleftrightarrow> rest = []"
    using split_list_first [OF C(2)] by (auto simp: rest_def c_def remove1_append)
  have dt: "distinct ts" by (rule kinv_distinct(2) [OF C(1)])
  have rest: "remove1 c ts = rest" by (simp add: rest_def c_def)
  show ?thesis
  proof (cases "rest = []")
    case True
    then show ?thesis using body one R(1,3,4) ts by (simp add: idle_def retire_current_def flip: c_def rest_def)
  next
    case False
    define h where "h = hd rest"
    have h: "h \<in> set rest" unfolding h_def by (rule hd_in_set [OF False])
    then have hs: "h \<noteq> c" "h \<in> set ts" using dt by (auto simp: rest_def c_def)
    have ha: "h \<in> set as" using hs kinv_sub [OF C(1)] by blast
    have r0: "current (retire_current tf code s) = 0" by (simp add: retire_current_def)
    have "0 \<notin> set rest" using kinv_task_region(2) [OF C(1)] kinv_sub [OF C(1)] set_remove1_subset [of c ts]
      by (auto simp: rest_def c_def)
    then have pick: "task_pick_next (retire_current tf code s) = h"
      using idle_pick [OF R(1)] False r0 by (simp add: rotation_def h_def)
    from set_current_sched [OF R(1) h] obtain s' where s': "task_set_current h (retire_current tf code s) = Some s'"
      "sched s' v hp ps as rest" "current s' = h"
      "\<And>t f. t \<in> set as \<Longrightarrow> tget (mem s') t f = tget (mem (retire_current tf code s)) t f"
      "\<And>t. t \<in> set as \<Longrightarrow> t \<noteq> h \<Longrightarrow> tstate (mem s') t = tstate (mem (retire_current tf code s)) t" by blast
    have tfh: "tget (mem s') h TTf = tget (mem s) h TTf" using s'(4) [OF ha] R(2) [OF ha hs(1)] by simp
    moreover have "tget (mem s') h TTf \<noteq> 0" using s'(2) h by (simp add: sched_def)
    moreover have "h \<noteq> 0" by (rule kinv_task_region(2) [OF C(1) ha])
    moreover have "kinv s' v hp ps as rest" by (rule sched_current(1) [OF s'(2)])
    moreover have "tstate (mem s') c = TASK_ZOMBIE" "tget (mem s') c TExitCode = code"
      using s'(4,5) [OF C(3)] hs(1) R(3,4) by auto
    ultimately show ?thesis
      using body one pick s'(1-3) ts False rest by (simp add: h_def flip: c_def)
  qed
qed

inductive kstep :: "'a task_state_scheme \<Rightarrow> 'a task_state_scheme \<Rightarrow> bool" where
  kstep_schedule: "tf \<noteq> 0 \<Longrightarrow> task_schedule tf s = Some (r, s') \<Longrightarrow> kstep s s'"
| kstep_exit: "task_exit_current tf code s = Some (r, s') \<Longrightarrow> r \<noteq> 0 \<Longrightarrow> kstep s s'"

inductive_cases kstepE: "kstep s s'"

lemma kstep_sched:
  assumes "kstep s s'" "sched s v hp ps as ts"
  shows "\<exists>v' ps' as' ts'. sched s' v' hp ps' as' ts' \<and> set as' \<subseteq> set as \<and> set ts' \<subseteq> set ts"
proof -
  consider (schedule) tf r where "tf \<noteq> 0" "task_schedule tf s = Some (r, s')"
    | (exit) tf code r where "task_exit_current tf code s = Some (r, s')" "r \<noteq> 0"
    using assms(1) by (rule kstepE)
  then show ?thesis
  proof cases
    case schedule
    obtain v' ps' where "sched s' v' hp ps' (filter (\<lambda>t. t \<in> set ts) as) ts"
      using schedule_step [OF assms(2) schedule(1)] schedule(2) by auto
    moreover have "set (filter (\<lambda>t. t \<in> set ts) as) \<subseteq> set as" by auto
    ultimately show ?thesis by blast
  next
    case exit
    have "sched s' v hp ps as (remove1 (current s) ts)"
      using exit_step [OF assms(2), of tf code] exit by (auto split: if_splits)
    then show ?thesis using set_remove1_subset [of "current s" ts] by blast
  qed
qed

lemma kstep_reachable:
  assumes "kstep\<^sup>*\<^sup>* s s'" "sched s v hp ps as ts"
  shows "\<exists>v' ps' as' ts'. sched s' v' hp ps' as' ts' \<and> set as' \<subseteq> set as \<and> set ts' \<subseteq> set ts"
  using assms
proof (induction arbitrary: v ps as ts rule: converse_rtranclp_induct)
  case (step y z)
  from kstep_sched [OF step.hyps(1) step.prems] obtain v1 ps1 as1 ts1 where
    1: "sched z v1 hp ps1 as1 ts1" "set as1 \<subseteq> set as" "set ts1 \<subseteq> set ts" by blast
  from step.IH [OF 1(1)] 1(2,3) show ?case by blast
qed blast

lemma sched_active:
  assumes "sched s v hp ps as ts"
  shows "\<exists>root. csr_satp s = SATP_MODE_SV39 OR drop_bit 12 root \<and> root = tget (mem s) (current s) TPagetable \<and>
     root \<notin> set ps \<and> tget (mem s) (current s) TKernelStackBase \<notin> set ps \<and> region (current s) 128 \<subseteq> table_bytes (set hp)"
proof -
  have k: "kinv s v hp ps as ts" using assms by (simp add: sched_def)
  have c: "current s \<in> set as" using assms by (auto simp: sched_def kinv_def)
  have "tget (mem s) (current s) TPagetable \<in> task_pages (mem s) (current s)" by (rule kinv_root(3) [OF k c])
  moreover have "tget (mem s) (current s) TKernelStackBase \<in> task_pages (mem s) (current s)"
    by (simp add: task_pages_def task_stacks_def)
  moreover have "task_pages (mem s) (current s) \<inter> (set ps \<union> set hp) = {}" using k c by (simp add: kinv_def)
  moreover have "region (current s) 128 \<subseteq> table_bytes (set hp)" by (rule kinv_task_region(1) [OF k c])
  ultimately show ?thesis using assms unfolding sched_def by blast
qed


section \<open>Round robin\<close>

lemma rotation_index:
  assumes "distinct ts" "i < length ts"
  shows "hd (rotation (ts ! i) ts) = ts ! ((i + 1) mod length ts)"
proof -
  have e: "ts = take i ts @ ts ! i # drop (Suc i) ts" by (rule id_take_nth_drop [OF assms(2)])
  have "ts ! i \<notin> set (take i ts)" using assms by (metis distinct_take e not_distinct_conv_prefix distinct_append disjoint_iff list.set_intros(1))
  then have r: "rotation (ts ! i) ts = drop (Suc i) ts @ take i ts @ [ts ! i]"
    by (subst (2) e, rule rotation_split)
  show ?thesis
  proof (cases "Suc i < length ts")
    case True
    then show ?thesis by (simp add: r hd_append hd_drop_conv_nth)
  next
    case False
    then have "Suc i = length ts" using assms(2) by simp
    then show ?thesis using assms(2) unfolding r by (cases i; cases ts) (auto simp: hd_append take_Cons')
  qed
qed

primrec schedules :: "ptr list \<Rightarrow> 'a task_state_scheme \<Rightarrow> 'a task_state_scheme option" where
  "schedules [] s = Some s"
| "schedules (tf # tfs) s = do { (_, s) \<leftarrow> task_schedule tf s; schedules tfs s }"

lemma schedules_round_robin:
  fixes s :: "'a task_state_scheme"
  assumes "sched s v hp ps as ts" "i < length ts" "current s = ts ! i" "0 \<notin> set tfs"
  shows "\<exists>s' v' ps' as'. schedules tfs s = Some s' \<and> sched s' v' hp ps' as' ts \<and>
    current s' = ts ! ((i + length tfs) mod length ts)"
  using assms
proof (induction tfs arbitrary: s v ps as i)
  case Nil
  then show ?case by auto
next
  case (Cons tf tfs)
  have tf: "tf \<noteq> 0" using Cons.prems(4) by auto
  obtain s1 v1 ps1 as1 r where s1: "task_schedule tf s = Some (r, s1)" "sched s1 v1 hp ps1 as1 ts"
    "current s1 = hd (rotation (current s) ts)"
    using schedule_step [OF Cons.prems(1) tf] by blast
  have d: "distinct ts" by (rule kinv_distinct(2) [OF sched_current(1) [OF Cons.prems(1)]])
  let ?j = "(i + 1) mod length ts"
  have j: "?j < length ts" by (rule mod_less_divisor) (use Cons.prems(2) in linarith)
  have j': "current s1 = ts ! ?j" using s1(3) rotation_index [OF d Cons.prems(2)] Cons.prems(3) by simp
  have "(?j + length tfs) mod length ts = (i + length (tf # tfs)) mod length ts" by (simp add: mod_simps)
  then show ?case using Cons.IH [OF s1(2) j j'] Cons.prems(4) s1(1) by auto
qed

lemma reachable_active:
  fixes s :: "'a task_state_scheme"
  assumes "kstep\<^sup>*\<^sup>* s s'" "sched s v hp ps as ts"
  shows "\<exists>v' ps' as' ts'. sched s' v' hp ps' as' ts' \<and> set as' \<subseteq> set as \<and> set ts' \<subseteq> set ts \<and>
    csr_satp s' = SATP_MODE_SV39 OR drop_bit 12 (tget (mem s') (current s') TPagetable) \<and>
    tget (mem s') (current s') TPagetable \<notin> set ps' \<and>
    tget (mem s') (current s') TKernelStackBase \<notin> set ps' \<and> region (current s') 128 \<subseteq> table_bytes (set hp)"
proof -
  from kstep_reachable [OF assms] obtain v' ps' as' ts' where
    r: "sched s' v' hp ps' as' ts'" "set as' \<subseteq> set as" "set ts' \<subseteq> set ts" by blast
  from sched_active [OF r(1)] r show ?thesis by auto
qed

section \<open>A kernel with three tasks\<close>

text \<open>Memory given by the words stored at aligned addresses, zero elsewhere.\<close>

definition words_mem :: "(u64 \<times> u64) list \<Rightarrow> memory" where
  "words_mem W = foldr (\<lambda>(a, v). store64 a v) W (\<lambda>_. 0)"

lemma aligned_sep:
  fixes a b :: u64
  assumes "a AND 7 = 0" "b AND 7 = 0" "a \<noteq> b"
  shows "sep a 8 b 8"
proof -
  have d: "8 dvd unat x" if "x AND 7 = 0" for x :: u64
  proof -
    have "take_bit 3 x = 0" using that by (simp add: take_bit_eq_mask mask_numeral)
    then have "take_bit 3 (unat x) = 0" by (metis unsigned_take_bit_eq unsigned_0)
    then show ?thesis by (simp add: take_bit_eq_mod mod_eq_0_iff_dvd)
  qed
  have "8 \<le> x - y" if "x AND 7 = 0" "y AND 7 = 0" "x \<noteq> y" for x y :: u64
  proof -
    have "8 dvd unat (x - y)"
      using d [OF that(1)] d [OF that(2)] unat_less64 [of y] by (auto simp: unat_sub_if' intro!: dvd_diff_nat dvd_add)
    moreover have "unat (x - y) \<noteq> 0" using that(3) by (simp add: unat_eq_0)
    ultimately show ?thesis by (auto simp: word_le_nat_alt dest: dvd_imp_le)
  qed
  then show ?thesis unfolding sep_def using assms by metis
qed

lemma load64_words:
  assumes "\<forall>(a, v)\<in>set W. a AND 7 = 0" "b AND 7 = 0"
  shows "load64 (words_mem W) b = (case map_of W b of None \<Rightarrow> 0 | Some v \<Rightarrow> v)"
  using assms
proof (induction W)
  case Nil
  then show ?case by (simp add: words_mem_def load64_def)
next
  case (Cons w W)
  then show ?case
    by (cases w) (auto simp: words_mem_def load64_store64_sep aligned_sep)
qed

lemma words_mem_zero:
  assumes "\<forall>(a, v)\<in>set W. x \<notin> region a 8"
  shows "words_mem W x = 0"
  using assms by (induction W) (auto simp: words_mem_def store64_other)

lemma load32_load64: "load32 m a = ucast (load64 m a)"
  by (rule bit_word_eqI) (auto simp: load32_def load64_def bit_simps bit_u8_high)

definition task_words :: "(u64 \<times> u64) list" where
  "task_words =
     [(0x80210000, 0x80), (0x80210010, KMALLOC_MAGIC), (0x80210020, 0x802100b0),
      (0x802100b0, 0x80), (0x802100c0, KMALLOC_MAGIC), (0x802100c8, 0x80210000),
      (0x802100d0, 0x80210160), (0x80210160, 0x80), (0x80210170, KMALLOC_MAGIC),
      (0x80210178, 0x802100b0), (0x80210180, 0x80210210), (0x80210210, 0xdc0), (0x80210218, 1),
      (0x80210220, KMALLOC_MAGIC), (0x80210228, 0x80210160), (0x80210030, 1), (0x80210038, 2),
      (0x80210040, 0x80221ef0), (0x80210060, 0x80221000), (0x80210068, 0x80220000),
      (0x80210088, 0x80222000), (0x802100e0, 2), (0x802100e8, 1), (0x802100f0, 0x80224ef0),
      (0x80210110, 0x80224000), (0x80210118, 0x80223000), (0x80210138, 0x80225000),
      (0x80210190, 3), (0x80210198, 4), (0x802101a0, 0x80227ef0), (0x802101c0, 0x80227000),
      (0x802101c8, 0x80226000), (0x802101e8, 0x80228000), (0x80100020, 0x802101f0),
      (0x80100028, 0x80210090), (0x80210090, 0x80100020), (0x80210098, 0x80210140),
      (0x80210140, 0x80210090), (0x80210148, 0x802101f0), (0x802101f0, 0x80210140),
      (0x802101f8, 0x80100020), (0x80100040, 0x80210150), (0x80100048, 0x802100a0),
      (0x802100a0, 0x80100040), (0x802100a8, 0x80210150), (0x80210150, 0x802100a0),
      (0x80210158, 0x80100040), (0x80100000, 0x80230000), (0x80100008, 0x80230000),
      (0x80230000, 0x80100000), (0x80230008, 0x80100000)]"

abbreviation task_A :: ptr where "task_A \<equiv> 0x80210030"
abbreviation task_B :: ptr where "task_B \<equiv> 0x802100E0"
abbreviation task_Z :: ptr where "task_Z \<equiv> 0x80210190"

abbreviation three_blocks :: "kblock list" where
  "three_blocks \<equiv> [(0x80210000, 128, False), (0x802100B0, 128, False), (0x80210160, 128, False),
     (0x80210210, 0xDC0, True)]"

definition three_tasks :: task_state where
  "three_tasks =
     \<lparr>mem = words_mem task_words, uart_tx = [], uart_rx = [], uart_in = [],
      csr_satp = SATP_MODE_SV39 OR drop_bit 12 0x80222000, csr_sstatus = 0,
      csr_stvec = 0, csr_sie = 0, csr_scause = 0, csr_stval = 0, csr_sepc = 0, csr_time = 0,
      sbi_calls = [], sbi_reply = (\<lambda>_. \<lparr>sbi_error = 0, sbi_value = 0\<rparr>),
      free_page_list = 0x80100000, kernel_end = 0x80200000, nr_total_pages = 0, nr_free_pages = 1,
      heap_head = 0x80210000, heap_tail = 0x80210210, kernel_pagetable = 0,
      current = task_A, next_pid = 4, nr_runnable = 2, run_queue = 0x80100040, all_tasks = 0x80100020\<rparr>"

definition word_at :: "u64 \<Rightarrow> u64 option" where
  "word_at = map_of task_words"

lemma task_word:
  "b AND 7 = 0 \<Longrightarrow> load64 (words_mem task_words) b = (case word_at b of None \<Rightarrow> 0 | Some v \<Rightarrow> v)"
  unfolding word_at_def by (rule load64_words) (simp add: task_words_def)

lemma three_mem: "mem three_tasks = words_mem task_words"
  by (simp add: three_tasks_def)

lemmas three_words = word_at_def [unfolded task_words_def]

lemmas three_load = three_mem tget_def tstate_def load32_load64 task_word kget_def lnext_def lprev_def

lemma three_heap: "heap_rep (mem three_tasks) (heap_head three_tasks) (heap_tail three_tasks) three_blocks"
  by (simp add: heap_rep_def three_load tiled_def three_tasks_def region_iff sep_def three_words)

lemma three_lists:
  "dlist (mem three_tasks) 0x80100000 [0x80230000]"
  "dlist (mem three_tasks) 0x80100020 (map task_node [task_A, task_B, task_Z])"
  "dlist (mem three_tasks) 0x80100040 (map run_node [task_A, task_B])"
  by (simp_all add: dlist_def three_load nodes_ok_def nsep_def sep_def task_node_def run_node_def three_words)

lemma three_fields:
  "tget (mem three_tasks) task_A TPagetable = 0x80222000" "tget (mem three_tasks) task_A TUserStackBase = 0x80220000"
  "tget (mem three_tasks) task_A TKernelStackBase = 0x80221000" "tget (mem three_tasks) task_A TUserImageSize = 0"
  "tget (mem three_tasks) task_A TTf = 0x80221EF0" "tstate (mem three_tasks) task_A = TASK_RUNNING"
  "tget (mem three_tasks) task_B TPagetable = 0x80225000" "tget (mem three_tasks) task_B TUserStackBase = 0x80223000"
  "tget (mem three_tasks) task_B TKernelStackBase = 0x80224000" "tget (mem three_tasks) task_B TUserImageSize = 0"
  "tget (mem three_tasks) task_B TTf = 0x80224EF0" "tstate (mem three_tasks) task_B = TASK_READY"
  "tget (mem three_tasks) task_Z TPagetable = 0x80228000" "tget (mem three_tasks) task_Z TUserStackBase = 0x80226000"
  "tget (mem three_tasks) task_Z TKernelStackBase = 0x80227000" "tget (mem three_tasks) task_Z TUserImageSize = 0"
  "tstate (mem three_tasks) task_Z = TASK_ZOMBIE"
  by (simp_all add: three_load three_words TASK_RUNNING_def TASK_READY_def TASK_ZOMBIE_def)

lemma zero_table:
  assumes "\<And>i. i < 512 \<Longrightarrow> ent m t i = 0"
  shows "pwf m 2 t" "ptables m 2 t = {t}"
proof -
  have "kids m t = {}" using assms by (auto simp: kids_def)
  then show "pwf m 2 t" "ptables m 2 t = {t}" unfolding numeral_2_eq_2 by (simp_all add: ptables.simps)
qed

lemma three_table:
  assumes "t \<in> {0x80222000, 0x80225000, 0x80228000}"
  shows "pwf (mem three_tasks) 2 t" "ptables (mem three_tasks) 2 t = {t}"
proof -
  have s: "\<forall>(a, v)\<in>set task_words. sep a 8 t 4096" using assms by (auto simp: task_words_def sep_def)
  have z: "words_mem task_words x = 0" if "x \<in> region t 4096" for x
    by (rule words_mem_zero) (use s that sep_notin sep_sym in blast)
  have "ent (mem three_tasks) t i = 0" if "i < 512" for i
  proof -
    have "load64 (words_mem task_words) (t + 8 * i) = load64 (\<lambda>_. 0) (t + 8 * i)"
    proof (rule load64_cong)
      fix x assume "x \<in> region (t + 8 * i) 8"
      then have "x \<in> region t 4096" using pte_region [OF that, of t] by (auto simp: pte_addr_def)
      then show "words_mem task_words x = 0" by (rule z)
    qed
    then show ?thesis by (simp add: ent_def three_mem pte_addr_def load64_def)
  qed
  then show "pwf (mem three_tasks) 2 t" "ptables (mem three_tasks) 2 t = {t}" using zero_table by blast+
qed

lemma three_pages':
  "task_pages (mem three_tasks) task_A = {0x80220000, 0x80221000, 0x80222000}"
  "task_pages (mem three_tasks) task_B = {0x80223000, 0x80224000, 0x80225000}"
  "task_pages (mem three_tasks) task_Z = {0x80226000, 0x80227000, 0x80228000}"
  by (auto simp: task_pages_def task_stacks_def task_tables_def image_pages_def three_fields three_table)

lemma three_heads [simp]:
  "free_page_list three_tasks = 0x80100000" "all_tasks three_tasks = 0x80100020" "run_queue three_tasks = 0x80100040"
  "current three_tasks = task_A" "nr_runnable three_tasks = 2" "nr_free_pages three_tasks = 1"
  "csr_satp three_tasks = SATP_MODE_SV39 OR drop_bit 12 0x80222000"
  by (simp_all add: three_tasks_def)

lemma three_owns: "t \<in> {task_A, task_B, task_Z} \<Longrightarrow> task_owns three_tasks t"
  by (auto simp: task_owns_def Let_def three_pages' three_fields three_table image_pages_def task_stacks_def
      task_tables_def frames_ok_def page_ok_def page_aligned_def sep_def)

lemma three_heap_inv: "heap_inv three_tasks three_blocks [0x80210000] [0x80230000]"
proof -
  have "region 0x80210000 4096 = region 0x80210000 (48 + 128) \<union> region 0x802100B0 (4096 - 176)"
    using region_split [of 176 4096 "0x80210000"] by simp
  also have "region 0x802100B0 (4096 - 176) = region 0x802100B0 (48 + 128) \<union> region 0x80210160 (4096 - 352)"
    using region_split [of 176 3920 "0x802100B0"] by simp
  also have "region 0x80210160 (4096 - 352) = region 0x80210160 (48 + 128) \<union> region 0x80210210 (48 + 0xDC0)"
    using region_split [of 176 3744 "0x80210160"] by simp
  finally have h: "heap_bytes three_blocks = region 0x80210000 4096" by (auto simp: heap_bytes_def)
  show ?thesis
    using three_heap three_lists(1) h
    by (simp add: heap_inv_def page_inv_def page_ok_def page_aligned_def sep_def)
qed

lemma three_sched:
  "sched three_tasks three_blocks [0x80210000] [0x80230000] [task_A, task_B, task_Z] [task_A, task_B]"
proof -
  have "kinv three_tasks three_blocks [0x80210000] [0x80230000] [task_A, task_B, task_Z] [task_A, task_B]"
    unfolding kinv_def
    by (intro conjI three_heap_inv ballI three_owns)
      (use three_lists in \<open>auto simp: three_pages' owned_def heads_ok_def frames_ok_def page_ok_def
        page_aligned_def sep_def\<close>)
  then show ?thesis using three_fields by (simp add: sched_def)
qed

section \<open>Properties\<close>

text \<open>
  C3: \<open>task_schedule\<close> never panics: it saves the trap frame of the current task, frees exactly the
  dead tasks, makes the next task round the run queue the running one, switches to its page table
  and returns the trap frame it was interrupted with; every other task of the queue stays ready
  with its registers untouched, and the invariant holds again.
\<close>

theorem task_schedule_switches:
  fixes s :: "'a task_state_scheme"
  assumes "sched s v hp ps as ts" "tf \<noteq> 0"
  shows "\<exists>s' v' ps' r. task_schedule tf s = Some (r, s') \<and> sched s' v' hp ps' (filter (\<lambda>t. t \<in> set ts) as) ts \<and>
    current s' = hd (rotation (current s) ts) \<and> r = saved tf s (current s') TTf \<and>
    (\<forall>t\<in>set ts. \<forall>f. tget (mem s') t f = saved tf s t f) \<and>
    set ps' = set ps \<union> owned (mem s) (filter (\<lambda>t. t \<notin> set ts) as)"
  using assms by (rule schedule_step)

theorem task_schedule_switches_witness:
  "\<exists>s' v' ps'. task_schedule 0x80221E00 three_tasks = Some (0x80224EF0, s') \<and> current s' = task_B \<and>
    sched s' v' [0x80210000] ps' [task_A, task_B] [task_A, task_B] \<and>
    tget (mem s') task_A TTf = 0x80221E00 \<and> set ps' = {0x80226000, 0x80227000, 0x80228000, 0x80230000}"
proof -
  obtain s' v' ps' r where r: "task_schedule 0x80221E00 three_tasks = Some (r, s')"
    "sched s' v' [0x80210000] ps' (filter (\<lambda>t. t \<in> set [task_A, task_B]) [task_A, task_B, task_Z]) [task_A, task_B]"
    "current s' = hd (rotation (current three_tasks) [task_A, task_B])"
    "r = saved 0x80221E00 three_tasks (current s') TTf"
    "\<forall>t\<in>set [task_A, task_B]. \<forall>f. tget (mem s') t f = saved 0x80221E00 three_tasks t f"
    "set ps' = set [0x80230000] \<union> owned (mem three_tasks) (filter (\<lambda>t. t \<notin> set [task_A, task_B]) [task_A, task_B, task_Z])"
    using task_schedule_switches [OF three_sched, of "0x80221E00"] by force
  have "current s' = task_B" using r(3) by (simp add: rotation_def)
  moreover have "set ps' = {0x80226000, 0x80227000, 0x80228000, 0x80230000}"
    using r(6) by (simp add: owned_def three_pages' insert_commute)
  moreover have "tget (mem s') task_A TTf = 0x80221E00" using r(5) by (simp add: saved_def)
  moreover have "r = 0x80224EF0" using r(4) calculation(1) by (simp add: saved_def three_fields)
  ultimately show ?thesis using r(1,2) by auto
qed

text \<open>
  C7: \<open>task_exit_current\<close> never panics: the current task becomes a zombie with its exit code, outside
  the run queue and still owning its pages; the first task of the rest of the queue runs on its own
  page table and its trap frame is returned, or null when no task is left.
\<close>

theorem task_exit_current_switches:
  fixes s :: "'a task_state_scheme"
  assumes "sched s v hp ps as ts"
  shows "\<exists>r s'. task_exit_current tf code s = Some (r, s') \<and> kinv s' v hp ps as (remove1 (current s) ts) \<and>
    tstate (mem s') (current s) = TASK_ZOMBIE \<and> tget (mem s') (current s) TExitCode = code \<and>
    (if ts = [current s] then r = 0 \<and> current s' = 0
     else sched s' v hp ps as (remove1 (current s) ts) \<and> current s' = hd (remove1 (current s) ts) \<and>
       r = tget (mem s) (current s') TTf \<and> r \<noteq> 0)"
  using assms by (rule exit_step)

theorem task_exit_current_switches_witness:
  "\<exists>s'. task_exit_current 0x80221E00 42 three_tasks = Some (0x80224EF0, s') \<and> current s' = task_B \<and>
    sched s' three_blocks [0x80210000] [0x80230000] [task_A, task_B, task_Z] [task_B] \<and>
    tstate (mem s') task_A = TASK_ZOMBIE \<and> tget (mem s') task_A TExitCode = 42"
  using task_exit_current_switches [OF three_sched, of "0x80221E00" 42] three_fields by auto



text \<open>
  C10: round robin: the scheduler serves the run queue in order, so after any number of ticks the
  running task is the one that many places further round the queue, and each runnable task runs
  again within as many ticks as there are runnable tasks.
\<close>

theorem scheduler_is_fair:
  fixes s :: "'a task_state_scheme"
  assumes "sched s v hp ps as ts" "i < length ts" "current s = ts ! i" "0 \<notin> set tfs"
  shows "\<exists>s' v' ps' as'. schedules tfs s = Some s' \<and> sched s' v' hp ps' as' ts \<and>
    current s' = ts ! ((i + length tfs) mod length ts)"
  using assms by (rule schedules_round_robin)

theorem scheduler_is_fair_witness:
  "\<exists>s' v' ps' as'. schedules [0x80221E00, 0x80224E00, 0x80221D00] three_tasks = Some s' \<and>
    sched s' v' [0x80210000] ps' as' [task_A, task_B] \<and> current s' = task_B"
proof -
  have "[task_A, task_B] ! ((0 + length [0x80221E00, 0x80224E00, 0x80221D00 :: ptr]) mod length [task_A, task_B]) = task_B"
    by (simp add: mod_Suc)
  then show ?thesis
    using scheduler_is_fair [OF three_sched, of 0 "[0x80221E00, 0x80224E00, 0x80221D00]"] by fastforce
qed

theorem reap_frees_the_dead_witness:
  "\<exists>s' v' ps'. task_reap_zombies three_tasks = Some s' \<and>
    kinv s' v' [0x80210000] ps' [task_A, task_B] [task_A, task_B] \<and>
    set ps' = {0x80226000, 0x80227000, 0x80228000, 0x80230000}"
proof -
  have k: "kinv three_tasks three_blocks [0x80210000] [0x80230000] [task_A, task_B, task_Z] [task_A, task_B]"
    by (rule sched_current(1) [OF three_sched])
  have d: "dead three_tasks task_Z" "\<not> dead three_tasks task_A" "\<not> dead three_tasks task_B"
    by (simp_all add: dead_def three_fields)
  have "{t \<in> set [task_A, task_B, task_Z]. dead three_tasks t} = {task_Z}" using d by auto
  then show ?thesis
    using reap_frees_the_dead [OF k] d by (auto simp: three_pages' insert_commute)
qed

theorem task_pick_next_spec_witness: "task_pick_next three_tasks = task_B"
proof -
  have "dlist (mem three_tasks) (run_queue three_tasks) (map run_node [task_A, task_B])" using three_lists(3) by simp
  from task_pick_next_spec [OF this] show ?thesis
    by (simp add: pick_spec_def rotation_def runnable_def three_fields)
qed

end
