(* ===== verification/User.thy ===== *)
theory User
  imports Format
begin

text \<open>
  The user library, \<^verbatim>\<open>user/syscall.c\<close> and \<^verbatim>\<open>user/printf.c\<close>. A user program is a function of its
  world: the system calls it has made so far, and \<open>ukernel\<close>, a parameter, which answers a call
  from the history that ends in it. What a call passes in memory is part of the call, what the
  kernel writes to a buffer is part of the answer. A successful \<^verbatim>\<open>exec\<close> never comes back to the
  program, so the answer to that call is the answer to one that failed.
\<close>

section \<open>System calls\<close>

datatype ucall =
    UWrite u64 "u8 list"
  | URead u64 u64
  | UExit u64
  | UYield
  | UGetpid
  | UFork
  | UPs
  | UExec "u8 list"

record ureply =
  uret :: u64
  udata :: "u8 list"

record uworld =
  ucalls :: "ucall list"
  ukernel :: "ucall list \<Rightarrow> ureply"

definition syscall3 :: "ucall \<Rightarrow> uworld \<Rightarrow> ureply \<times> uworld" where
  "syscall3 c w = (let h = ucalls w @ [c] in (ukernel w h, w\<lparr>ucalls := h\<rparr>))"

definition yield :: "uworld \<Rightarrow> uworld" where
  "yield w = snd (syscall3 UYield w)"

text \<open>The buffer is the object it points into; reading past its end is undefined.\<close>

definition uwrite :: "u32 \<Rightarrow> u8 list \<Rightarrow> u64 \<Rightarrow> uworld \<Rightarrow> (u64 \<times> uworld) option" where
  "uwrite fd buf len w =
     do { kassert (unat len \<le> length buf);
          let (r, w) = syscall3 (UWrite (scast fd) (take (unat len) buf)) w;
          Some (uret r, w) }"

text \<open>\<open>uread\<close> returns the buffer with what the kernel wrote at its start.\<close>

definition uread :: "u32 \<Rightarrow> u8 list \<Rightarrow> u64 \<Rightarrow> uworld \<Rightarrow> (u64 \<times> u8 list \<times> uworld) option" where
  "uread fd buf len w =
     do { let (r, w) = syscall3 (URead (scast fd) len) w;
          kassert (length (udata r) \<le> length buf);
          Some (uret r, udata r @ drop (length (udata r)) buf, w) }"

text \<open>
  \<open>uexit\<close> does not return: a program's result is \<open>Inl\<close> and the exit code when it has called it,
  and \<open>Inr\<close> when it goes on.
\<close>

type_synonym 'a urun = "((u32 + 'a) \<times> uworld) option"

definition uexit :: "u32 \<Rightarrow> uworld \<Rightarrow> 'a urun" where
  "uexit code w = Some (Inl code, snd (syscall3 (UExit (scast code)) w))"

definition getpid :: "uworld \<Rightarrow> u64 \<times> uworld" where
  "getpid w = (let (r, w) = syscall3 UGetpid w in (uret r, w))"

definition fork :: "uworld \<Rightarrow> u64 \<times> uworld" where
  "fork w = (let (r, w) = syscall3 UFork w in (uret r, w))"

definition ps :: "uworld \<Rightarrow> u64 \<times> uworld" where
  "ps w = (let (r, w) = syscall3 UPs w in (uret r, w))"

definition exec :: "u8 list \<Rightarrow> uworld \<Rightarrow> u64 \<times> uworld" where
  "exec filename w = (let (r, w) = syscall3 (UExec filename) w in (uret r, w))"

section \<open>Formatted output\<close>

text \<open>A string is the list of its bytes before the NUL, so \<open>strlen\<close> is its length.\<close>

fun strlen_from :: "u8 list \<Rightarrow> u64 \<Rightarrow> u64" where
  "strlen_from [] len = len"
| "strlen_from (c # cs) len = strlen_from cs (len + 1)"

definition strlen :: "u8 list \<Rightarrow> u64" where
  "strlen s = strlen_from s 0"

definition putc :: "u8 \<Rightarrow> uworld \<Rightarrow> uworld" where
  "putc c w = snd (syscall3 (UWrite 1 [c]) w)"

definition puts :: "u8 list \<Rightarrow> uworld \<Rightarrow> uworld" where
  "puts s w = snd (syscall3 (UWrite 1 (take (unat (strlen s)) s)) w)"

definition uprint_udec :: "u64 \<Rightarrow> uworld \<Rightarrow> uworld" where
  "uprint_udec x w =
     (if x = 0 then putc (ch CHR ''0'') w else fold putc (rev (dec_digits x [])) w)"

definition uprint_dec :: "u64 \<Rightarrow> uworld \<Rightarrow> uworld" where
  "uprint_dec value w =
     (let w = (if value <s 0 then putc (ch CHR ''-'') w else w);
          x = (if value <s 0 then - value else value)
      in if x = 0 then putc (ch CHR ''0'') w else fold putc (rev (dec_digits x [])) w)"

fun uprint_hex_from :: "nat \<Rightarrow> bool \<Rightarrow> u64 \<Rightarrow> uworld \<Rightarrow> uworld" where
  "uprint_hex_from 0 started x w = w"
| "uprint_hex_from (Suc i) started x w =
     (let nibble = drop_bit (i * 4) x AND 0xf
      in if nibble \<noteq> 0 \<or> started \<or> i = 0
         then uprint_hex_from i True x (putc (ch (hex_digits ! unat nibble)) w)
         else uprint_hex_from i started x w)"

definition uprint_hex :: "u64 \<Rightarrow> uworld \<Rightarrow> uworld" where
  "uprint_hex x w = uprint_hex_from 16 False x w"

fun printf_loop :: "string \<Rightarrow> parg list \<Rightarrow> uworld \<Rightarrow> uworld option" where
  "printf_loop [] args w = Some w"
| "printf_loop (c # fmt) args w =
     (if c \<noteq> CHR ''%'' then printf_loop fmt args (putc (ch c) w)
      else case fmt of
        [] \<Rightarrow> Some (putc (ch CHR ''%'') w)
      | d # rest \<Rightarrow>
        (if d = CHR ''%'' then printf_loop rest args (putc (ch CHR ''%'') w)
         else if d = CHR ''c'' then
           (case args of AInt v # as \<Rightarrow> printf_loop rest as (putc (ucast v) w) | _ \<Rightarrow> None)
         else if d = CHR ''s'' then
           (case args of AStr v # as \<Rightarrow>
              printf_loop rest as (puts (case v of Some t \<Rightarrow> t | None \<Rightarrow> null_string) w)
            | _ \<Rightarrow> None)
         else if d = CHR ''d'' then
           (case args of AInt v # as \<Rightarrow> printf_loop rest as (uprint_dec (scast v) w) | _ \<Rightarrow> None)
         else if d = CHR ''u'' then
           (case args of AInt v # as \<Rightarrow> printf_loop rest as (uprint_udec (ucast v) w) | _ \<Rightarrow> None)
         else if d = CHR ''x'' then
           (case args of AInt v # as \<Rightarrow> printf_loop rest as (uprint_hex (ucast v) w) | _ \<Rightarrow> None)
         else if d = CHR ''l'' then
           (case rest of
              [] \<Rightarrow> None
            | e # rest' \<Rightarrow>
              (if e = CHR ''d'' then
                 (case args of ALong v # as \<Rightarrow> printf_loop rest' as (uprint_dec v w) | _ \<Rightarrow> None)
               else if e = CHR ''u'' then
                 (case args of ALong v # as \<Rightarrow> printf_loop rest' as (uprint_udec v w) | _ \<Rightarrow> None)
               else if e = CHR ''x'' then
                 (case args of ALong v # as \<Rightarrow> printf_loop rest' as (uprint_hex v w) | _ \<Rightarrow> None)
               else printf_loop rest' args (putc (ch e) (putc (ch CHR ''l'') (putc (ch CHR ''%'') w)))))
         else if d = CHR ''p'' then
           (case args of APtr v # as \<Rightarrow>
              printf_loop rest as (uprint_hex v (puts (map ch ''0x'') w))
            | _ \<Rightarrow> None)
         else printf_loop rest args (putc (ch d) (putc (ch CHR ''%'') w))))"

definition printf :: "string \<Rightarrow> parg list \<Rightarrow> uworld \<Rightarrow> uworld option" where
  "printf fmt args w = printf_loop fmt args w"

declare printf_loop.simps(2) [simp del]

section \<open>What a program says\<close>

text \<open>\<open>says w t w'\<close>: going from \<open>w\<close> to \<open>w'\<close>, the program only wrote to standard output, the bytes \<open>t\<close>.\<close>

definition says :: "uworld \<Rightarrow> u8 list \<Rightarrow> uworld \<Rightarrow> bool" where
  "says w t w' \<longleftrightarrow> (\<exists>bs. w' = w\<lparr>ucalls := ucalls w @ map (UWrite 1) bs\<rparr> \<and> concat bs = t)"

definition uout :: "uworld \<Rightarrow> u8 list" where
  "uout w = concat (map (\<lambda>c. case c of UWrite fd b \<Rightarrow> if fd = 1 \<or> fd = 2 then b else [] | _ \<Rightarrow> []) (ucalls w))"

interpretation uio: byte_sink putc uout
  by unfold_locales (simp add: putc_def syscall3_def Let_def uout_def)

lemma says_refl: "says w [] w"
  unfolding says_def by (rule exI [of _ "[]"]) simp

lemma says_trans: "says w t w' \<Longrightarrow> says w' u w'' \<Longrightarrow> says w (t @ u) w''"
proof -
  assume "says w t w'" "says w' u w''"
  then obtain b c where "w' = w\<lparr>ucalls := ucalls w @ map (UWrite 1) b\<rparr>" "concat b = t"
    "w'' = w'\<lparr>ucalls := ucalls w' @ map (UWrite 1) c\<rparr>" "concat c = u" by (auto simp: says_def)
  then show ?thesis unfolding says_def by (intro exI [of _ "b @ c"]) simp
qed

lemma says_putc: "says w [c] (putc c w)"
  unfolding says_def by (rule exI [of _ "[[c]]"]) (simp add: putc_def syscall3_def Let_def)

lemma strlen_length: "length s < 2 ^ 64 \<Longrightarrow> unat (strlen s) = length s"
proof -
  have *: "strlen_from s n = n + of_nat (length s)" for n
    by (induction s arbitrary: n) simp_all
  show "length s < 2 ^ 64 \<Longrightarrow> unat (strlen s) = length s" by (simp add: strlen_def * unat_of_nat)
qed

lemma says_puts: "length s < 2 ^ 64 \<Longrightarrow> says w s (puts s w)"
  unfolding says_def by (intro exI [of _ "[s]"]) (simp add: puts_def syscall3_def Let_def strlen_length)

lemma says_fold: "says w cs (fold putc cs w)"
proof (induction cs arbitrary: w)
  case (Cons c cs)
  from says_trans [OF says_putc Cons] show ?case by simp
qed (simp add: says_refl)

lemma says_udec: "says w (dec_text x) (uprint_udec x w)"
  by (simp add: uprint_udec_def dec_text_def says_fold says_putc)

lemma says_dec: "says w (sdec_text v) (uprint_dec v w)"
proof -
  have "uprint_dec v w = (if v <s 0 then uprint_udec (- v) (putc (ch CHR ''-'') w) else uprint_udec v w)"
    by (simp add: uprint_dec_def uprint_udec_def Let_def)
  then show ?thesis using says_trans [OF says_putc says_udec]
    by (simp add: sdec_text_def says_udec)
qed

lemma says_hex: "says w (hex_text x) (uprint_hex x w)"
proof -
  have "says w (hex_text_from i st x) (uprint_hex_from i st x w)" for i st
    by (induction i st x w rule: uprint_hex_from.induct)
      (auto simp: Let_def says_refl intro: says_trans [OF says_putc, of _ _ _ _, simplified])
  then show ?thesis by (simp add: hex_text_def uprint_hex_def)
qed

section \<open>printf\<close>

definition args_fit :: "parg list \<Rightarrow> bool" where
  "args_fit args \<longleftrightarrow> (\<forall>t. AStr (Some t) \<in> set args \<longrightarrow> length t < 2 ^ 64)"

lemma args_fit_Cons: "args_fit (a # as) \<longleftrightarrow> args_fit as \<and> (\<forall>t. a = AStr (Some t) \<longrightarrow> length t < 2 ^ 64)"
  by (auto simp: args_fit_def)

lemma says_null: "says w null_string (puts null_string w)"
  by (rule says_puts) (simp add: null_string_def)

lemma says_ptr: "says w (map ch ''0x'' @ hex_text v) (uprint_hex v (puts (map ch ''0x'') w))"
  by (rule says_trans [OF says_puts says_hex]) simp

lemma printf_plain: "c \<noteq> CHR ''%'' \<Longrightarrow> printf_loop (c # fmt) args w = printf_loop fmt args (putc (ch c) w)"
  by (simp add: printf_loop.simps(2))

lemma printf_ends:
  "printf_loop ''%'' args w = Some (putc (ch CHR ''%'') w)" "printf_loop ''%l'' args w = None"
  by (simp_all add: printf_loop.simps(2))

lemma says_chars:
  "says w [a, b] (putc b (putc a w))" "says w [a, b, c] (putc c (putc b (putc a w)))"
  using says_fold [of w "[a, b]"] says_fold [of w "[a, b, c]"] by simp_all

lemmas says_rules = says_putc says_puts says_udec says_dec says_hex says_null says_ptr says_chars

lemma printf_conv:
  assumes "d \<noteq> CHR ''l''" "args_fit args"
  shows "case conv (\<lambda>t. t) d args of None \<Rightarrow> printf_loop (CHR ''%'' # d # rest) args w = None
    | Some (t, as) \<Rightarrow> args_fit as \<and>
        (\<exists>w'. says w t w' \<and> printf_loop (CHR ''%'' # d # rest) args w = printf_loop rest as w')"
proof -
  note defs = printf_loop.simps(2) conv_def
  consider "d = CHR ''%''" | "d = CHR ''c''" | "d = CHR ''s''" | "d = CHR ''d''" | "d = CHR ''u''" | "d = CHR ''x''"
    | "d = CHR ''p''" | "d \<notin> set ''%csduxpl''" using assms(1) by auto
  then show ?thesis using assms(2)
    by cases (auto simp: defs args_fit_Cons split: list.split parg.split option.split
        intro!: exI [where P = "\<lambda>w'. says w _ w' \<and> printf_loop rest _ _ = printf_loop rest _ w'"] says_rules
        simp del: list.map)
qed

lemma printf_lconv:
  assumes "args_fit args"
  shows "case lconv e args of None \<Rightarrow> printf_loop (CHR ''%'' # CHR ''l'' # e # rest) args w = None
    | Some (t, as) \<Rightarrow> args_fit as \<and>
        (\<exists>w'. says w t w' \<and> printf_loop (CHR ''%'' # CHR ''l'' # e # rest) args w = printf_loop rest as w')"
proof -
  note defs = printf_loop.simps(2) lconv_def
  consider "e = CHR ''d''" | "e = CHR ''u''" | "e = CHR ''x''" | "e \<notin> set ''dux''" by auto
  then show ?thesis using assms
    by cases (auto simp: defs args_fit_Cons split: list.split parg.split
        intro!: exI [where P = "\<lambda>w'. says w _ w' \<and> printf_loop rest _ _ = printf_loop rest _ w'"] says_rules)
qed

lemma printf_text:
  assumes "args_fit args"
  shows "case fmt_text (\<lambda>t. t) fmt args of None \<Rightarrow> printf fmt args w = None
    | Some t \<Rightarrow> \<exists>w'. printf fmt args w = Some w' \<and> says w t w'"
  unfolding printf_def using assms
proof (induction fmt arbitrary: args w rule: length_induct)
  case (1 fmt)
  have IH: "case fmt_text (\<lambda>t. t) f a of None \<Rightarrow> printf_loop f a v = None
    | Some t \<Rightarrow> \<exists>w'. printf_loop f a v = Some w' \<and> says v t w'" if "length f < length fmt" "args_fit a" for f a v
    using 1(1) that by blast
  have step: ?case if "length r < length fmt" "args_fit as" "says w t v" "printf_loop fmt args w = printf_loop r as v"
    "fmt_text (\<lambda>t. t) fmt args = map_option ((@) t) (fmt_text (\<lambda>t. t) r as)" for r as v t
    using IH [OF that(1,2), of v] says_trans [OF that(3)] that(4,5) by (auto split: option.splits)
  show ?case
  proof (cases fmt rule: fmt_split)
    case 1 then show ?thesis by (simp add: says_refl)
  next
    case (2 c r)
    have "((@) [ch c]) = Cons (ch c)" by (rule ext) simp
    with 2 "1.prems" show ?thesis
      by (intro step [of r args "[ch c]"]) (simp_all add: printf_plain fmt_text_cases says_putc)
  next
    case 3 then show ?thesis by (simp add: printf_ends fmt_text_cases says_putc)
  next
    case 4 then show ?thesis by (simp add: printf_ends fmt_text_cases)
  next
    case (5 e r)
    show ?thesis
    proof (cases "lconv e args")
      case None then show ?thesis using printf_lconv [OF "1.prems", of e r w] 5 by (simp add: fmt_text_cases)
    next
      case (Some p)
      then obtain t as v where "lconv e args = Some (t, as)" "args_fit as" "says w t v"
        "printf_loop fmt args w = printf_loop r as v"
        using printf_lconv [OF "1.prems", of e r w] 5 by (cases p) auto
      then show ?thesis by (intro step [of r as t]) (simp_all add: 5 fmt_text_cases)
    qed
  next
    case (6 d r)
    show ?thesis
    proof (cases "conv (\<lambda>t. t) d args")
      case None then show ?thesis using printf_conv [OF 6(2) "1.prems", of r w] 6 by (simp add: fmt_text_cases)
    next
      case (Some p)
      then obtain t as v where "conv (\<lambda>t. t) d args = Some (t, as)" "args_fit as" "says w t v"
        "printf_loop fmt args w = printf_loop r as v"
        using printf_conv [OF 6(2) "1.prems", of r w] 6 by (cases p) auto
      then show ?thesis by (intro step [of r as t]) (simp_all add: 6 fmt_text_cases)
    qed
  qed
qed

definition no_newlines :: "parg list \<Rightarrow> bool" where
  "no_newlines args \<longleftrightarrow> (\<forall>t. AStr (Some t) \<in> set args \<longrightarrow> 10 \<notin> set t)"

lemma crlf_id: "10 \<notin> set t \<Longrightarrow> crlf t = t"
  by (induction t) (auto simp: crlf_def)

lemma crlf_null [simp]: "crlf null_string = null_string"
  by (rule crlf_id) (simp add: null_string_def)

lemma conv_crlf:
  "no_newlines args \<Longrightarrow> conv crlf d args = conv (\<lambda>t. t) d args"
  "no_newlines args \<Longrightarrow> conv nl d args = Some (t, as) \<Longrightarrow> no_newlines as"
  "no_newlines args \<Longrightarrow> lconv d args = Some (t, as) \<Longrightarrow> no_newlines as"
  by (auto simp: conv_def lconv_def no_newlines_def crlf_id split: list.splits parg.splits option.splits if_splits)

lemma fmt_text_crlf: "no_newlines args \<Longrightarrow> fmt_text crlf fmt args = fmt_text (\<lambda>t. t) fmt args"
proof (induction fmt arbitrary: args rule: length_induct)
  case (1 fmt)
  have IH: "fmt_text crlf f a = fmt_text (\<lambda>t. t) f a" if "length f < length fmt" "no_newlines a" for f a
    using 1(1) that by blast
  show ?case
  proof (cases fmt rule: fmt_split)
    case (5 e r)
    then show ?thesis using conv_crlf(3) [OF "1.prems", of e]
      by (cases "lconv e args") (auto simp: fmt_text_cases IH)
  next
    case (6 d r)
    then show ?thesis using conv_crlf(2) [OF "1.prems", of "\<lambda>t. t" d] conv_crlf(1) [OF "1.prems", of d]
      by (cases "conv (\<lambda>t. t) d args") (auto simp: fmt_text_cases IH)
  qed (simp_all add: fmt_text_cases IH "1.prems")
qed

text \<open>
  C13: the user library's \<open>printf\<close> and the kernel's \<open>printk\<close> agree: on the same format and
  arguments, with no newline inside a string, both are undefined or both put out the same text,
  and \<open>printf\<close> makes no system call but writes to standard output.
\<close>

theorem printf_matches_printk:
  assumes "args_fit args" "no_newlines args"
  shows "case printk fmt args s of None \<Rightarrow> printf fmt args w = None
    | Some s' \<Rightarrow> \<exists>t w'. s' = emit s t \<and> printf fmt args w = Some w' \<and> says w t w'"
  using printf_text [OF assms(1), of fmt w]
  by (auto simp: printk_emits fmt_text_crlf [OF assms(2)] split: option.splits)

theorem printf_matches_printk_witness:
  "case printk ''%s=%ld'' [AStr (Some [65]), ALong 7] idle_machine of
     None \<Rightarrow> printf ''%s=%ld'' [AStr (Some [65]), ALong 7] \<lparr>ucalls = [], ukernel = (\<lambda>_. \<lparr>uret = 0, udata = []\<rparr>)\<rparr> = None
   | Some s' \<Rightarrow> \<exists>t w'. s' = emit idle_machine t \<and>
       printf ''%s=%ld'' [AStr (Some [65]), ALong 7] \<lparr>ucalls = [], ukernel = (\<lambda>_. \<lparr>uret = 0, udata = []\<rparr>)\<rparr> = Some w' \<and>
       says \<lparr>ucalls = [], ukernel = (\<lambda>_. \<lparr>uret = 0, udata = []\<rparr>)\<rparr> t w'"
  by (rule printf_matches_printk) (simp_all add: args_fit_def no_newlines_def)

end
