(* ===== verification/Shell.thy ===== *)
theory Shell
  imports User
begin

text \<open>
  The shell and the demo task of \<^verbatim>\<open>user/init.c\<close>, and the programs of \<^verbatim>\<open>programs/\<close>, as functions
  of the world of \<^verbatim>\<open>User\<close>: one definition per command, and the endless loop of the shell, whose
  result exists exactly when it exits.
\<close>

section \<open>Helpers\<close>

text \<open>Sequencing after a step that may exit.\<close>

definition continue :: "('a \<Rightarrow> uworld \<Rightarrow> 'b urun) \<Rightarrow> (u32 + 'a) \<times> uworld \<Rightarrow> 'b urun" where
  "continue f r = (case fst r of Inl code \<Rightarrow> Some (Inl code, snd r) | Inr v \<Rightarrow> f v (snd r))"

definition return :: "uworld option \<Rightarrow> unit urun" where
  "return r = map_option (\<lambda>w. (Inr (), w)) r"

abbreviation str :: "string \<Rightarrow> u8 list" where "str cs \<equiv> map ch cs"

fun streq :: "u8 list \<Rightarrow> u8 list \<Rightarrow> bool" where
  "streq (x # a) (y # b) = (if x \<noteq> y then False else streq a b)"
| "streq [] [] = True"
| "streq _ _ = False"

text \<open>The string in a character array: the bytes before its first NUL, which must be there.\<close>

definition cstr :: "u8 list \<Rightarrow> u8 list option" where
  "cstr buf = (if 0 \<in> set buf then Some (takeWhile (\<lambda>c. c \<noteq> 0) buf) else None)"

fun repeat_yield :: "nat \<Rightarrow> uworld \<Rightarrow> uworld" where
  "repeat_yield 0 w = w"
| "repeat_yield (Suc n) w = repeat_yield n (yield w)"

text \<open>A loop that only counts.\<close>

function busy :: "u64 \<Rightarrow> u64 \<Rightarrow> uworld \<Rightarrow> uworld" where
  "busy i n w = (if i < n then busy (i + 1) n w else w)"
  by pat_completeness auto
termination
  by (relation "measure (\<lambda>(i, n, w). unat n - unat i)") (auto intro: word_plus_one_measure)

declare busy.simps [simp del]

section \<open>Commands\<close>

definition help_text :: "string list" where
  "help_text =
     [''available commands:\<newline>'',
      ''  help      - show this help\<newline>'',
      ''  hello     - print hello message\<newline>'',
      ''  about     - about this OS\<newline>'',
      ''  pid       - show current process ID\<newline>'',
      ''  ps        - list all processes\<newline>'',
      ''  yield     - yield CPU to other tasks\<newline>'',
      ''  fork      - fork a child process\<newline>'',
      ''  forktest  - fork and show processes in parent\<newline>'',
      ''  forkloop  - fork multiple children\<newline>'',
      ''  exec NAME - execute program from initrd\<newline>'',
      ''  exectest  - fork and exec hello program\<newline>'',
      ''  readtest  - test reading input\<newline>'',
      ''  looptest  - busy loop test (preemptive scheduling)\<newline>'',
      ''  exit      - exit the shell\<newline>'']"

definition cmd_help :: "uworld \<Rightarrow> uworld" where
  "cmd_help w = fold (\<lambda>l. puts (str l)) help_text w"

definition cmd_hello :: "uworld \<Rightarrow> uworld" where
  "cmd_hello w = puts (str ''Hello from KuroOS user shell!\<newline>'') w"

definition cmd_about :: "uworld \<Rightarrow> uworld" where
  "cmd_about w =
     fold (\<lambda>l. puts (str l))
       [''KuroOS - Minimal RISC-V Operating System\<newline>'',
        ''Features:\<newline>'',
        ''  - Sv39 virtual memory\<newline>'',
        ''  - Preemptive scheduling (timer interrupt)\<newline>'',
        ''  - User mode (U-mode) processes\<newline>'',
        ''  - fork() and exec() system calls\<newline>''] w"

definition cmd_pid :: "uworld \<Rightarrow> uworld option" where
  "cmd_pid w = (let (pid, w) = getpid w in printf ''current pid: %ld\<newline>'' [ALong pid] w)"

definition cmd_ps :: "uworld \<Rightarrow> uworld" where
  "cmd_ps w = snd (ps (puts (str ''process list:\<newline>'') w))"

definition cmd_yield :: "uworld \<Rightarrow> uworld" where
  "cmd_yield w = puts (str ''resumed after yield\<newline>'') (yield (puts (str ''yielding CPU...\<newline>'') w))"

definition cmd_fork :: "uworld \<Rightarrow> unit urun" where
  "cmd_fork w =
     (let (pid, w) = fork w
      in if pid <s 0 then return (Some (puts (str ''fork failed!\<newline>'') w))
         else if pid = 0
         then do { let (me, w) = getpid w;
                   w \<leftarrow> printf ''[child]  pid=%ld, hello from child!\<newline>'' [ALong me] w;
                   uexit 0 w }
         else return (printf ''[parent] forked child pid=%ld\<newline>'' [ALong pid] w))"

text \<open>The child of \<open>forktest\<close>: it reports, yields and exits.\<close>

definition forktest_child :: "string \<Rightarrow> uworld \<Rightarrow> unit urun" where
  "forktest_child fmt w =
     do { let (me, w) = getpid w;
          w \<leftarrow> printf fmt [ALong me] w;
          uexit 0 (repeat_yield 20 w) }"

definition cmd_forktest :: "uworld \<Rightarrow> unit urun" where
  "cmd_forktest w =
     (let w = puts (str ''=== fork test ===\<newline>'') w;
          w = puts (str ''before fork:\<newline>'') w;
          w = snd (ps w);
          w = puts (str ''\<newline>forking 2 children...\<newline>'') w;
          (pid1, w) = fork w
      in if pid1 = 0 then forktest_child ''[child1] pid=%ld alive!\<newline>'' w
         else let (pid2, w) = fork w
              in if pid2 = 0 then forktest_child ''[child2] pid=%ld alive!\<newline>'' w
                 else do {
                   w \<leftarrow> printf ''[parent] created children: %ld, %ld\<newline>'' [ALong pid1, ALong pid2] w;
                   let w = snd (ps (puts (str ''\<newline>parent calling ps (children should be visible):\<newline>'') w));
                   let w = repeat_yield 10 (puts (str ''\<newline>parent waiting for children...\<newline>'') w);
                   let w = snd (ps (puts (str ''\<newline>parent calling ps again:\<newline>'') w));
                   return (Some (puts (str ''\<newline>parent done\<newline>'') w)) })"

text \<open>The children of \<open>forkloop\<close> from \<open>3 - n\<close> on; the loop ends early when a fork fails.\<close>

fun forkloop_from :: "nat \<Rightarrow> uworld \<Rightarrow> unit urun" where
  "forkloop_from 0 w = Some (Inr (), w)"
| "forkloop_from (Suc n) w =
     (let i = 3 - of_nat (Suc n); (pid, w) = fork w
      in if pid <s 0 then return (Some (puts (str ''fork failed!\<newline>'') w))
         else if pid = 0
         then do { let (me, w) = getpid w;
                   w \<leftarrow> printf ''[child %d] pid=%ld alive!\<newline>'' [AInt i, ALong me] w;
                   uexit i (repeat_yield 15 w) }
         else do { w \<leftarrow> printf ''[parent] created child pid=%ld\<newline>'' [ALong pid] w;
                   forkloop_from n w })"

definition cmd_forkloop :: "uworld \<Rightarrow> unit urun" where
  "cmd_forkloop w =
     do { let w = puts (str ''forking 3 children...\<newline>'') w;
          r \<leftarrow> forkloop_from 3 w;
          continue (\<lambda>_ w. do {
            let w = puts (str ''parent done forking\<newline>'') w;
            let w = puts (str ''run 'ps' to see all processes!\<newline>'') w;
            return (Some (puts (str ''parent done\<newline>'') (repeat_yield 20 w))) }) r }"

definition cmd_exec :: "u8 list \<Rightarrow> uworld \<Rightarrow> uworld option" where
  "cmd_exec name w =
     do { w \<leftarrow> printf ''exec: running '%s'...\<newline>'' [AStr (Some name)] w;
          let (ret, w) = exec name w;
          if ret <s 0 then printf ''exec: failed to run '%s'\<newline>'' [AStr (Some name)] w else Some w }"

definition cmd_exectest :: "uworld \<Rightarrow> unit urun" where
  "cmd_exectest w =
     (let (pid, w) = fork w
      in if pid <s 0 then return (Some (puts (str ''fork failed!\<newline>'') w))
         else if pid = 0
         then let w = puts (str ''[child] exec hello...\<newline>'') w;
                  (_, w) = exec (str ''hello'') w
              in uexit 1 (puts (str ''[child] exec failed!\<newline>'') w)
         else do { w \<leftarrow> printf ''[parent] forked child pid=%ld, waiting...\<newline>'' [ALong pid] w;
                   return (Some (puts (str ''[parent] done\<newline>'') (repeat_yield 10 w))) })"

text \<open>The 64 bytes of the buffer start with what is on the stack.\<close>

definition cmd_readtest :: "u8 list \<Rightarrow> uworld \<Rightarrow> uworld option" where
  "cmd_readtest buf w =
     do { let w = puts (str ''enter something: '') w;
          (n, buf, w) \<leftarrow> uread 0 buf 63 w;
          if 0 <s n
          then do { kassert (unat n < length buf);
                    t \<leftarrow> cstr (buf[unat n := 0]);
                    printf ''you entered: %s\<newline>'' [AStr (Some t)] w }
          else Some (puts (str ''read error\<newline>'') w) }"

definition cmd_looptest :: "uworld \<Rightarrow> uworld option" where
  "cmd_looptest w =
     do { let (p, w) = getpid w;
          let pid = ucast p;
          w \<leftarrow> printf ''[pid %d] starting busy loop (will be preempted by timer)...\<newline>'' [AInt pid] w;
          printf ''[pid %d] loop finished\<newline>'' [AInt pid] (busy 0 500000000 w) }"

section \<open>The shell\<close>

text \<open>One command line; \<open>buf\<close> is the stack of \<open>readtest\<close>'s buffer, \<open>line\<close> the array read into.\<close>

definition shell_command :: "u8 list \<Rightarrow> u8 list \<Rightarrow> uworld \<Rightarrow> unit urun" where
  "shell_command buf line w =
     do { s \<leftarrow> cstr line;
          if streq s (str '''') then Some (Inr (), w)
          else if streq s (str ''help'') then return (Some (cmd_help w))
          else if streq s (str ''hello'') then return (Some (cmd_hello w))
          else if streq s (str ''about'') then return (Some (cmd_about w))
          else if streq s (str ''pid'') \<or> streq s (str ''getpid'') then return (cmd_pid w)
          else if streq s (str ''ps'') then return (Some (cmd_ps w))
          else if streq s (str ''yield'') then return (Some (cmd_yield w))
          else if streq s (str ''fork'') then cmd_fork w
          else if streq s (str ''forktest'') then cmd_forktest w
          else if streq s (str ''forkloop'') then cmd_forkloop w
          else if streq s (str ''readtest'') then return (cmd_readtest buf w)
          else if streq s (str ''looptest'') then return (cmd_looptest w)
          else if streq s (str ''exectest'') then cmd_exectest w
          else if streq s (str ''exit'') \<or> streq s (str ''quit'')
          then uexit 0 (puts (str ''goodbye!\<newline>'') w)
          else if take 5 line = str ''exec ''
          then do { name \<leftarrow> cstr (drop 5 line); return (cmd_exec name w) }
          else return (Some (puts (str ''\<newline>'') (puts s (puts (str ''unknown command: '') w)))) }"

definition shell_iteration :: "u8 list \<Rightarrow> u8 list \<Rightarrow> uworld \<Rightarrow> (u8 list) urun" where
  "shell_iteration buf line w =
     do { let w = puts (str ''> '') w;
          (n, line, w) \<leftarrow> uread 0 line 80 w;
          if n <s 0 then Some (Inr line, puts (str ''read error\<newline>'') w)
          else do { r \<leftarrow> shell_command buf line w; continue (\<lambda>_ w. Some (Inr line, w)) r } }"

partial_function (option) shell_loop :: "u8 list \<Rightarrow> u8 list \<Rightarrow> uworld \<Rightarrow> (u32 \<times> uworld) option" where
  "shell_loop buf line w =
     do { (r, w) \<leftarrow> shell_iteration buf line w;
          case r of Inl code \<Rightarrow> Some (code, w) | Inr line \<Rightarrow> shell_loop buf line w }"

definition user_main :: "u8 list \<Rightarrow> u8 list \<Rightarrow> uworld \<Rightarrow> (u32 \<times> uworld) option" where
  "user_main buf line w =
     (let w = puts (str ''=== KuroOS Shell ===\<newline>'') w;
          w = puts (str ''type 'help' for commands\<newline>\<newline>'') w
      in shell_loop buf line w)"

section \<open>Programs\<close>

text \<open>A literal in memory ends in a NUL.\<close>

abbreviation lit :: "string \<Rightarrow> u8 list" where "lit cs \<equiv> str cs @ [0]"

definition user_demo :: "uworld \<Rightarrow> unit urun" where
  "user_demo w =
     do { (_, w) \<leftarrow> uwrite 1 (lit ''demo task started\<newline>'') 18 w;
          (_, w) \<leftarrow> uwrite 1 (lit ''demo task exiting\<newline>'') 18 (busy 0 20000000 w);
          uexit 42 w }"

definition hello_main :: "uworld \<Rightarrow> unit urun" where
  "hello_main w =
     do { (_, w) \<leftarrow> uwrite 1 (lit ''Hello from hello program!\<newline>'') 26 w;
          (_, w) \<leftarrow> uwrite 1 (lit ''PID: '') 5 w;
          let (pid, w) = getpid w;
          (_, w) \<leftarrow> (if pid <s 10 then uwrite 1 [ucast (48 + pid)] 1 w else Some (0, w));
          (_, w) \<leftarrow> uwrite 1 (lit ''\<newline>'') 1 w;
          uexit 0 w }"

fun counter_from :: "nat \<Rightarrow> uworld \<Rightarrow> uworld option" where
  "counter_from 0 w = Some w"
| "counter_from (Suc n) w =
     do { let i = (6 - of_nat (Suc n) :: u32);
          (_, w) \<leftarrow> uwrite 1 (lit ''count: '') 7 w;
          (_, w) \<leftarrow> uwrite 1 [ucast (48 + i)] 1 w;
          (_, w) \<leftarrow> uwrite 1 (lit ''\<newline>'') 1 w;
          counter_from n (yield w) }"

definition counter_main :: "uworld \<Rightarrow> unit urun" where
  "counter_main w =
     do { (_, w) \<leftarrow> uwrite 1 (lit ''Counter started\<newline>'') 16 w;
          w \<leftarrow> counter_from 5 w;
          (_, w) \<leftarrow> uwrite 1 (lit ''Counter done!\<newline>'') 14 w;
          uexit 0 w }"

definition loop_main :: "uworld \<Rightarrow> unit urun" where
  "loop_main w =
     do { (_, w) \<leftarrow> uwrite 1 (lit ''Loop program started\<newline>'') 21 w;
          (_, w) \<leftarrow> uwrite 1 (lit ''Running 100M iterations...\<newline>'') 27 w;
          (_, w) \<leftarrow> uwrite 1 (lit ''Loop finished!\<newline>'') 15 (busy 0 100000000 w);
          uexit 0 w }"

section \<open>Runs\<close>

definition goes :: "uworld \<Rightarrow> uworld \<Rightarrow> bool" where
  "goes w w' \<longleftrightarrow> (\<exists>cs. w' = w\<lparr>ucalls := ucalls w @ cs\<rparr>)"

definition runs :: "uworld \<Rightarrow> 'a urun \<Rightarrow> bool" where
  "runs w m \<longleftrightarrow> (\<exists>r w'. m = Some (r, w') \<and> goes w w')"

definition ran :: "uworld \<Rightarrow> uworld option \<Rightarrow> bool" where
  "ran w m \<longleftrightarrow> (\<exists>w'. m = Some w' \<and> goes w w')"

lemma goes_refl: "goes w w"
  unfolding goes_def by (rule exI [of _ "[]"]) simp

lemma goes_trans: "goes w v \<Longrightarrow> goes v u \<Longrightarrow> goes w u"
  unfolding goes_def by auto

lemma says_goes: "says w t w' \<Longrightarrow> goes w w'"
  by (auto simp: says_def goes_def)

lemma syscall3_goes: "goes w (snd (syscall3 c w))" "syscall3 c w = (r, w') \<Longrightarrow> goes w w'"
  by (auto simp: syscall3_def Let_def goes_def)

lemma goes_puts: "goes w v \<Longrightarrow> goes w (puts s v)"
  unfolding puts_def by (rule goes_trans [OF _ syscall3_goes(1)])

lemma goes_fold: "goes w v \<Longrightarrow> goes w (fold (\<lambda>l. puts (str l)) ls v)"
  by (induction ls arbitrary: v) (simp_all add: goes_puts)

lemma goes_yield: "goes w v \<Longrightarrow> goes w (yield v)"
  unfolding yield_def by (rule goes_trans [OF _ syscall3_goes(1)])

lemma goes_repeat_yield: "goes w v \<Longrightarrow> goes w (repeat_yield n v)"
  by (induction n arbitrary: v) (simp_all add: goes_yield)

lemma busy_id: "busy i n w = w"
proof (induction i n w rule: busy.induct)
  case (1 i n w)
  then show ?case by (subst busy.simps) simp
qed

lemma goes_calls:
  "goes w v \<Longrightarrow> goes w (snd (getpid v))" "goes w v \<Longrightarrow> goes w (snd (fork v))"
  "goes w v \<Longrightarrow> goes w (snd (ps v))" "goes w v \<Longrightarrow> goes w (snd (exec f v))"
  using goes_trans [OF _ syscall3_goes(1)] by (simp_all add: getpid_def fork_def ps_def exec_def split_def Let_def)

lemmas goes_rules = goes_refl goes_puts goes_fold goes_yield goes_repeat_yield goes_calls

lemma runs_exit: "goes w v \<Longrightarrow> runs w (uexit c v)"
  unfolding runs_def uexit_def by (auto intro: goes_trans [OF _ syscall3_goes(1)])

lemma runs_return: "ran w m \<Longrightarrow> runs w (return m)"
  by (auto simp: runs_def ran_def return_def)

lemma ran_Some: "goes w v \<Longrightarrow> ran w (Some v)"
  by (simp add: ran_def)

lemma ran_printf:
  assumes "goes w v" "args_fit args" "fmt_text (\<lambda>t. t) fmt args \<noteq> None"
  shows "ran w (printf fmt args v)"
  using printf_text [OF assms(2), of fmt v] assms(1,3) says_goes goes_trans unfolding ran_def by fastforce

lemma bind_printf:
  assumes "goes w v" "args_fit args" "fmt_text (\<lambda>t. t) fmt args \<noteq> None" "\<And>u. goes w u \<Longrightarrow> P (f u)"
  shows "P (Option.bind (printf fmt args v) f)"
  using ran_printf [OF assms(1-3)] assms(4) by (auto simp: ran_def)

lemmas runs_printf = bind_printf [where P = "runs w" for w]
lemmas ran_bind_printf = bind_printf [where P = "ran w" for w]

lemma runs_if: "(b \<Longrightarrow> runs w x) \<Longrightarrow> (\<not> b \<Longrightarrow> runs w y) \<Longrightarrow> runs w (if b then x else y)"
  and ran_if: "(b \<Longrightarrow> ran w u) \<Longrightarrow> (\<not> b \<Longrightarrow> ran w v) \<Longrightarrow> ran w (if b then u else v)"
  by simp_all

lemma args_fit_simps [simp]:
  "args_fit []" "args_fit (AInt v # as) = args_fit as" "args_fit (ALong x # as) = args_fit as"
  "args_fit (AStr (Some t) # as) \<longleftrightarrow> length t < 2 ^ 64 \<and> args_fit as"
  by (auto simp: args_fit_def)

lemmas fmt_eval = fmt_text.simps(2) conv_def lconv_def
lemmas run_rules = runs_if ran_if runs_return ran_Some runs_exit runs_printf ran_bind_printf ran_printf

lemma goes_run_rules: "runs w (Some (r, v)) \<longleftrightarrow> goes w v"
  by (simp add: runs_def)

lemma run_cmd_fork: "runs w (cmd_fork w)"
  unfolding cmd_fork_def Let_def split_def
  by (intro run_rules goes_rules; assumption?) (simp_all add: fmt_eval goes_refl)

lemma run_cmd_pid: "ran w (cmd_pid w)"
  unfolding cmd_pid_def Let_def split_def
  by (intro run_rules goes_rules; assumption?) (simp_all add: fmt_eval goes_refl)

lemma run_forktest_child:
  assumes "goes w v" "\<And>x. fmt_text (\<lambda>t. t) fmt [ALong x] \<noteq> None"
  shows "runs w (forktest_child fmt v)"
  unfolding forktest_child_def Let_def split_def
  by (intro run_rules goes_rules assms(2); (rule assms(1) | assumption)?) simp

lemma run_cmd_forktest: "runs w (cmd_forktest w)"
  unfolding cmd_forktest_def Let_def split_def
  by (intro run_rules goes_rules run_forktest_child; assumption?) (simp_all add: fmt_eval goes_refl)

lemma run_forkloop: "goes w v \<Longrightarrow> runs w (forkloop_from n v)"
proof (induction n arbitrary: v)
  case (Suc n)
  show ?case
    unfolding forkloop_from.simps(2) Let_def split_def
    by (intro run_rules goes_rules Suc; (rule Suc.prems | assumption)?) (simp_all add: fmt_eval goes_refl)
qed (simp add: goes_run_rules)

lemma run_cmd_forkloop: "runs w (cmd_forkloop w)"
proof -
  obtain r v where r: "forkloop_from 3 (puts (str ''forking 3 children...\<newline>'') w) = Some (r, v)" "goes w v"
    using run_forkloop [OF goes_puts [OF goes_refl], where n = 3] unfolding runs_def by blast
  show ?thesis
  proof (cases r)
    case (Inl c)
    then show ?thesis using r unfolding cmd_forkloop_def Let_def by (simp add: continue_def goes_run_rules)
  next
    case (Inr u)
    have "runs w (return (Some (puts (str ''parent done\<newline>'') (repeat_yield 20
      (puts (str ''run 'ps' to see all processes!\<newline>'') (puts (str ''parent done forking\<newline>'') v))))))"
      by (intro run_rules goes_rules r(2))
    then show ?thesis using r Inr unfolding cmd_forkloop_def Let_def by (simp add: continue_def)
  qed
qed

lemma run_cmd_exec: "length name < 2 ^ 64 \<Longrightarrow> ran w (cmd_exec name w)"
  unfolding cmd_exec_def Let_def split_def
  by (intro run_rules goes_rules; assumption?) (simp_all add: fmt_eval goes_refl)

lemma run_cmd_exectest: "runs w (cmd_exectest w)"
  unfolding cmd_exectest_def Let_def split_def
  by (intro run_rules goes_rules; assumption?) (simp_all add: fmt_eval goes_refl)

lemma run_cmd_looptest: "ran w (cmd_looptest w)"
  unfolding cmd_looptest_def Let_def split_def busy_id
  by (intro run_rules goes_rules; assumption?) (simp_all add: fmt_eval goes_refl)


section \<open>The shell is defined\<close>

definition read_contract :: "(ucall list \<Rightarrow> ureply) \<Rightarrow> bool" where
  "read_contract k \<longleftrightarrow> (\<forall>h fd len. len > 0 \<longrightarrow>
     (let r = k (h @ [URead fd len])
      in if uret r <s 0 then udata r = []
         else unat (uret r) < length (udata r) \<and> length (udata r) \<le> unat len \<and> udata r ! unat (uret r) = 0))"

fun is_read :: "ucall \<Rightarrow> bool" where
  "is_read (URead fd len) \<longleftrightarrow> True"
| "is_read _ \<longleftrightarrow> False"

definition reads :: "uworld \<Rightarrow> nat" where
  "reads w = length (filter is_read (ucalls w))"

lemma goes_reads: "goes w w' \<Longrightarrow> reads w \<le> reads w'" "goes w w' \<Longrightarrow> ukernel w' = ukernel w"
  by (auto simp: goes_def reads_def)

lemma uread_contract:
  assumes "read_contract (ukernel w)" "unat len \<le> length buf" "len > 0"
  obtains n buf' w' where "uread fd buf len w = Some (n, buf', w')" "goes w w'" "reads w' = Suc (reads w)"
    "length buf' = length buf" "\<not> n <s 0 \<Longrightarrow> unat n < unat len \<and> buf' ! unat n = 0"
proof -
  define c r where "c = URead (scast fd) len" and "r = ukernel w (ucalls w @ [c])"
  have R: "if uret r <s 0 then udata r = []
     else unat (uret r) < length (udata r) \<and> length (udata r) \<le> unat len \<and> udata r ! unat (uret r) = 0"
    using assms(1,3) unfolding read_contract_def c_def r_def Let_def by blast
  then have l: "length (udata r) \<le> length buf" using assms(2) by (auto split: if_splits)
  show ?thesis
    by (rule that [of "uret r" "udata r @ drop (length (udata r)) buf" "w\<lparr>ucalls := ucalls w @ [c]\<rparr>"])
      (use R l in \<open>auto simp: uread_def syscall3_def Let_def c_def r_def goes_def reads_def nth_append split: if_splits\<close>)
qed

lemma cstr_in: "0 \<in> set buf \<Longrightarrow> \<exists>t. cstr buf = Some t \<and> length t \<le> length buf"
  by (simp add: cstr_def length_takeWhile_le)

lemma sgt_0: "0 <s (n::u64) \<Longrightarrow> \<not> n <s 0"
  by (simp add: word_sless_alt)

lemma run_cmd_readtest:
  assumes "read_contract (ukernel w)" "length buf = 64"
  shows "ran w (cmd_readtest buf w)"
proof -
  let ?w = "puts (str ''enter something: '') w"
  have g: "goes w ?w" by (intro goes_rules)
  have k: "read_contract (ukernel ?w)" using assms(1) goes_reads(2) [OF g] by simp
  obtain n b v where
    r: "uread 0 buf 63 ?w = Some (n, b, v)" "goes ?w v" "length b = 64" "\<not> n <s 0 \<Longrightarrow> unat n < 63"
    by (rule uread_contract [OF k, of 63 buf 0]) (use assms(2) in auto)
  note gv = goes_trans [OF g r(2)]
  show ?thesis
  proof (cases "0 <s n")
    case True
    then have n: "unat n < 63" using r(4) sgt_0 by blast
    then have "0 \<in> set (b[unat n := 0])" using r(3) by (intro set_update_memI) simp
    then obtain t where t: "cstr (b[unat n := 0]) = Some t" "length t \<le> length (b[unat n := 0])"
      using cstr_in by blast
    have "ran w (printf ''you entered: %s\<newline>'' [AStr (Some t)] v)"
      by (rule ran_printf [OF gv]) (use t r(3) in \<open>simp_all add: fmt_eval\<close>)
    then show ?thesis using r True n t by (simp add: cmd_readtest_def)
  next
    case False
    then show ?thesis using r gv by (simp add: cmd_readtest_def ran_def goes_puts)
  qed
qed


lemma run_shell_command:
  assumes "read_contract (ukernel w)" "length buf = 64" "length line = 80" "0 \<in> set line"
  shows "runs w (shell_command buf line w)"
proof -
  obtain t where t: "cstr line = Some t" "length t \<le> 80" using cstr_in [OF assms(4)] assms(3) by auto
  have exec: "runs w (do { name \<leftarrow> cstr (drop 5 line); return (cmd_exec name w) })" if "take 5 line = str ''exec ''"
  proof -
    have "0 \<notin> set (take 5 line)" using that by simp
    then have "0 \<in> set (drop 5 line)" using assms(4) by (metis Un_iff append_take_drop_id set_append)
    then obtain n where n: "cstr (drop 5 line) = Some n" "length n \<le> length (drop 5 line)" using cstr_in by blast
    then have "ran w (cmd_exec n w)" using assms(3) by (intro run_cmd_exec) simp
    then show ?thesis using n by (simp add: runs_return)
  qed
  show ?thesis
    unfolding shell_command_def t(1) Option.bind.simps cmd_help_def cmd_hello_def cmd_about_def cmd_ps_def cmd_yield_def
    by (intro run_rules goes_rules run_cmd_fork run_cmd_pid run_cmd_forktest run_cmd_exectest run_cmd_looptest
        run_cmd_readtest run_cmd_forkloop exec assms; (rule assms)?) (simp add: goes_run_rules goes_refl)
qed

lemma shell_iteration_runs:
  assumes "read_contract (ukernel w)" "length buf = 64" "length line = 80"
  shows "\<exists>r w'. shell_iteration buf line w = Some (r, w') \<and> goes w w' \<and> reads w < reads w' \<and>
    (\<forall>line'. r = Inr line' \<longrightarrow> length line' = 80)"
proof -
  let ?w = "puts (str ''> '') w"
  have g: "goes w ?w" by (intro goes_rules)
  have k: "read_contract (ukernel ?w)" using assms(1) goes_reads(2) [OF g] by simp
  obtain n l v where r: "uread 0 line 80 ?w = Some (n, l, v)" "goes ?w v" "reads v = Suc (reads ?w)" "length l = 80"
    "\<not> n <s 0 \<Longrightarrow> unat n < 80 \<and> l ! unat n = 0"
    by (rule uread_contract [OF k, of 80 line 0]) (use assms(3) in auto)
  note gv = goes_trans [OF g r(2)]
  have rd: "reads w < reads u" if "goes v u" for u
    using goes_reads(1) [OF that] goes_reads(1) [OF g] r(3) by simp
  show ?thesis
  proof (cases "n <s 0")
    case True
    have "goes v (puts (str ''read error\<newline>'') v)" by (intro goes_rules)
    then show ?thesis using True r(1,4) goes_trans [OF gv] rd by (simp add: shell_iteration_def)
  next
    case False
    then have "0 \<in> set l" using r(4,5) by (metis nth_mem)
    moreover have "read_contract (ukernel v)" using assms(1) goes_reads(2) [OF gv] by simp
    ultimately obtain x u where x: "shell_command buf l v = Some (x, u)" "goes v u"
      using run_shell_command [OF _ assms(2) r(4)] unfolding runs_def by blast
    then show ?thesis using False r(1,4) goes_trans [OF gv x(2)] rd [OF x(2)]
      by (cases x) (simp_all add: shell_iteration_def continue_def)
  qed
qed

definition exit_line :: "u8 list" where
  "exit_line = str ''exit'' @ [0]"

lemma shell_iteration_exit:
  assumes "ukernel w = k" "\<And>h fd len. N \<le> length (filter is_read h) \<Longrightarrow> 5 \<le> len \<Longrightarrow> k (h @ [URead fd len]) = \<lparr>uret = 4, udata = exit_line\<rparr>"
    "length line = 80" "N \<le> reads w"
  shows "\<exists>w'. shell_iteration buf line w = Some (Inl 0, w') \<and> last (ucalls w') = UExit 0"
proof -
  let ?w = "puts (str ''> '') w"
  have g: "goes w ?w" by (intro goes_rules)
  have len5: "length exit_line = 5" by (simp add: exit_line_def)
  have kw: "ukernel ?w (ucalls ?w @ [URead 0 80]) = \<lparr>uret = 4, udata = exit_line\<rparr>"
    using assms(2) [of "ucalls ?w"] assms(1,4) goes_reads [OF g] by (simp add: reads_def)
  have "uread 0 line 80 ?w = Some (4, exit_line @ drop 5 line, ?w\<lparr>ucalls := ucalls ?w @ [URead 0 80]\<rparr>)"
    using kw assms(3) len5 by (simp add: uread_def syscall3_def Let_def)
  moreover have "cstr (exit_line @ drop 5 line) = Some (str ''exit'')" by (simp add: cstr_def exit_line_def)
  ultimately show ?thesis
    by (simp add: shell_iteration_def shell_command_def word_sless_alt continue_def uexit_def syscall3_def Let_def)
qed

lemma shell_loop_terminates:
  assumes "read_contract (ukernel w)" "length buf = 64" "length line = 80"
    and "\<And>h fd len. N \<le> length (filter is_read h) \<Longrightarrow> 5 \<le> len \<Longrightarrow>
      ukernel w (h @ [URead fd len]) = \<lparr>uret = 4, udata = exit_line\<rparr>"
  shows "\<exists>code w'. shell_loop buf line w = Some (code, w')"
  using assms
proof (induction "N - reads w" arbitrary: w line rule: less_induct)
  case less
  show ?case
  proof (cases "N \<le> reads w")
    case True
    then obtain v where "shell_iteration buf line w = Some (Inl 0, v)"
      using shell_iteration_exit [OF refl less.prems(4) less.prems(3) True] by blast
    then show ?thesis by (subst shell_loop.simps) simp
  next
    case False
    obtain r v where r: "shell_iteration buf line w = Some (r, v)" "goes w v" "reads w < reads v"
      "\<And>line'. r = Inr line' \<Longrightarrow> length line' = 80"
      using shell_iteration_runs [OF less.prems(1-3)] by blast
    show ?thesis
    proof (cases r)
      case (Inl c)
      then show ?thesis using r(1) by (subst shell_loop.simps) simp
    next
      case (Inr l)
      have k: "ukernel v = ukernel w" by (rule goes_reads(2) [OF r(2)])
      have "N - reads v < N - reads w" using r(3) False by simp
      then have "\<exists>code w'. shell_loop buf l v = Some (code, w')"
        by (rule less.hyps) (use less.prems r(4) [OF Inr] k in auto)
      then show ?thesis using r(1) Inr by (subst shell_loop.simps) simp
    qed
  qed
qed


text \<open>
  C11: whatever is typed, one turn of the shell is defined: no command reads or writes outside its
  buffers, every format fits its arguments, the line buffer stays 80 bytes, and the turn reads at
  least once, provided the kernel answers \<open>read\<close> as \<open>sys_read\<close> does.
\<close>

theorem shell_iteration_defined:
  assumes "read_contract (ukernel w)" "length buf = 64" "length line = 80"
  shows "\<exists>r w'. shell_iteration buf line w = Some (r, w') \<and> goes w w' \<and> reads w < reads w' \<and>
    (\<forall>line'. r = Inr line' \<longrightarrow> length line' = 80)"
  using assms by (rule shell_iteration_runs)

text \<open>
  C19: the shell terminates once the user types \<^verbatim>\<open>exit\<close> at every further prompt, whatever
  commands ran before and whatever the kernel answered to their calls.
\<close>

theorem shell_terminates:
  assumes "read_contract (ukernel w)" "length buf = 64" "length line = 80"
    and "\<And>h fd len. N \<le> length (filter is_read h) \<Longrightarrow> 5 \<le> len \<Longrightarrow>
      ukernel w (h @ [URead fd len]) = \<lparr>uret = 4, udata = exit_line\<rparr>"
  shows "\<exists>code w'. user_main buf line w = Some (code, w')"
proof -
  let ?w = "puts (str ''type 'help' for commands\<newline>\<newline>'') (puts (str ''=== KuroOS Shell ===\<newline>'') w)"
  have "goes w ?w" by (intro goes_rules)
  then have "ukernel ?w = ukernel w" by (rule goes_reads(2))
  then show ?thesis
    unfolding user_main_def Let_def by (intro shell_loop_terminates [where N = N]) (use assms in simp_all)
qed

text \<open>A kernel whose user types \<^verbatim>\<open>help\<close>, then \<^verbatim>\<open>forkloop\<close>, then \<^verbatim>\<open>exit\<close> for ever.\<close>

definition typing_kernel :: "ucall list \<Rightarrow> ureply" where
  "typing_kernel h =
     (case last h of
        URead fd len \<Rightarrow>
          if len < 5 then \<lparr>uret = 0, udata = [0]\<rparr>
          else if length (filter is_read h) = 1 then \<lparr>uret = 4, udata = str ''help'' @ [0]\<rparr>
          else \<lparr>uret = 4, udata = exit_line\<rparr>
      | UFork \<Rightarrow> \<lparr>uret = 2, udata = []\<rparr>
      | _ \<Rightarrow> \<lparr>uret = 1, udata = []\<rparr>)"

lemma typing_kernel_contract: "read_contract typing_kernel"
proof -
  have "5 \<le> unat len" if "\<not> len < 5" for len :: u64 using that by (simp add: word_less_nat_alt)
  then show ?thesis
    by (auto simp: read_contract_def typing_kernel_def Let_def exit_line_def word_sless_alt word_less_nat_alt)
qed

theorem shell_terminates_witness:
  "\<exists>code w'. user_main (replicate 64 0) (replicate 80 0) \<lparr>ucalls = [], ukernel = typing_kernel\<rparr> = Some (code, w')"
  by (rule shell_terminates [where N = 1])
    (simp_all add: typing_kernel_contract, auto simp: typing_kernel_def not_less)

lemmas program_defs = uwrite_def syscall3_def Let_def getpid_def uexit_def busy_id

lemma hello_output:
  "\<exists>w'. hello_main w = Some (Inl 0, w') \<and>
     (let pre = ucalls w @ [UWrite 1 (str ''Hello from hello program!\<newline>''), UWrite 1 (str ''PID: ''), UGetpid];
          pid = uret (ukernel w pre)
      in ucalls w' = pre @ (if pid <s 10 then [UWrite 1 [ucast (48 + pid)]] else []) @ [UWrite 1 [10], UExit 0])"
  by (simp add: hello_main_def program_defs)

definition counter_line :: "char \<Rightarrow> ucall list" where
  "counter_line c = [UWrite 1 (str ''count: ''), UWrite 1 [ch c], UWrite 1 [10], UYield]"

lemma counter_from_steps:
  "counter_from (numeral v) w =
     do { (_, w) \<leftarrow> uwrite 1 (lit ''count: '') 7 w;
          (_, w) \<leftarrow> uwrite 1 [ucast (48 + (6 - numeral v :: u32))] 1 w;
          (_, w) \<leftarrow> uwrite 1 (lit ''\<newline>'') 1 w;
          counter_from (pred_numeral v) (yield w) }" (is ?thesis1)
  "counter_from 1 w =
     do { (_, w) \<leftarrow> uwrite 1 (lit ''count: '') 7 w;
          (_, w) \<leftarrow> uwrite 1 [ucast (48 + (6 - 1 :: u32))] 1 w;
          (_, w) \<leftarrow> uwrite 1 (lit ''\<newline>'') 1 w;
          Some (yield w) }" (is ?thesis2)
proof -
  have "of_nat (Suc (pred_numeral v)) = (numeral v :: u32)" by (metis numeral_eq_Suc of_nat_numeral)
  then show "?thesis1" by (simp only: numeral_eq_Suc counter_from.simps Let_def)
  show "?thesis2" unfolding One_nat_def counter_from.simps Let_def by simp
qed

lemma counter_output:
  "\<exists>w'. counter_main w = Some (Inl 0, w') \<and>
     ucalls w' = ucalls w @ [UWrite 1 (str ''Counter started\<newline>'')] @ concat (map counter_line ''12345'') @
       [UWrite 1 (str ''Counter done!\<newline>''), UExit 0]"
  by (simp add: counter_main_def program_defs yield_def counter_line_def counter_from_steps)

lemma loop_output:
  "\<exists>w'. loop_main w = Some (Inl 0, w') \<and>
     ucalls w' = ucalls w @ map (UWrite 1) [str ''Loop program started\<newline>'',
       str ''Running 100M iterations...\<newline>'', str ''Loop finished!\<newline>''] @ [UExit 0]"
  by (simp add: loop_main_def program_defs)

lemma demo_output:
  "\<exists>w'. user_demo w = Some (Inl 42, w') \<and>
     ucalls w' = ucalls w @ map (UWrite 1) [str ''demo task started\<newline>'', str ''demo task exiting\<newline>''] @ [UExit 42]"
  by (simp add: user_demo_def program_defs)


theorem shell_iteration_defined_witness:
  "\<exists>r w'. shell_iteration (replicate 64 0) (replicate 80 0) \<lparr>ucalls = [], ukernel = typing_kernel\<rparr> = Some (r, w') \<and>
    goes \<lparr>ucalls = [], ukernel = typing_kernel\<rparr> w' \<and> reads \<lparr>ucalls = [], ukernel = typing_kernel\<rparr> < reads w' \<and>
    (\<forall>line'. r = Inr line' \<longrightarrow> length line' = 80)"
  by (rule shell_iteration_defined) (simp_all add: typing_kernel_contract)

end
