(* ===== verification/Spec2Isabelle.thy ===== *)
theory Spec2Isabelle
  imports Sched Shell
begin

text \<open>KuroOS, a small RISC-V kernel.\<close>

end
